(* ===== verification/Prelude.thy ===== *)
theory Prelude
  imports Main "HOL-Library.Word" "HOL-Library.AList"
begin

text \<open>
  Shared vocabulary of the development: the machine types of the Rust sources, the
  \<open>error\<close> variant of \<open>wit/iroh.wit\<close>, the pieces of the Rust standard library that several
  components use (array conversion, slice chunking, decimal and debug rendering), the
  collections of simplification rules the component theories fill, and the generic
  locales for invariants of transition systems and for encoders with their decoders.
\<close>

unbundle bit_operations_syntax

section \<open>Machine types\<close>

type_synonym u8 = "8 word"
type_synonym u16 = "16 word"
type_synonym u32 = "32 word"
type_synonym u64 = "64 word"

type_synonym bytes = "u8 list"

text \<open>
  \<open>[u8; 32]\<close>: an Ed25519 public key, which is also the endpoint identifier. The length is
  checked where the source checks it, by \<open>try_into\<close>.
\<close>

type_synonym endpoint_id = bytes

text \<open>
  Rust strings are UTF-8 byte sequences; a HOL \<open>string\<close> holds the same bytes as characters.
\<close>

definition byte_char :: "u8 \<Rightarrow> char" where
  "byte_char b = char_of (unat b)"

definition char_byte :: "char \<Rightarrow> u8" where
  "char_byte c = of_nat (of_char c)"

definition string_bytes :: "string \<Rightarrow> bytes" where
  "string_bytes s = map char_byte s"

section \<open>Errors\<close>

text \<open>The \<open>error\<close> variant of the exported interface; every fallible operation returns it.\<close>

datatype error =
    Closed
  | Reset string
  | ConnectFailed string
  | InvalidArgument string
  | Other string

type_synonym 'a result = "error + 'a"

text \<open>
  The fallible operations of the core crate return \<open>Result<_, String>\<close>.
\<close>

type_synonym 'a sresult = "string + 'a"

text \<open>The ways the code can panic.\<close>

datatype panic = IndexMissing | SliceOutOfRange | ExpectFailed string

text \<open>Rust's \<open>?\<close> with \<open>map_err\<close>.\<close>

definition map_err :: "('e \<Rightarrow> 'f) \<Rightarrow> 'e + 'a \<Rightarrow> 'f + 'a" where
  "map_err f r = (case r of Inl e \<Rightarrow> Inl (f e) | Inr x \<Rightarrow> Inr x)"

section \<open>Standard-library pieces\<close>

text \<open>\<open><[u8; n]>::try_from(slice)\<close>: succeeds on slices of exactly \<open>n\<close> bytes.\<close>

definition try_into_array :: "nat \<Rightarrow> 'a list \<Rightarrow> 'a list option" where
  "try_into_array n xs = (if length xs = n then Some xs else None)"

text \<open>
  \<open>slice::chunks(n)\<close>: consecutive pieces of \<open>n\<close> elements, the last one possibly shorter.
  Rust panics on \<open>n = 0\<close>; the only caller excludes it.
\<close>

function chunks :: "nat \<Rightarrow> 'a list \<Rightarrow> 'a list list" where
  "chunks n xs = (if n = 0 \<or> xs = [] then [] else take n xs # chunks n (drop n xs))"
  by pat_completeness auto
termination
  by (relation "measure (\<lambda>(n, xs). length xs)") auto

declare chunks.simps [simp del]

text \<open>\<open>Display\<close> of an unsigned integer.\<close>

fun dec_string :: "nat \<Rightarrow> string" where
  "dec_string n =
     (if n < 10 then [char_of (48 + n)]
      else dec_string (n div 10) @ [char_of (48 + n mod 10)])"

declare dec_string.simps [simp del]

text \<open>
  \<open>Debug\<close> of a string: quoted, with quotes, backslashes and the control characters escaped, the common ones by
  name and the others by number. (A string is its UTF-8 bytes here: the code points beyond ASCII that Rust counts as
  unprintable are left as they are. The text only appears in diagnostics.)
\<close>

definition hex_digit :: "nat \<Rightarrow> char" where
  "hex_digit n = (if n < 10 then char_of (48 + n) else char_of (87 + n))"

definition unicode_escape :: "nat \<Rightarrow> string" where
  "unicode_escape n =
     [CHR 0x5C, CHR ''u'', CHR ''{''] @ (if n < 16 then [] else [hex_digit (n div 16)]) @ [hex_digit (n mod 16), CHR ''}'']"

definition debug_char :: "char \<Rightarrow> string" where
  "debug_char c =
     (if c = CHR ''\"'' then [CHR 0x5C, CHR ''\"'']
      else if c = CHR 0x5C then [CHR 0x5C, CHR 0x5C]
      else if c = CHR 0x0A then [CHR 0x5C, CHR ''n'']
      else if c = CHR 0x0D then [CHR 0x5C, CHR ''r'']
      else if c = CHR 0x09 then [CHR 0x5C, CHR ''t'']
      else if c = CHR 0x00 then [CHR 0x5C, CHR ''0'']
      else if (of_char c :: nat) < 32 \<or> c = CHR 0x7F then unicode_escape (of_char c)
      else [c])"

definition debug_string :: "string \<Rightarrow> string" where
  "debug_string s = [CHR ''\"''] @ concat (map debug_char s) @ [CHR ''\"'']"

text \<open>A hex codec, as the demos use one.\<close>

record hex_codec =
  hex_encode :: "bytes \<Rightarrow> string"
  hex_decode :: "string \<Rightarrow> bytes sresult"

text \<open>\<open>elapsed().as_millis() as u64\<close>.\<close>

definition millis :: "nat \<Rightarrow> u64" where
  "millis ns = of_nat (ns div 1000000)"

section \<open>Rule collections\<close>

named_theorems frame_simps \<open>layout of the wire frames\<close>
named_theorems state_defs \<open>definitions of the endpoint-state operations\<close>
named_theorems inv_intros \<open>operations that keep the endpoint invariant\<close>

section \<open>Transition systems with an invariant\<close>

text \<open>
  The states a system can be in: the least set that holds the start states and is closed
  under steps.
\<close>

inductive reachable :: "('s \<Rightarrow> bool) \<Rightarrow> ('s \<Rightarrow> 's \<Rightarrow> bool) \<Rightarrow> 's \<Rightarrow> bool"
  for init :: "'s \<Rightarrow> bool" and step :: "'s \<Rightarrow> 's \<Rightarrow> bool" where
  start: "init s \<Longrightarrow> reachable init step s"
| move: "reachable init step s \<Longrightarrow> step s t \<Longrightarrow> reachable init step t"

locale invariant_system =
  fixes init :: "'s \<Rightarrow> bool"
    and step :: "'s \<Rightarrow> 's \<Rightarrow> bool"
    and inv :: "'s \<Rightarrow> bool"
  assumes inv_init: "init s \<Longrightarrow> inv s"
    and inv_step: "inv s \<Longrightarrow> step s t \<Longrightarrow> inv t"
begin

lemma inv_reachable: "reachable init step s \<Longrightarrow> inv s"
  by (induction rule: reachable.induct) (auto intro: inv_init inv_step)

lemma inv_rtranclp: "step\<^sup>*\<^sup>* s t \<Longrightarrow> inv s \<Longrightarrow> inv t"
  by (induction rule: rtranclp_induct) (auto intro: inv_step)

end

text \<open>
  A predicate no step falsifies (a latch): once it holds it holds in every later state.
\<close>

locale latched =
  fixes step :: "'s \<Rightarrow> 's \<Rightarrow> bool"
    and latch :: "'s \<Rightarrow> bool"
  assumes latch_step: "latch s \<Longrightarrow> step s t \<Longrightarrow> latch t"
begin

lemma latch_forever: "step\<^sup>*\<^sup>* s t \<Longrightarrow> latch s \<Longrightarrow> latch t"
  by (induction rule: rtranclp_induct) (auto intro: latch_step)

end

section \<open>Encoders and their decoders\<close>

locale codec =
  fixes encode :: "'a \<Rightarrow> 'b"
    and decode :: "'b \<Rightarrow> 'a option"
    and valid :: "'a \<Rightarrow> bool"
  assumes decode_encode: "valid x \<Longrightarrow> decode (encode x) = Some x"
begin

lemma encode_inj: "valid x \<Longrightarrow> valid y \<Longrightarrow> encode x = encode y \<Longrightarrow> x = y"
  using decode_encode by (metis option.inject)

end

section \<open>Asynchronous results and datagram sources\<close>

text \<open>
  The outcome of an async call against the inputs its imports have delivered so far:
  either it is still waiting for an import, or it has returned.
\<close>

datatype 'a async = Parked | Returned 'a

text \<open>
  The contract of a wire's receive side: \<open>backlog\<close> is what has arrived and was not yet
  delivered. A receive delivers the oldest item, and it waits or fails only when nothing
  is left to deliver.
\<close>

primrec recv_many :: "('s \<Rightarrow> 'd sresult async \<times> 's) \<Rightarrow> nat \<Rightarrow> 's \<Rightarrow> 'd list \<times> 's" where
  "recv_many recv 0 s = ([], s)"
| "recv_many recv (Suc n) s =
     (case recv s of
        (Returned (Inr d), s') \<Rightarrow> (let (ds, t) = recv_many recv n s' in (d # ds, t))
      | (_, s') \<Rightarrow> ([], s'))"

locale datagram_source =
  fixes recv :: "'s \<Rightarrow> 'd sresult async \<times> 's"
    and backlog :: "'s \<Rightarrow> 'd list"
    and ok :: "'s \<Rightarrow> bool"
  assumes recv_item: "ok s \<Longrightarrow> recv s = (Returned (Inr d), s') \<Longrightarrow> backlog s = d # backlog s' \<and> ok s'"
    and recv_parked: "ok s \<Longrightarrow> recv s = (Parked, s') \<Longrightarrow> backlog s = []"
    and recv_failed: "ok s \<Longrightarrow> recv s = (Returned (Inl e), s') \<Longrightarrow> backlog s = []"
begin

lemma recv_many_takes: "ok s \<Longrightarrow> fst (recv_many recv n s) = take n (backlog s)"
proof (induction n arbitrary: s)
  case (Suc n)
  obtain r s' where r: "recv s = (r, s')" by force
  show ?case
  proof (cases r)
    case Parked
    with r Suc.prems show ?thesis by (simp add: recv_parked)
  next
    case (Returned x)
    show ?thesis
    proof (cases x)
      case (Inl e)
      with r Returned Suc.prems show ?thesis by (simp add: recv_failed)
    next
      case (Inr d)
      with r Returned Suc show ?thesis
        using recv_item [of s d s'] by (simp add: split_beta)
    qed
  qed
qed simp

end

section \<open>Directories\<close>

text \<open>
  The contract of a table that assigns a value to a key on first use: \<open>ok n\<close> says that the
  table is sound and has room for \<open>n\<close> more keys. An assignment is never changed, and no two
  keys share a value.
\<close>

primrec alloc_all :: "('k \<Rightarrow> 's \<Rightarrow> 'v \<times> 's) \<Rightarrow> 'k list \<Rightarrow> 's \<Rightarrow> 'v list \<times> 's" where
  "alloc_all alloc [] s = ([], s)"
| "alloc_all alloc (k # ks) s =
     (case alloc k s of (v, s1) \<Rightarrow> (case alloc_all alloc ks s1 of (vs, s2) \<Rightarrow> (v # vs, s2)))"

locale directory =
  fixes alloc :: "'k \<Rightarrow> 's \<Rightarrow> 'v \<times> 's"
    and lookup :: "'s \<Rightarrow> 'k \<Rightarrow> 'v option"
    and ok :: "nat \<Rightarrow> 's \<Rightarrow> bool"
  assumes alloc_lookup: "alloc k s = (v, s') \<Longrightarrow> lookup s' k = Some v"
    and alloc_keeps: "alloc k s = (v, s') \<Longrightarrow> lookup s k' = Some v' \<Longrightarrow> lookup s' k' = Some v'"
    and alloc_ok: "ok (Suc n) s \<Longrightarrow> alloc k s = (v, s') \<Longrightarrow> ok n s'"
    and lookup_inj: "ok n s \<Longrightarrow> lookup s k = Some v \<Longrightarrow> lookup s k' = Some v \<Longrightarrow> k = k'"
begin

lemma alloc_all_keeps:
  "alloc_all alloc ks s = (vs, s') \<Longrightarrow> lookup s k = Some v \<Longrightarrow> lookup s' k = Some v"
  by (induction ks arbitrary: s vs) (auto split: prod.splits dest: alloc_keeps)

lemma alloc_all_lookup: "alloc_all alloc ks s = (vs, s') \<Longrightarrow> map (lookup s') ks = map Some vs"
proof (induction ks arbitrary: s vs)
  case (Cons k ks)
  then obtain v s1 vs1 where a: "alloc k s = (v, s1)" and b: "alloc_all alloc ks s1 = (vs1, s')"
    and vs: "vs = v # vs1" by (auto split: prod.splits)
  have "lookup s' k = Some v" using alloc_all_keeps [OF b alloc_lookup [OF a]] .
  with Cons.IH [OF b] vs show ?case by simp
qed simp

lemma alloc_all_ok: "ok (length ks + n) s \<Longrightarrow> alloc_all alloc ks s = (vs, s') \<Longrightarrow> ok n s'"
  by (induction ks arbitrary: s vs) (auto split: prod.splits dest: alloc_ok)

text \<open>Two positions of a sequence of requests get the same value exactly when they ask for the
  same key.\<close>

lemma alloc_all_faithful:
  assumes "ok (length ks) s" and "alloc_all alloc ks s = (vs, s')" and "i < length ks" and "j < length ks"
  shows "vs ! i = vs ! j \<longleftrightarrow> ks ! i = ks ! j"
proof -
  have len: "length vs = length ks" using alloc_all_lookup [OF assms(2)] by (metis length_map)
  have "lookup s' (ks ! i) = Some (vs ! i)" "lookup s' (ks ! j) = Some (vs ! j)"
    using alloc_all_lookup [OF assms(2)] assms(3,4) len by (metis nth_map)+
  moreover have "ok 0 s'" using alloc_all_ok [of ks 0 s vs s'] assms(1,2) by simp
  ultimately show ?thesis using lookup_inj by (metis option.inject)
qed

end

section \<open>Generic lemmas\<close>

lemma try_into_array_Some [simp]:
  "try_into_array n xs = Some ys \<longleftrightarrow> ys = xs \<and> length xs = n"
  by (auto simp: try_into_array_def)

lemma try_into_array_None [simp]:
  "try_into_array n xs = None \<longleftrightarrow> length xs \<noteq> n"
  by (simp add: try_into_array_def)

lemma map_err_Inr [simp]: "map_err f r = Inr x \<longleftrightarrow> r = Inr x"
  by (auto simp: map_err_def split: sum.splits)

lemma map_err_simps [simp]: "map_err f (Inl e) = Inl (f e)" "map_err f (Inr x) = Inr x"
  by (simp_all add: map_err_def)

text \<open>Successful runs of sequenced computations that may diverge (\<open>None\<close>) or fail (\<open>Inl\<close>).\<close>

lemma bind_pair_Some:
  "Option.bind m (\<lambda>(x, y). f x y) = Some r \<longleftrightarrow> (\<exists>x y. m = Some (x, y) \<and> f x y = Some r)"
  by (cases m) auto

lemma bind_triple_Some:
  "Option.bind m (\<lambda>(x, y, z). f x y z) = Some r \<longleftrightarrow>
     (\<exists>x y z. m = Some (x, y, z) \<and> f x y z = Some r)"
  by (cases m) auto

lemma bind_sum_Some:
  "Option.bind m (\<lambda>r. case r of Inl p \<Rightarrow> Some (Inl p) | Inr x \<Rightarrow> f x) = Some (Inr y) \<longleftrightarrow>
     (\<exists>x. m = Some (Inr x) \<and> f x = Some (Inr y))"
  by (cases m) (auto split: sum.splits)

lemmas bind_Some = bind_sum_Some bind_pair_Some bind_triple_Some bind_eq_Some_conv

lemma chunks_Nil [simp]: "chunks n [] = []"
  by (subst chunks.simps) simp

lemma chunks_step: "0 < n \<Longrightarrow> xs \<noteq> [] \<Longrightarrow> chunks n xs = take n xs # chunks n (drop n xs)"
  by (subst chunks.simps) simp

lemma concat_chunks: "0 < n \<Longrightarrow> concat (chunks n xs) = xs"
proof (induction n xs rule: chunks.induct)
  case (1 n xs)
  then show ?case by (cases "xs = []") (simp_all add: chunks_step)
qed

lemma chunks_bound: "ys \<in> set (chunks n xs) \<Longrightarrow> ys \<noteq> [] \<and> length ys \<le> n"
proof (induction n xs rule: chunks.induct)
  case (1 n xs)
  show ?case
  proof (cases "n = 0 \<or> xs = []")
    case True
    with "1.prems" show ?thesis by (auto simp: chunks.simps [of n xs])
  next
    case False
    with 1 show ?thesis by (auto simp: chunks_step)
  qed
qed

lemma length_chunks: "0 < n \<Longrightarrow> length (chunks n xs) = (length xs + n - 1) div n"
proof (induction n xs rule: chunks.induct)
  case (1 n xs)
  show ?case
  proof (cases "xs = []")
    case True
    with "1.prems" show ?thesis by simp
  next
    case False
    then have IH: "length (chunks n (drop n xs)) = (length xs - n + n - 1) div n"
      using 1 by simp
    show ?thesis
    proof (cases "length xs \<le> n")
      case True
      have "(length xs + n - 1) div n = 1"
        by (rule div_nat_eqI)
          (use True False "1.prems" in \<open>auto simp: Suc_le_eq neq_Nil_conv\<close>)
      with True False "1.prems" show ?thesis by (simp add: chunks_step)
    next
      case long: False
      then have "length xs + n - 1 = length xs - 1 + n" by simp
      then have "(length xs + n - 1) div n = (length xs - 1) div n + 1"
        using "1.prems" by (simp only: div_add_self2)
      moreover have "length xs - n + n - 1 = length xs - 1"
        using long by simp
      ultimately show ?thesis using IH False "1.prems" by (simp add: chunks_step)
    qed
  qed
qed

text \<open>All chunks but the last are full.\<close>

lemma chunks_full: "ys \<in> set (butlast (chunks n xs)) \<Longrightarrow> length ys = n"
proof (induction n xs rule: chunks.induct)
  case (1 n xs)
  show ?case
  proof (cases "n = 0 \<or> xs = []")
    case True
    with "1.prems" show ?thesis by (auto simp: chunks.simps [of n xs])
  next
    case False
    show ?thesis
    proof (cases "drop n xs = []")
      case True
      with "1.prems" False show ?thesis by (simp add: chunks_step)
    next
      case rest: False
      with False "1.prems"
      have "ys = take n xs \<or> ys \<in> set (butlast (chunks n (drop n xs)))"
        by (auto simp: chunks_step split: if_splits)
      with False rest "1.IH" show ?thesis by auto
    qed
  qed
qed

lemma byte_char_inverse [simp]: "char_byte (byte_char b) = b"
proof -
  have "unat b < 256" using unsigned_less [of b, where 'a = nat] by simp
  then show ?thesis by (simp add: byte_char_def char_byte_def)
qed

lemma char_byte_inverse [simp]: "byte_char (char_byte c) = c"
  by (simp add: byte_char_def char_byte_def unat_of_nat)

end
