(* ===== verification/Relay_Frames.thy ===== *)
theory Relay_Frames
  imports Prelude
begin

text \<open>
  Model of \<open>core/src/relay_frames.rs\<close>: the frame-type tags, the QUIC-varint splitter, the
  encoders of the client's frames and the decoders of the relay's frames, with Rust's lossy
  UTF-8 conversion that the denial reason falls back to. The postcard serializer is not
  part of this repository: it is an argument of the definitions that call it, and
  \<open>postcard_layout\<close> states the documented layout the code relies on.
\<close>

section \<open>Definitions\<close>

subsection \<open>Tags and constants\<close>

abbreviation SERVER_CHALLENGE :: u64 where "SERVER_CHALLENGE \<equiv> 0"
abbreviation CLIENT_AUTH :: u64 where "CLIENT_AUTH \<equiv> 1"
abbreviation SERVER_CONFIRMS_AUTH :: u64 where "SERVER_CONFIRMS_AUTH \<equiv> 2"
abbreviation SERVER_DENIES_AUTH :: u64 where "SERVER_DENIES_AUTH \<equiv> 3"
abbreviation CLIENT_TO_RELAY_DATAGRAM :: u64 where "CLIENT_TO_RELAY_DATAGRAM \<equiv> 4"
abbreviation CLIENT_TO_RELAY_DATAGRAM_BATCH :: u64 where "CLIENT_TO_RELAY_DATAGRAM_BATCH \<equiv> 5"
abbreviation RELAY_TO_CLIENT_DATAGRAM :: u64 where "RELAY_TO_CLIENT_DATAGRAM \<equiv> 6"
abbreviation RELAY_TO_CLIENT_DATAGRAM_BATCH :: u64 where "RELAY_TO_CLIENT_DATAGRAM_BATCH \<equiv> 7"
abbreviation ENDPOINT_GONE :: u64 where "ENDPOINT_GONE \<equiv> 8"
abbreviation PING :: u64 where "PING \<equiv> 9"
abbreviation PONG :: u64 where "PONG \<equiv> 10"
abbreviation HEALTH :: u64 where "HEALTH \<equiv> 11"
abbreviation RESTARTING :: u64 where "RESTARTING \<equiv> 12"
abbreviation STATUS :: u64 where "STATUS \<equiv> 13"

definition CHALLENGE_DOMAIN :: string where
  "CHALLENGE_DOMAIN = ''iroh-relay handshake v1 challenge signature''"

definition SUBPROTOCOLS :: "string list" where
  "SUBPROTOCOLS = [''iroh-relay-v2'', ''iroh-relay-v1'']"

definition RELAY_PATH :: string where
  "RELAY_PATH = ''/relay''"

subsection \<open>Splitting the frame type\<close>

definition split_tag :: "bytes \<Rightarrow> (u64 \<times> bytes) option" where
  "split_tag frame =
     (case frame of [] \<Rightarrow> None
      | first # _ \<Rightarrow>
          (let len = push_bit (unat (drop_bit 6 first)) (1::nat)
           in if length frame < len then None
              else Some (fold (\<lambda>byte value. push_bit 8 value OR ucast byte)
                           (take (len - 1) (drop 1 frame)) (ucast (first AND 0x3f)),
                         drop len frame)))"

subsection \<open>Datagrams\<close>

record datagram =
  source :: endpoint_id
  payload :: bytes

definition encode_client_datagram :: "endpoint_id \<Rightarrow> bytes \<Rightarrow> bytes" where
  "encode_client_datagram dst data =
     [ucast CLIENT_TO_RELAY_DATAGRAM] @ dst @ [0] @ data"

text \<open>The handshake payload \<open>ClientAuth\<close>.\<close>

record client_auth =
  public_key :: endpoint_id
  signature :: bytes

definition encode_client_auth ::
  "(client_auth \<Rightarrow> bytes \<Rightarrow> bytes) \<Rightarrow> endpoint_id \<Rightarrow> bytes \<Rightarrow> bytes" where
  "encode_client_auth to_extend pk sg =
     to_extend \<lparr>public_key = pk, signature = sg\<rparr> [ucast CLIENT_AUTH]"

definition encode_pong :: "bytes \<Rightarrow> bytes" where
  "encode_pong data = [ucast PONG] @ data"

text \<open>\<open>u16::from_be_bytes\<close>.\<close>

definition u16_from_be :: "u8 \<Rightarrow> u8 \<Rightarrow> u16" where
  "u16_from_be hi lo = push_bit 8 (ucast hi) OR ucast lo"

text \<open>
  \<open>rest.get(1..3)\<close> fails on fewer than three bytes, \<open>rest.get(1..)\<close> on an empty slice; the
  unguarded slices \<open>&payload[32..]\<close> and \<open>&rest[3..]\<close> are in range where they are taken.
\<close>

definition decode_relay_datagrams :: "bytes \<Rightarrow> bool \<Rightarrow> datagram list option" where
  "decode_relay_datagrams pl batch =
     (if length pl < 32 then None
      else
        let src = take 32 pl; rest = drop 32 pl
        in if batch then
             (if length rest < 3 then None
              else
                let segment_size = unat (u16_from_be (rest ! 1) (rest ! 2))
                in if segment_size = 0 then None
                   else Some (map (\<lambda>chunk. \<lparr>source = src, payload = chunk\<rparr>)
                                  (chunks segment_size (drop 3 rest))))
           else
             (if length rest < 1 then None
              else Some [\<lparr>source = src, payload = drop 1 rest\<rparr>]))"

subsection \<open>Lossy UTF-8\<close>

text \<open>
  One step of the standard library's \<open>Utf8Chunks\<close>: is the input's head a well-formed
  scalar, and how many bytes does it take (or, when ill-formed, how many bytes the
  replacement character stands for). Reads past the end give 0, which continues nothing.
\<close>

definition safe_get :: "bytes \<Rightarrow> nat \<Rightarrow> u8" where
  "safe_get bs i = (if i < length bs then bs ! i else 0)"

definition is_cont :: "u8 \<Rightarrow> bool" where
  "is_cont b \<longleftrightarrow> 0x80 \<le> b \<and> b \<le> 0xBF"

text \<open>Lead bytes of two-byte scalars, and the lead/second pairs of longer ones.\<close>

definition lead2 :: "u8 \<Rightarrow> bool" where
  "lead2 b \<longleftrightarrow> 0xC2 \<le> b \<and> b \<le> 0xDF"

definition lead3 :: "u8 \<Rightarrow> bool" where
  "lead3 b \<longleftrightarrow> 0xE0 \<le> b \<and> b \<le> 0xEF"

definition lead4 :: "u8 \<Rightarrow> bool" where
  "lead4 b \<longleftrightarrow> 0xF0 \<le> b \<and> b \<le> 0xF4"

definition second3 :: "u8 \<Rightarrow> u8 \<Rightarrow> bool" where
  "second3 b b1 \<longleftrightarrow>
     (b = 0xE0 \<and> 0xA0 \<le> b1 \<and> b1 \<le> 0xBF)
     \<or> (0xE1 \<le> b \<and> b \<le> 0xEC \<and> is_cont b1)
     \<or> (b = 0xED \<and> 0x80 \<le> b1 \<and> b1 \<le> 0x9F)
     \<or> (0xEE \<le> b \<and> b \<le> 0xEF \<and> is_cont b1)"

definition second4 :: "u8 \<Rightarrow> u8 \<Rightarrow> bool" where
  "second4 b b1 \<longleftrightarrow>
     (b = 0xF0 \<and> 0x90 \<le> b1 \<and> b1 \<le> 0xBF)
     \<or> (0xF1 \<le> b \<and> b \<le> 0xF3 \<and> is_cont b1)
     \<or> (b = 0xF4 \<and> 0x80 \<le> b1 \<and> b1 \<le> 0x8F)"

definition utf8_seq :: "bytes \<Rightarrow> bool \<times> nat" where
  "utf8_seq bs =
     (let b = safe_get bs 0; b1 = safe_get bs 1; b2 = safe_get bs 2; b3 = safe_get bs 3
      in if b < 0x80 then (True, 1)
         else if lead2 b then (if is_cont b1 then (True, 2) else (False, 1))
         else if lead3 b then
           (if second3 b b1 then (if is_cont b2 then (True, 3) else (False, 2))
            else (False, 1))
         else if lead4 b then
           (if second4 b b1
            then (if is_cont b2 then (if is_cont b3 then (True, 4) else (False, 3))
                  else (False, 2))
            else (False, 1))
         else (False, 1))"

lemma utf8_seq_pos: "0 < snd (utf8_seq bs)"
  by (simp add: utf8_seq_def Let_def)

function utf8_lossy :: "bytes \<Rightarrow> bytes" where
  "utf8_lossy bs =
     (if bs = [] then []
      else (if fst (utf8_seq bs) then take (snd (utf8_seq bs)) bs else [0xEF, 0xBF, 0xBD])
           @ utf8_lossy (drop (snd (utf8_seq bs)) bs))"
  by pat_completeness auto
termination
  by (relation "measure length") (auto simp: utf8_seq_pos)

declare utf8_lossy.simps [simp del]

text \<open>\<open>String::from_utf8_lossy\<close>, as a string.\<close>

definition from_utf8_lossy :: "bytes \<Rightarrow> string" where
  "from_utf8_lossy bs = map byte_char (utf8_lossy bs)"

text \<open>\<open>std::str::from_utf8\<close> accepts exactly these byte sequences.\<close>

function utf8_valid :: "bytes \<Rightarrow> bool" where
  "utf8_valid bs =
     (if bs = [] then True
      else if fst (utf8_seq bs) then utf8_valid (drop (snd (utf8_seq bs)) bs)
      else False)"
  by pat_completeness auto
termination
  by (relation "measure length") (auto simp: utf8_seq_pos)

declare utf8_valid.simps [simp del]

definition decode_denial_reason :: "(bytes \<Rightarrow> string option) \<Rightarrow> bytes \<Rightarrow> string" where
  "decode_denial_reason from_bytes pl =
     (case from_bytes pl of Some s \<Rightarrow> s | None \<Rightarrow> from_utf8_lossy pl)"

subsection \<open>Specifications\<close>

text \<open>
  The layout postcard documents for a 32-byte array followed by a byte sequence shorter
  than 128: the array raw, a one-byte varint length, the bytes raw, appended to the buffer
  that \<open>to_extend\<close> is given.
\<close>

definition postcard_layout :: "(client_auth \<Rightarrow> bytes \<Rightarrow> bytes) \<Rightarrow> bool" where
  "postcard_layout to_extend \<longleftrightarrow>
     (\<forall>ca out. length (public_key ca) = 32 \<and> length (signature ca) < 128 \<longrightarrow>
        to_extend ca out = out @ public_key ca @ [of_nat (length (signature ca))] @ signature ca)"

text \<open>Big-endian value of a byte sequence, and RFC 9000's variable-length integers.\<close>

definition be_value :: "bytes \<Rightarrow> nat" where
  "be_value bs = foldl (\<lambda>v b. v * 256 + unat b) 0 bs"

primrec be_bytes :: "nat \<Rightarrow> nat \<Rightarrow> bytes" where
  "be_bytes 0 v = []"
| "be_bytes (Suc n) v = be_bytes n (v div 256) @ [of_nat (v mod 256)]"

definition varint_class :: "nat \<Rightarrow> nat" where
  "varint_class v = (if v < 2 ^ 6 then 0 else if v < 2 ^ 14 then 1 else if v < 2 ^ 30 then 2 else 3)"

text \<open>The frame a relay reads from this client, by the layouts \<open>iroh-relay\<close> specifies.\<close>

datatype client_frame =
    AuthFrame endpoint_id bytes
  | DatagramFrame endpoint_id u8 bytes
  | PongFrame bytes

definition relay_reads :: "bytes \<Rightarrow> client_frame option" where
  "relay_reads frame =
     (case split_tag frame of None \<Rightarrow> None
      | Some (t, body) \<Rightarrow>
          if t = CLIENT_AUTH then
            (if length body < 33 \<or> length body \<noteq> 33 + unat (body ! 32) then None
             else Some (AuthFrame (take 32 body) (drop 33 body)))
          else if t = CLIENT_TO_RELAY_DATAGRAM then
            (if length body < 33 then None
             else Some (DatagramFrame (take 32 body) (body ! 32) (drop 33 body)))
          else if t = PONG then
            (if length body = 8 then Some (PongFrame body) else None)
          else None)"

definition quic_varint :: "nat \<Rightarrow> bytes" where
  "quic_varint v =
     (let c = varint_class v; n = 2 ^ c
      in of_nat (c * 64 + v div 256 ^ (n - 1)) # be_bytes (n - 1) (v mod 256 ^ (n - 1)))"

section \<open>Lemmas\<close>

subsection \<open>The frame-type varint\<close>

lemma unat_u8_less [simp]: "unat (b :: u8) < 256"
  using unsigned_less [of b, where 'a = nat] by simp

lemma be_value_Nil [simp]: "be_value [] = 0"
  by (simp add: be_value_def)

lemma be_value_snoc [simp]: "be_value (bs @ [b]) = be_value bs * 256 + unat b"
  by (simp add: be_value_def)

lemma be_value_bound: "be_value bs < 256 ^ length bs"
proof (induction bs rule: rev_induct)
  case (snoc b bs)
  have "be_value bs * 256 + unat b < (be_value bs + 1) * 256" by simp
  also have "\<dots> \<le> 256 ^ length bs * 256" using snoc.IH by (intro mult_le_mono1) simp
  finally show ?case by simp
qed simp

lemma length_be_bytes [simp]: "length (be_bytes n v) = n"
  by (induction n arbitrary: v) simp_all

lemma be_value_be_bytes: "v < 256 ^ n \<Longrightarrow> be_value (be_bytes n v) = v"
proof (induction n arbitrary: v)
  case (Suc n)
  then have "v div 256 < 256 ^ n" by (simp add: less_mult_imp_div_less mult.commute)
  with Suc.IH show ?case by (simp add: unat_of_nat)
qed simp

lemma unat_drop_bit_6: "unat (drop_bit 6 (b :: u8)) = unat b div 64"
  by (simp only: unat_drop_bit_eq) (simp add: drop_bit_eq_div)

lemma unat_and_3f: "unat ((b :: u8) AND 0x3f) = unat b mod 64"
proof -
  have "b AND 0x3f = take_bit 6 b" by (simp add: take_bit_eq_mask mask_eq_exp_minus_1)
  then have "unat (b AND 0x3f) = take_bit 6 (unat b)" by (simp only: unsigned_take_bit_eq)
  then show ?thesis by (simp add: take_bit_eq_mod)
qed

lemma unat_shift_or:
  assumes "unat (v :: u64) < 2 ^ 56"
  shows "unat (push_bit 8 v OR ucast (b :: u8)) = unat v * 256 + unat b"
proof -
  have "unat (ucast b :: u64) = unat b" 
    by (simp add: unsigned_ucast_eq take_bit_eq_mod less_trans [OF unat_u8_less])
  moreover have "unat (push_bit 8 v) = unat v * 256"
    using assms by (simp add: push_bit_eq_mult unat_word_ariths)
  moreover have "unat (push_bit 8 v OR ucast b) = unat (push_bit 8 v) + unat (ucast b :: u64)"
  proof -
    have "push_bit 8 v AND (ucast b :: u64) = 0"
      by (rule bit_eqI) (auto simp: bit_simps dest: bit_imp_le_length)
    then have "push_bit 8 v OR ucast b = push_bit 8 v + (ucast b :: u64)"
      by (rule disjunctive_add_eq_or [symmetric])
    moreover have "unat v * 256 + unat b < 2 ^ 64"
    proof -
      have "unat v * 256 + unat b < (unat v + 1) * 256" by simp
      also have "\<dots> \<le> 2 ^ 64" using assms by simp
      finally show ?thesis .
    qed
    ultimately show ?thesis
      using \<open>unat (push_bit 8 v) = unat v * 256\<close> \<open>unat (ucast b :: u64) = unat b\<close>
      by (simp add: unat_word_ariths)
  qed
  ultimately show ?thesis by simp
qed

lemma fold_shift_or:
  assumes "unat (v :: u64) < 2 ^ 6" and "length bs \<le> 7"
  shows "unat (fold (\<lambda>byte value. push_bit 8 value OR ucast byte) bs v)
           = unat v * 256 ^ length bs + be_value bs"
  using assms(2)
proof (induction bs rule: rev_induct)
  case (snoc b bs)
  let ?f = "\<lambda>(byte :: u8) value. push_bit 8 value OR (ucast byte :: u64)"
  let ?w = "fold ?f bs v"
  have n: "length bs \<le> 6" and IH: "unat ?w = unat v * 256 ^ length bs + be_value bs"
    using snoc by simp_all
  have "unat ?w < (unat v + 1) * 256 ^ length bs"
    using be_value_bound [of bs] by (simp add: IH)
  also have "\<dots> \<le> 2 ^ 6 * 256 ^ length bs" using assms(1) by (intro mult_le_mono1) simp
  also have "\<dots> \<le> 2 ^ 6 * 256 ^ 6" using n by (intro mult_le_mono2 power_increasing) simp_all
  also have "\<dots> \<le> 2 ^ 56" by simp
  finally have "unat (?f b ?w) = unat ?w * 256 + unat b" by (rule unat_shift_or)
  then show ?case by (simp add: IH algebra_simps)
qed simp

lemma unat_ucast_and_3f: "unat (ucast ((b :: u8) AND 0x3f) :: u64) = unat b mod 64"
  by (simp only: unsigned_ucast_eq unat_and_3f)
     (simp add: take_bit_eq_mod less_trans [OF pos_mod_bound] mod_less)

text \<open>The length class: the top two bits of the first byte.\<close>

abbreviation tag_len :: "u8 \<Rightarrow> nat" where
  "tag_len first \<equiv> 2 ^ (unat first div 64)"

lemma tag_len_cases: "tag_len b \<in> {1, 2, 4, 8}"
proof -
  have "unat b div 64 < 4" using unat_u8_less [of b] by (simp add: less_mult_imp_div_less)
  then have "unat b div 64 \<in> {0, 1, 2, 3}" by auto
  then show ?thesis by auto
qed

text \<open>
  The loop over the bytes of the frame type computes the big-endian value of the varint,
  without losing bits.
\<close>

lemma split_tag_arith:
  "split_tag (first # rest) =
     (if Suc (length rest) < tag_len first then None
      else Some (of_nat (unat first mod 64 * 256 ^ (tag_len first - 1)
                         + be_value (take (tag_len first - 1) rest)),
                 drop (tag_len first - 1) rest))"
proof (cases "Suc (length rest) < tag_len first")
  case True
  then show ?thesis by (simp add: split_tag_def unat_drop_bit_6)
next
  case False
  let ?bs = "take (tag_len first - 1) rest"
  let ?v = "fold (\<lambda>byte value. push_bit 8 value OR ucast byte) ?bs (ucast (first AND 0x3f)) :: u64"
  have len: "length ?bs = tag_len first - 1" using False by auto
  have "unat (ucast (first AND 0x3f) :: u64) < 2 ^ 6" by (simp add: unat_ucast_and_3f)
  moreover have "length ?bs \<le> 7" using tag_len_cases [of first] by (auto simp: len)
  ultimately have "unat ?v = unat first mod 64 * 256 ^ (tag_len first - 1) + be_value ?bs"
    using len by (simp only: fold_shift_or unat_ucast_and_3f)
  moreover have "?v = of_nat (unat ?v)" by simp
  ultimately have "?v = of_nat (unat first mod 64 * 256 ^ (tag_len first - 1) + be_value ?bs)"
    by simp
  moreover have "drop (tag_len first) (first # rest) = drop (tag_len first - 1) rest"
    by (cases "tag_len first") simp_all
  ultimately show ?thesis
    using False by (simp add: split_tag_def unat_drop_bit_6 Let_def)
qed

lemma split_tag_Nil [simp]: "split_tag [] = None"
  by (simp add: split_tag_def)

lemma split_tag_small [frame_simps]:
  "unat t < 64 \<Longrightarrow> split_tag (t # rest) = Some (ucast t, rest)"
  by (simp add: split_tag_arith)

lemma quic_varint_parts:
  assumes "v < 2 ^ 62"
  defines "c \<equiv> varint_class v" and "n \<equiv> 2 ^ varint_class v - (1::nat)"
  shows "c < 4" and "v div 256 ^ n < 64"
  using assms by (auto simp: varint_class_def div_less_iff_less_mult)

lemma u8_of_nat_class:
  assumes "c < 4" and "q < 64"
  shows "unat (of_nat (c * 64 + q) :: u8) div 64 = c"
    and "unat (of_nat (c * 64 + q) :: u8) mod 64 = q"
proof -
  have "c * 64 + q < 256" using assms by simp
  then have "unat (of_nat (c * 64 + q) :: u8) = c * 64 + q" by (simp only: unat_of_nat) simp
  with assms show "unat (of_nat (c * 64 + q) :: u8) div 64 = c"
    and "unat (of_nat (c * 64 + q) :: u8) mod 64 = q" by simp_all
qed

text \<open>C38. The frame-type splitter inverts RFC 9000's varint encoding on its whole range, for
  all four length classes, and returns exactly the bytes after it.\<close>

theorem split_tag_varint:
  assumes "v < 2 ^ 62"
  shows "split_tag (quic_varint v @ rest) = Some (of_nat v, rest)"
proof -
  define c where "c = varint_class v"
  define n where "n = 2 ^ c - (1::nat)"
  have c: "c < 4" and q: "v div 256 ^ n < 64"
    using quic_varint_parts [OF assms] by (simp_all add: c_def n_def)
  let ?first = "of_nat (c * 64 + v div 256 ^ n) :: u8"
  have enc: "quic_varint v = ?first # be_bytes n (v mod 256 ^ n)"
    by (simp add: quic_varint_def c_def n_def Let_def)
  have "tag_len ?first - 1 = n" 
    by (simp only: u8_of_nat_class(1) [OF c q]) (simp add: n_def)
  moreover have "\<not> Suc (length (be_bytes n (v mod 256 ^ n) @ rest)) < tag_len ?first"
    by (simp only: u8_of_nat_class(1) [OF c q]) (simp add: n_def)
  moreover have "unat ?first mod 64 * 256 ^ n + be_value (be_bytes n (v mod 256 ^ n)) = v"
    by (simp only: u8_of_nat_class(2) [OF c q]) (simp add: be_value_be_bytes mult.commute)
  ultimately show ?thesis
    by (simp only: enc append_Cons split_tag_arith) simp
qed

theorem split_tag_varint_witness:
  "split_tag (quic_varint 15293 @ [7]) = Some (15293, [7])
   \<and> quic_varint 15293 = [0x7b, 0xbd]"
proof
  show "split_tag (quic_varint 15293 @ [7]) = Some (15293, [7])"
    using split_tag_varint [of 15293 "[7]"] by simp
  show "quic_varint 15293 = [0x7b, 0xbd]"
    by (simp add: quic_varint_def varint_class_def)
qed

subsection \<open>Frames the client sends\<close>

lemma nth_at_length: "length xs = n \<Longrightarrow> (xs @ y # ys) ! n = y"
  by auto

lemma relay_reads_datagram [frame_simps]:
  "length dst = 32 \<Longrightarrow>
     relay_reads (encode_client_datagram dst data) = Some (DatagramFrame dst 0 data)"
  by (simp add: relay_reads_def encode_client_datagram_def split_tag_small nth_at_length)

lemma relay_reads_pong [frame_simps]:
  "length data = 8 \<Longrightarrow> relay_reads (encode_pong data) = Some (PongFrame data)"
  by (simp add: relay_reads_def encode_pong_def split_tag_small)

lemma relay_reads_auth [frame_simps]:
  assumes "postcard_layout to_extend" and "length pk = 32" and "length sg = 64"
  shows "relay_reads (encode_client_auth to_extend pk sg) = Some (AuthFrame pk sg)"
  using assms
  by (simp add: relay_reads_def encode_client_auth_def postcard_layout_def split_tag_small
      nth_at_length)

definition as_datagram :: "client_frame option \<Rightarrow> (endpoint_id \<times> bytes) option" where
  "as_datagram r = (case r of Some (DatagramFrame dst ecn data) \<Rightarrow> Some (dst, data) | _ \<Rightarrow> None)"

definition as_pong :: "client_frame option \<Rightarrow> bytes option" where
  "as_pong r = (case r of Some (PongFrame data) \<Rightarrow> Some data | _ \<Rightarrow> None)"

interpretation dg_codec: codec
  "\<lambda>(dst, data). encode_client_datagram dst data"
  "\<lambda>frame. as_datagram (relay_reads frame)"
  "\<lambda>(dst, data). length dst = 32"
  by unfold_locales (auto simp: as_datagram_def frame_simps)

interpretation pong_codec: codec encode_pong "\<lambda>frame. as_pong (relay_reads frame)" "\<lambda>d. length d = 8"
  by unfold_locales (auto simp: as_pong_def frame_simps)

text \<open>C39. A datagram frame determines the addressed endpoint and the payload: the relay reads
  back exactly what was sent, and two frames are equal only for the same destination and
  payload.\<close>

theorem client_datagram_roundtrip:
  assumes "length dst = 32" and "length dst' = 32"
  shows "relay_reads (encode_client_datagram dst data) = Some (DatagramFrame dst 0 data) \<and>
         (encode_client_datagram dst data = encode_client_datagram dst' data' \<longleftrightarrow>
            dst = dst' \<and> data = data')"
  using assms dg_codec.encode_inj [of "(dst, data)" "(dst', data')"]
  by (auto simp: frame_simps)

theorem client_datagram_roundtrip_witness:
  "relay_reads (encode_client_datagram (replicate 32 7) [1, 2]) =
     Some (DatagramFrame (replicate 32 7) 0 [1, 2])"
  using client_datagram_roundtrip [of "replicate 32 7" "replicate 32 7" "[1, 2]" "[1, 2]"]
  by simp

subsection \<open>Frames the client receives\<close>

lemma u16_from_be_value: "unat (u16_from_be hi lo) = unat hi * 256 + unat lo"
proof -
  have "unat (ucast lo :: u16) = unat lo"
    by (simp add: unsigned_ucast_eq take_bit_eq_mod less_trans [OF unat_u8_less])
  moreover have "unat (push_bit 8 (ucast hi :: u16)) = unat hi * 256"
    by (simp add: push_bit_eq_mult unat_word_ariths unsigned_ucast_eq take_bit_eq_mod
        less_trans [OF unat_u8_less])
  moreover have "push_bit 8 (ucast hi :: u16) AND ucast lo = 0"
    by (rule bit_eqI) (auto simp: bit_simps dest: bit_imp_le_length)
  then have "u16_from_be hi lo = push_bit 8 (ucast hi) + ucast lo"
    unfolding u16_from_be_def by (rule disjunctive_add_eq_or [symmetric])
  moreover have "unat hi * 256 + unat lo < 2 ^ 16"
  proof -
    have "unat hi * 256 + unat lo < (unat hi + 1) * 256" by simp
    also have "\<dots> \<le> 256 * 256" using unat_u8_less [of hi] by (intro mult_le_mono1) linarith
    finally show ?thesis by simp
  qed
  ultimately show ?thesis by (simp add: unat_word_ariths)
qed

lemma decode_single [frame_simps]:
  "length src = 32 \<Longrightarrow>
     decode_relay_datagrams (src @ ecn # data) False = Some [\<lparr>source = src, payload = data\<rparr>]"
  by (simp add: decode_relay_datagrams_def)

lemma decode_batch [frame_simps]:
  "length src = 32 \<Longrightarrow> unat hi * 256 + unat lo \<noteq> 0 \<Longrightarrow>
     decode_relay_datagrams (src @ ecn # hi # lo # contents) True =
       Some (map (\<lambda>chunk. \<lparr>source = src, payload = chunk\<rparr>)
                 (chunks (unat hi * 256 + unat lo) contents))"
  by (auto simp: decode_relay_datagrams_def u16_from_be_value Let_def)

lemma decode_relay_datagrams_None:
  "decode_relay_datagrams pl batch = None \<longleftrightarrow>
     length pl < (if batch then 35 else 33)
     \<or> batch \<and> unat (pl ! 33) * 256 + unat (pl ! 34) = 0"
  by (auto simp: decode_relay_datagrams_def u16_from_be_value Let_def)

text \<open>C40. Decoding a batch frame loses and invents nothing: it fails exactly on a frame too
  short for its header or with segment size zero, and otherwise every datagram carries the
  frame's source, is non-empty and at most one segment long, all but the last are full
  segments, and the payloads concatenate to the frame's contents.\<close>

theorem decode_batch_segments:
  fixes pl :: bytes
  defines "seg \<equiv> unat (pl ! 33) * 256 + unat (pl ! 34)"
  shows "(decode_relay_datagrams pl True = None \<longleftrightarrow> length pl < 35 \<or> seg = 0) \<and>
         (\<forall>ds. decode_relay_datagrams pl True = Some ds \<longrightarrow>
            concat (map payload ds) = drop 35 pl
            \<and> source ` set ds \<subseteq> {take 32 pl}
            \<and> (\<forall>d \<in> set ds. payload d \<noteq> [] \<and> length (payload d) \<le> seg)
            \<and> (\<forall>d \<in> set (butlast ds). length (payload d) = seg)
            \<and> length ds = (length pl - 35 + seg - 1) div seg)"
proof (intro conjI allI impI)
  show "decode_relay_datagrams pl True = None \<longleftrightarrow> length pl < 35 \<or> seg = 0"
    by (auto simp: decode_relay_datagrams_None seg_def)
  fix ds assume "decode_relay_datagrams pl True = Some ds"
  then have seg: "0 < seg"
    and ds: "ds = map (\<lambda>c. \<lparr>source = take 32 pl, payload = c\<rparr>) (chunks seg (drop 35 pl))"
    by (auto simp: decode_relay_datagrams_def u16_from_be_value Let_def seg_def split: if_splits)
  then show "concat (map payload ds) = drop 35 pl"
    by (simp add: comp_def concat_chunks)
  show "source ` set ds \<subseteq> {take 32 pl}" using ds by auto
  show "\<forall>d \<in> set ds. payload d \<noteq> [] \<and> length (payload d) \<le> seg"
    using ds chunks_bound by auto
  show "\<forall>d \<in> set (butlast ds). length (payload d) = seg"
    using ds chunks_full by (auto simp: map_butlast [symmetric])
  show "length ds = (length pl - 35 + seg - 1) div seg"
    using ds seg by (simp add: length_chunks)
qed

theorem decode_batch_segments_witness:
  "\<exists>ds. decode_relay_datagrams (replicate 32 9 @ [3, 0, 5, 10, 11, 12, 13, 14, 15]) True = Some ds
        \<and> concat (map payload ds) = [10, 11, 12, 13, 14, 15] \<and> length ds = 2"
proof -
  let ?pl = "replicate 32 9 @ [3, 0, 5, 10, 11, 12, 13, 14, 15] :: bytes"
  have at: "?pl ! 33 = 0" "?pl ! 34 = 5" by (simp_all add: nth_append)
  obtain ds where "decode_relay_datagrams ?pl True = Some ds"
    using decode_batch_segments [of ?pl] unfolding at by auto
  then show ?thesis
    using decode_batch_segments [of ?pl] unfolding at by auto
qed

subsection \<open>Lossy UTF-8\<close>

lemma safe_get_cont: "is_cont (safe_get bs i) \<Longrightarrow> i < length bs"
  by (rule ccontr) (simp add: safe_get_def is_cont_def)

lemma utf8_seq_fits: "bs \<noteq> [] \<Longrightarrow> fst (utf8_seq bs) \<Longrightarrow> snd (utf8_seq bs) \<le> length bs"
  by (auto simp: utf8_seq_def Let_def Suc_le_eq split: if_splits dest: safe_get_cont)

lemma utf8_seq_extend:
  assumes "bs \<noteq> []" and "fst (utf8_seq bs)"
  shows "utf8_seq (take (snd (utf8_seq bs)) bs @ rest) = utf8_seq bs"
proof -
  define n where "n = snd (utf8_seq bs)"
  have "n \<le> length bs" using utf8_seq_fits [OF assms] by (simp add: n_def)
  then have same: "safe_get (take n bs @ rest) i = safe_get bs i" if "i < n" for i
    using that by (simp add: safe_get_def nth_append)
  let ?ts = "take n bs @ rest"
  have "safe_get ?ts 0 = safe_get bs 0"
    and "2 \<le> n \<Longrightarrow> safe_get ?ts 1 = safe_get bs 1"
    and "3 \<le> n \<Longrightarrow> safe_get ?ts 2 = safe_get bs 2"
    and "4 \<le> n \<Longrightarrow> safe_get ?ts 3 = safe_get bs 3"
    using same utf8_seq_pos [of bs] by (simp_all add: n_def)
  moreover have "utf8_seq bs = (True, n)" using assms(2) by (simp add: n_def prod_eq_iff)
  ultimately have "utf8_seq ?ts = (True, n)"
    unfolding utf8_seq_def Let_def by (simp split: if_splits)
  with \<open>utf8_seq bs = (True, n)\<close> show ?thesis by simp
qed

lemma utf8_seq_replacement: "utf8_seq ([0xEF, 0xBF, 0xBD] @ rest) = (True, 3)"
  by (simp add: utf8_seq_def safe_get_def lead2_def lead3_def second3_def is_cont_def Let_def)

lemma utf8_valid_append:
  assumes "bs \<noteq> []" and "fst (utf8_seq bs)" and "utf8_valid rest"
  shows "utf8_valid (take (snd (utf8_seq bs)) bs @ rest)"
proof -
  let ?n = "snd (utf8_seq bs)"
  have "?n \<le> length bs" by (rule utf8_seq_fits [OF assms(1,2)])
  then have "drop ?n (take ?n bs @ rest) = rest" by simp
  then show ?thesis
    using assms by (subst utf8_valid.simps) (simp add: utf8_seq_extend)
qed

lemma utf8_lossy_valid: "utf8_valid (utf8_lossy bs)"
proof (induction bs rule: utf8_lossy.induct)
  case (1 bs)
  consider "bs = []" | (ok) "bs \<noteq> []" "fst (utf8_seq bs)" | (bad) "bs \<noteq> []" "\<not> fst (utf8_seq bs)"
    by blast
  then show ?case
  proof cases
    case ok
    with 1 show ?thesis by (subst utf8_lossy.simps) (simp add: utf8_valid_append)
  next
    case bad
    with 1 have "utf8_valid ([0xEF, 0xBF, 0xBD] @ utf8_lossy (drop (snd (utf8_seq bs)) bs))"
      by (subst utf8_valid.simps) (simp add: utf8_seq_replacement [simplified])
    with bad show ?thesis by (subst utf8_lossy.simps) simp
  qed (simp add: utf8_lossy.simps utf8_valid.simps)
qed

lemma utf8_lossy_id: "utf8_valid bs \<Longrightarrow> utf8_lossy bs = bs"
proof (induction bs rule: utf8_lossy.induct)
  case (1 bs)
  then show ?case
    by (cases "bs = []") (auto simp: utf8_lossy.simps [of bs] utf8_valid.simps [of bs]
        utf8_lossy.simps [of "[]"] split: if_splits)
qed

text \<open>The lossy decoding used for denial reasons (and for the demo's received text) always
  yields well-formed UTF-8, and changes nothing exactly when the input is well formed.\<close>

theorem from_utf8_lossy_correct:
  "utf8_valid (string_bytes (from_utf8_lossy bs)) \<and>
   (string_bytes (from_utf8_lossy bs) = bs \<longleftrightarrow> utf8_valid bs)"
proof -
  have "string_bytes (from_utf8_lossy bs) = utf8_lossy bs"
    by (simp add: string_bytes_def from_utf8_lossy_def comp_def)
  then show ?thesis using utf8_lossy_valid [of bs] utf8_lossy_id [of bs] by auto
qed

end
