(* ===== verification/Identity.thy ===== *)
theory Identity
  imports Prelude
begin

text \<open>
  Model of \<open>core/src/crypto/sign.rs\<close>, \<open>core/src/tls.rs\<close> and \<open>endpoint/src/identity.rs\<close>: the
  node identity behind a WebCrypto key handle, its adoption checks, its presentation to
  rustls, and the exported identity constructors. The WebCrypto handles are resources of
  another component: a handle enters as a record of what its calls return (an error as
  its rendering in the message). rustls's SPKI construction and the \<open>polymorph:tls\<close>
  configuration builders are arguments.
\<close>

section \<open>Definitions\<close>

subsection \<open>WebCrypto handles\<close>

record signing_handle =
  sk_algorithm_name :: string
  sk_can_sign :: bool
  sk_sign :: "bytes \<Rightarrow> bytes sresult"

record verifying_handle =
  vk_algorithm_name :: string
  vk_export_key_raw :: "bytes sresult"
  vk_verify :: "bytes \<Rightarrow> bytes \<Rightarrow> unit sresult"

record key_options =
  opt_sign :: bool
  opt_extractable :: bool

subsection \<open>The identity\<close>

record webcrypto_ed25519 =
  we_key :: signing_handle
  we_spki :: bytes

record identity =
  id_key :: webcrypto_ed25519
  endpoint_id :: endpoint_id

text \<open>The conversion shared by both constructors: the exported key must be 32 bytes.\<close>

definition raw_to_id :: "bytes \<Rightarrow> endpoint_id sresult" where
  "raw_to_id raw =
     (case try_into_array 32 raw of
        Some eid \<Rightarrow> Inr eid
      | None \<Rightarrow> Inl (''expected 32-byte Ed25519 public key, got '' @ dec_string (length raw)))"

definition identity_generate ::
  "(key_options \<Rightarrow> (signing_handle \<times> verifying_handle) sresult) \<Rightarrow> (bytes \<Rightarrow> bytes)
     \<Rightarrow> identity sresult" where
  "identity_generate generate_key public_key_to_spki =
     (case generate_key \<lparr>opt_sign = True, opt_extractable = False\<rparr> of
        Inl e \<Rightarrow> Inl (''generate identity: '' @ e)
      | Inr (signing, verifying) \<Rightarrow>
          (case vk_export_key_raw verifying of
             Inl e \<Rightarrow> Inl (''export identity public key: '' @ e)
           | Inr raw \<Rightarrow>
               (case raw_to_id raw of
                  Inl e \<Rightarrow> Inl e
                | Inr eid \<Rightarrow>
                    Inr \<lparr>id_key = \<lparr>we_key = signing, we_spki = public_key_to_spki raw\<rparr>,
                         endpoint_id = eid\<rparr>)))"

definition PROBE :: bytes where
  "PROBE = string_bytes ''polymorph:iroh endpoint identity possession probe''"

definition from_injected ::
  "(bytes \<Rightarrow> bytes) \<Rightarrow> signing_handle \<Rightarrow> verifying_handle \<Rightarrow> identity sresult" where
  "from_injected public_key_to_spki signing verifying =
     (if sk_algorithm_name signing \<noteq> ''Ed25519'' then
        Inl (''identity signing key is '' @ sk_algorithm_name signing @ '', not Ed25519'')
      else if vk_algorithm_name verifying \<noteq> ''Ed25519'' then
        Inl (''identity verifying key is '' @ vk_algorithm_name verifying @ '', not Ed25519'')
      else if \<not> sk_can_sign signing then
        Inl ''identity signing key does not permit sign''
      else
        (case vk_export_key_raw verifying of
           Inl e \<Rightarrow> Inl (''export identity public key: '' @ e)
         | Inr raw \<Rightarrow>
             (case raw_to_id raw of
                Inl e \<Rightarrow> Inl e
              | Inr eid \<Rightarrow>
                  (case sk_sign signing PROBE of
                     Inl e \<Rightarrow> Inl (''identity probe signature: '' @ e)
                   | Inr sig \<Rightarrow>
                       (case vk_verify verifying PROBE sig of
                          Inl _ \<Rightarrow> Inl (''identity mismatch: the verifying key is not the ''
                                       @ ''signing key's public half'')
                        | Inr _ \<Rightarrow>
                            Inr \<lparr>id_key = \<lparr>we_key = signing, we_spki = public_key_to_spki raw\<rparr>,
                                 endpoint_id = eid\<rparr>)))))"

definition signing_key :: "identity \<Rightarrow> webcrypto_ed25519" where
  "signing_key i = id_key i"

definition identity_sign :: "identity \<Rightarrow> bytes \<Rightarrow> bytes sresult" where
  "identity_sign i message =
     map_err (\<lambda>e. ''webcrypto ed25519 sign: '' @ e) (sk_sign (we_key (id_key i)) message)"

subsection \<open>The rustls signer\<close>

datatype signature_scheme = ED25519 | OtherScheme u16

text \<open>\<open>Error::General\<close> of rustls carries the message.\<close>

definition signer_sign :: "signing_handle \<Rightarrow> bytes \<Rightarrow> bytes sresult" where
  "signer_sign key message = map_err (\<lambda>e. ''webcrypto ed25519 sign: '' @ e) (sk_sign key message)"

definition choose_scheme :: "webcrypto_ed25519 \<Rightarrow> signature_scheme list \<Rightarrow> signing_handle option" where
  "choose_scheme w offered = (if ED25519 \<in> set offered then Some (we_key w) else None)"

definition signer_public_key :: "webcrypto_ed25519 \<Rightarrow> bytes option" where
  "signer_public_key w = Some (we_spki w)"

subsection \<open>TLS configurations\<close>

definition SERVER_NAME :: string where
  "SERVER_NAME = ''endpoint.iroh.invalid''"

definition endpoint_id_from_spki :: "(bytes \<Rightarrow> endpoint_id option) \<Rightarrow> bytes \<Rightarrow> endpoint_id option" where
  "endpoint_id_from_spki public_key_from_ed25519_spki spki = public_key_from_ed25519_spki spki"

definition rpk_identity :: "(webcrypto_ed25519 \<Rightarrow> 'rpk sresult) \<Rightarrow> identity \<Rightarrow> 'rpk sresult" where
  "rpk_identity external i =
     map_err (\<lambda>e. ''identity is not rpk-shaped: '' @ e) (external (signing_key i))"

definition client_config ::
  "(webcrypto_ed25519 \<Rightarrow> 'rpk sresult) \<Rightarrow> ('rpk \<Rightarrow> endpoint_id \<Rightarrow> bytes list \<Rightarrow> 'cfg sresult)
     \<Rightarrow> identity \<Rightarrow> endpoint_id \<Rightarrow> bytes list \<Rightarrow> 'cfg sresult" where
  "client_config external rpk_client_config i expected_server alpns =
     (case rpk_identity external i of
        Inl e \<Rightarrow> Inl e
      | Inr rpk \<Rightarrow> rpk_client_config rpk expected_server alpns)"

definition server_config ::
  "(webcrypto_ed25519 \<Rightarrow> 'rpk sresult) \<Rightarrow> ('rpk \<Rightarrow> bytes list \<Rightarrow> 'cfg sresult)
     \<Rightarrow> identity \<Rightarrow> bytes list \<Rightarrow> 'cfg sresult" where
  "server_config external rpk_server_config i alpns =
     (case rpk_identity external i of
        Inl e \<Rightarrow> Inl e
      | Inr rpk \<Rightarrow> rpk_server_config rpk alpns)"

subsection \<open>The exported constructors\<close>

record identity_res =
  inner :: identity

definition generate ::
  "(key_options \<Rightarrow> (signing_handle \<times> verifying_handle) sresult) \<Rightarrow> (bytes \<Rightarrow> bytes)
     \<Rightarrow> identity_res result" where
  "generate generate_key public_key_to_spki =
     (case identity_generate generate_key public_key_to_spki of
        Inl e \<Rightarrow> Inl (Other (''generate identity: '' @ e))
      | Inr core \<Rightarrow> Inr \<lparr>inner = core\<rparr>)"

definition from_keys ::
  "(bytes \<Rightarrow> bytes) \<Rightarrow> signing_handle \<Rightarrow> verifying_handle \<Rightarrow> identity_res result" where
  "from_keys public_key_to_spki signing verifying =
     (case from_injected public_key_to_spki signing verifying of
        Inl e \<Rightarrow> Inl (InvalidArgument e)
      | Inr core \<Rightarrow> Inr \<lparr>inner = core\<rparr>)"

definition identity_res_endpoint_id :: "identity_res \<Rightarrow> bytes" where
  "identity_res_endpoint_id r = endpoint_id (inner r)"

subsection \<open>Specification\<close>

text \<open>
  What an \<open>identity\<close> in hand promises: a 32-byte identifier, and a rustls key whose SPKI is
  the one of that identifier.
\<close>

definition identity_ok :: "(bytes \<Rightarrow> bytes) \<Rightarrow> identity \<Rightarrow> bool" where
  "identity_ok public_key_to_spki i \<longleftrightarrow>
     length (endpoint_id i) = 32 \<and> we_spki (id_key i) = public_key_to_spki (endpoint_id i)"

section \<open>Lemmas\<close>

lemma raw_to_id_Inr [simp]: "raw_to_id raw = Inr eid \<longleftrightarrow> eid = raw \<and> length raw = 32"
  by (auto simp: raw_to_id_def split: option.splits)

lemma raw_to_id_Inl [simp]:
  "raw_to_id raw = Inl e \<longleftrightarrow>
     length raw \<noteq> 32 \<and> e = ''expected 32-byte Ed25519 public key, got '' @ dec_string (length raw)"
  by (auto simp: raw_to_id_def split: option.splits)

lemma from_injected_Inr:
  "from_injected spki signing verifying = Inr i \<longleftrightarrow>
     sk_algorithm_name signing = ''Ed25519'' \<and> vk_algorithm_name verifying = ''Ed25519''
     \<and> sk_can_sign signing
     \<and> (\<exists>raw sig. vk_export_key_raw verifying = Inr raw \<and> length raw = 32
          \<and> sk_sign signing PROBE = Inr sig \<and> vk_verify verifying PROBE sig = Inr ()
          \<and> i = \<lparr>id_key = \<lparr>we_key = signing, we_spki = spki raw\<rparr>, endpoint_id = raw\<rparr>)"
  by (auto simp: from_injected_def split: sum.splits)

lemma identity_generate_Inr:
  "identity_generate gen spki = Inr i \<longleftrightarrow>
     (\<exists>signing verifying raw.
        gen \<lparr>opt_sign = True, opt_extractable = False\<rparr> = Inr (signing, verifying)
        \<and> vk_export_key_raw verifying = Inr raw \<and> length raw = 32
        \<and> i = \<lparr>id_key = \<lparr>we_key = signing, we_spki = spki raw\<rparr>, endpoint_id = raw\<rparr>)"
  by (auto simp: identity_generate_def split: sum.splits)

lemma generate_identity_ok: "identity_generate gen spki = Inr i \<Longrightarrow> identity_ok spki i"
  by (auto simp: identity_generate_Inr identity_ok_def)

lemma from_injected_identity_ok: "from_injected spki s v = Inr i \<Longrightarrow> identity_ok spki i"
  by (auto simp: from_injected_Inr identity_ok_def)

text \<open>An injected key pair is adopted exactly when both handles are Ed25519, the signing
  key may sign, the exported key has 32 bytes and the verifying key accepts the signing
  key's probe signature; the adopted identity is the exported key with its SPKI. In every
  other case the constructor fails with invalid-argument.\<close>

theorem from_keys_adopts_iff:
  "(from_keys spki signing verifying = Inr r \<longleftrightarrow>
     sk_algorithm_name signing = ''Ed25519'' \<and> vk_algorithm_name verifying = ''Ed25519''
     \<and> sk_can_sign signing
     \<and> (\<exists>raw sig. vk_export_key_raw verifying = Inr raw \<and> length raw = 32
          \<and> sk_sign signing PROBE = Inr sig \<and> vk_verify verifying PROBE sig = Inr ()
          \<and> r = \<lparr>inner = \<lparr>id_key = \<lparr>we_key = signing, we_spki = spki raw\<rparr>, endpoint_id = raw\<rparr>\<rparr>))
   \<and> (\<exists>r msg. from_keys spki signing verifying \<in> {Inr r, Inl (InvalidArgument msg)})"
proof
  show "from_keys spki signing verifying = Inr r \<longleftrightarrow>
     sk_algorithm_name signing = ''Ed25519'' \<and> vk_algorithm_name verifying = ''Ed25519''
     \<and> sk_can_sign signing
     \<and> (\<exists>raw sig. vk_export_key_raw verifying = Inr raw \<and> length raw = 32
          \<and> sk_sign signing PROBE = Inr sig \<and> vk_verify verifying PROBE sig = Inr ()
          \<and> r = \<lparr>inner = \<lparr>id_key = \<lparr>we_key = signing, we_spki = spki raw\<rparr>, endpoint_id = raw\<rparr>\<rparr>)"
  proof (cases "from_injected spki signing verifying")
    case (Inl e)
    then have "\<nexists>i. from_injected spki signing verifying = Inr i" by simp
    with Inl show ?thesis unfolding from_injected_Inr by (auto simp: from_keys_def)
  next
    case (Inr i)
    with from_injected_Inr [of spki signing verifying i] show ?thesis
      by (auto simp: from_keys_def)
  qed
  show "\<exists>r msg. from_keys spki signing verifying \<in> {Inr r, Inl (InvalidArgument msg)}"
    by (cases "from_injected spki signing verifying") (auto simp: from_keys_def)
qed

text \<open>C37. Both identity constructors yield an identity whose rustls public key is the SPKI of
  its endpoint id; so wherever SPKI extraction inverts SPKI construction, the identifier a
  peer reads from this endpoint's raw-public-key certificate is its endpoint id.\<close>

theorem identity_presents_its_id:
  assumes spki: "\<And>raw. length raw = 32 \<Longrightarrow> from_spki (to_spki raw) = Some raw"
    and made: "generate gen to_spki = Inr r \<or> from_keys to_spki s v = Inr r"
  shows "Option.bind (signer_public_key (signing_key (inner r))) (endpoint_id_from_spki from_spki)
           = Some (identity_res_endpoint_id r)
         \<and> length (identity_res_endpoint_id r) = 32"
proof -
  have "identity_ok to_spki (inner r)"
    using made generate_identity_ok from_injected_identity_ok
    by (auto simp: generate_def from_keys_def split: sum.splits)
  with spki show ?thesis
    by (simp add: identity_ok_def signer_public_key_def signing_key_def
        endpoint_id_from_spki_def identity_res_endpoint_id_def)
qed

text \<open>A key pair and the DER prefix of an Ed25519 SPKI, for the witnesses.\<close>

definition ed25519_spki :: "bytes \<Rightarrow> bytes" where
  "ed25519_spki raw =
     [0x30, 0x2a, 0x30, 0x05, 0x06, 0x03, 0x2b, 0x65, 0x70, 0x03, 0x21, 0x00] @ raw"

definition sample_signing :: signing_handle where
  "sample_signing =
     \<lparr>sk_algorithm_name = ''Ed25519'', sk_can_sign = True, sk_sign = (\<lambda>m. Inr (replicate 64 9))\<rparr>"

definition sample_verifying :: verifying_handle where
  "sample_verifying =
     \<lparr>vk_algorithm_name = ''Ed25519'', vk_export_key_raw = Inr (replicate 32 1),
      vk_verify = (\<lambda>m sig. if sig = replicate 64 9 then Inr () else Inl ''mismatch'')\<rparr>"

definition sample_identity :: identity where
  "sample_identity =
     \<lparr>id_key = \<lparr>we_key = sample_signing, we_spki = ed25519_spki (replicate 32 1)\<rparr>,
      endpoint_id = replicate 32 1\<rparr>"

lemma from_keys_sample:
  "from_keys ed25519_spki sample_signing sample_verifying = Inr \<lparr>inner = sample_identity\<rparr>"
  by (simp add: from_keys_def from_injected_def sample_signing_def sample_verifying_def
      sample_identity_def raw_to_id_def try_into_array_def)

theorem identity_presents_its_id_witness:
  "Option.bind (signer_public_key (signing_key sample_identity))
       (endpoint_id_from_spki (\<lambda>bs. if length bs = 44 then Some (drop 12 bs) else None))
     = Some (replicate 32 1)"
  using identity_presents_its_id [OF _ disjI2 [OF from_keys_sample],
      where from_spki = "\<lambda>bs. if length bs = 44 then Some (drop 12 bs) else None"]
  by (simp add: ed25519_spki_def identity_res_endpoint_id_def sample_identity_def)

end
