(* ===== verification/Relay.thy ===== *)
theory Relay
  imports Relay_Frames Identity
begin

text \<open>
  Model of \<open>core/src/relay.rs\<close>: the relay client over a websocket: the URL mapping, the
  authentication handshake, and the datagram operations of \<open>RelayConn\<close>. The websocket is an
  imported resource: a value holds the results its \<open>receive\<close> calls give, in order, the
  error of its \<open>i\<close>-th \<open>send\<close> (none when it succeeds), and what was sent. An error is its
  \<open>Debug\<close> rendering. BLAKE3 and postcard are arguments.
\<close>

section \<open>Definitions\<close>

datatype ws_message = Binary bytes | Text string

record websocket =
  ws_inbox :: "ws_message sresult list"
  ws_send_error :: "nat \<Rightarrow> string option"
  ws_sends :: nat
  ws_sent :: "ws_message list"
  ws_closing :: bool

definition ws_send :: "ws_message \<Rightarrow> websocket \<Rightarrow> unit sresult \<times> websocket" where
  "ws_send msg ws =
     (case ws_send_error ws (ws_sends ws) of
        Some e \<Rightarrow> (Inl e, ws\<lparr>ws_sends := Suc (ws_sends ws)\<rparr>)
      | None \<Rightarrow> (Inr (), ws\<lparr>ws_sends := Suc (ws_sends ws), ws_sent := ws_sent ws @ [msg]\<rparr>))"

record relay_deps =
  blake3_derive_key :: "string \<Rightarrow> bytes \<Rightarrow> bytes"
  postcard_to_extend :: "client_auth \<Rightarrow> bytes \<Rightarrow> bytes"
  postcard_string :: "bytes \<Rightarrow> string option"

record relay_conn =
  rc_ws :: websocket
  rc_pending :: "datagram list"

subsection \<open>The relay URL\<close>

text \<open>\<open>str::split_once\<close>: at the first occurrence of the separator.\<close>

fun split_once :: "string \<Rightarrow> string \<Rightarrow> (string \<times> string) option" where
  "split_once sep [] = (if sep = [] then Some ([], []) else None)"
| "split_once sep (c # cs) =
     (if take (length sep) (c # cs) = sep then Some ([], drop (length sep) (c # cs))
      else map_option (\<lambda>(a, b). (c # a, b)) (split_once sep cs))"

definition relay_url :: "string \<Rightarrow> string sresult" where
  "relay_url server =
     (case split_once ''://'' server of
        None \<Rightarrow> Inl (''relay url '' @ debug_string server @ '' has no scheme'')
      | Some (scheme, rest) \<Rightarrow>
          (let ws_scheme = (if scheme = ''http'' \<or> scheme = ''ws'' then ''ws'' else ''wss'');
               host = takeWhile (\<lambda>c. c \<noteq> CHR ''/'') rest
           in if host = [] then Inl (''relay url '' @ debug_string server @ '' has no host'')
              else Inr (ws_scheme @ ''://'' @ host @ RELAY_PATH)))"

subsection \<open>The handshake\<close>

text \<open>
  The reply to one challenge: the signed, derived key in a client-auth frame.
\<close>

definition challenge_reply :: "relay_deps \<Rightarrow> identity \<Rightarrow> bytes \<Rightarrow> bytes sresult" where
  "challenge_reply D i pl =
     (case try_into_array 16 pl of
        None \<Rightarrow> Inl ''relay handshake: malformed challenge''
      | Some challenge \<Rightarrow>
          (case identity_sign i (blake3_derive_key D CHALLENGE_DOMAIN challenge) of
             Inl e \<Rightarrow> Inl e
           | Inr raw \<Rightarrow>
               (case try_into_array 64 raw of
                  None \<Rightarrow> Inl ''identity produced a non-64-byte signature''
                | Some sg \<Rightarrow> Inr (encode_client_auth (postcard_to_extend D) (endpoint_id i) sg))))"

fun handshake ::
  "relay_deps \<Rightarrow> identity \<Rightarrow> ws_message sresult list \<Rightarrow> websocket
     \<Rightarrow> unit sresult async \<times> websocket" where
  "handshake D i [] ws = (Parked, ws\<lparr>ws_inbox := []\<rparr>)"
| "handshake D i (Inl e # inbox) ws =
     (Returned (Inl (''relay handshake: '' @ e)), ws\<lparr>ws_inbox := inbox\<rparr>)"
| "handshake D i (Inr (Text t) # inbox) ws = handshake D i inbox ws"
| "handshake D i (Inr (Binary frame) # inbox) ws =
     (case split_tag frame of
        None \<Rightarrow> (Returned (Inl ''relay handshake: empty frame''), ws\<lparr>ws_inbox := inbox\<rparr>)
      | Some (frame_tag, pl) \<Rightarrow>
          if frame_tag = SERVER_CHALLENGE then
            (case challenge_reply D i pl of
               Inl e \<Rightarrow> (Returned (Inl e), ws\<lparr>ws_inbox := inbox\<rparr>)
             | Inr auth \<Rightarrow>
                 (case ws_send (Binary auth) ws of
                    (Inl e, ws') \<Rightarrow>
                      (Returned (Inl (''relay handshake: '' @ e)), ws'\<lparr>ws_inbox := inbox\<rparr>)
                  | (Inr _, ws') \<Rightarrow> handshake D i inbox ws'))
          else if frame_tag = SERVER_CONFIRMS_AUTH then
            (Returned (Inr ()), ws\<lparr>ws_inbox := inbox\<rparr>)
          else if frame_tag = SERVER_DENIES_AUTH then
            (Returned (Inl (''relay denied auth: '' @ decode_denial_reason (postcard_string D) pl)),
             ws\<lparr>ws_inbox := inbox\<rparr>)
          else
            (Returned (Inl (''relay handshake: unexpected frame type ''
                            @ dec_string (unat frame_tag))),
             ws\<lparr>ws_inbox := inbox\<rparr>))"

text \<open>\<open>Websocket::connect\<close> is the argument \<open>ws_connect\<close>.\<close>

definition relay_connect ::
  "relay_deps \<Rightarrow> (string \<Rightarrow> string list \<Rightarrow> websocket sresult) \<Rightarrow> string \<Rightarrow> identity
     \<Rightarrow> relay_conn sresult async" where
  "relay_connect D ws_connect server i =
     (case relay_url server of
        Inl e \<Rightarrow> Returned (Inl e)
      | Inr url \<Rightarrow>
          (case ws_connect url SUBPROTOCOLS of
             Inl e \<Rightarrow> Returned (Inl (''relay connect: '' @ e))
           | Inr ws \<Rightarrow>
               (case handshake D i (ws_inbox ws) ws of
                  (Parked, _) \<Rightarrow> Parked
                | (Returned (Inl e), _) \<Rightarrow> Returned (Inl e)
                | (Returned (Inr _), ws') \<Rightarrow> Returned (Inr \<lparr>rc_ws = ws', rc_pending = []\<rparr>))))"

subsection \<open>Datagram operations\<close>

definition send_datagram ::
  "endpoint_id \<Rightarrow> bytes \<Rightarrow> relay_conn \<Rightarrow> unit sresult \<times> relay_conn" where
  "send_datagram dst data rc =
     (case ws_send (Binary (encode_client_datagram dst data)) (rc_ws rc) of
        (r, ws) \<Rightarrow> (map_err (\<lambda>e. ''relay send: '' @ e) r, rc\<lparr>rc_ws := ws\<rparr>))"

fun recv_loop ::
  "datagram list \<Rightarrow> ws_message sresult list \<Rightarrow> websocket
     \<Rightarrow> datagram sresult async \<times> datagram list \<times> ws_message sresult list \<times> websocket" where
  "recv_loop (d # ds) inbox ws = (Returned (Inr d), ds, inbox, ws)"
| "recv_loop [] [] ws = (Parked, [], [], ws)"
| "recv_loop [] (Inl e # inbox) ws = (Returned (Inl (''relay: '' @ e)), [], inbox, ws)"
| "recv_loop [] (Inr (Text t) # inbox) ws = recv_loop [] inbox ws"
| "recv_loop [] (Inr (Binary frame) # inbox) ws =
     (case split_tag frame of
        None \<Rightarrow> recv_loop [] inbox ws
      | Some (frame_tag, pl) \<Rightarrow>
          if frame_tag = RELAY_TO_CLIENT_DATAGRAM \<or> frame_tag = RELAY_TO_CLIENT_DATAGRAM_BATCH then
            (case decode_relay_datagrams pl (frame_tag = RELAY_TO_CLIENT_DATAGRAM_BATCH) of
               None \<Rightarrow> recv_loop [] inbox ws
             | Some datagrams \<Rightarrow> recv_loop datagrams inbox ws)
          else if frame_tag = PING then
            (case try_into_array 8 pl of
               Some ping \<Rightarrow>
                 (case ws_send (Binary (encode_pong ping)) ws of
                    (Inl e, ws') \<Rightarrow> (Returned (Inl (''relay pong: '' @ e)), [], inbox, ws')
                  | (Inr _, ws') \<Rightarrow> recv_loop [] inbox ws')
             | None \<Rightarrow> recv_loop [] inbox ws)
          else recv_loop [] inbox ws)"

definition recv_datagram :: "relay_conn \<Rightarrow> datagram sresult async \<times> relay_conn" where
  "recv_datagram rc =
     (case recv_loop (rc_pending rc) (ws_inbox (rc_ws rc)) (rc_ws rc) of
        (r, ds, inbox, ws) \<Rightarrow> (r, \<lparr>rc_ws = ws\<lparr>ws_inbox := inbox\<rparr>, rc_pending = ds\<rparr>))"

text \<open>\<open>ws.close(None, "")\<close>; its result is ignored.\<close>

definition relay_close :: "relay_conn \<Rightarrow> relay_conn" where
  "relay_close rc = rc\<lparr>rc_ws := (rc_ws rc)\<lparr>ws_closing := True\<rparr>\<rparr>"

subsection \<open>Specifications\<close>

text \<open>The datagrams one websocket message carries, and the ping it asks to answer.\<close>

definition message_datagrams :: "ws_message \<Rightarrow> datagram list" where
  "message_datagrams m =
     (case m of Text _ \<Rightarrow> []
      | Binary frame \<Rightarrow>
          (case split_tag frame of None \<Rightarrow> []
           | Some (t, pl) \<Rightarrow>
               if t = RELAY_TO_CLIENT_DATAGRAM \<or> t = RELAY_TO_CLIENT_DATAGRAM_BATCH
               then (case decode_relay_datagrams pl (t = RELAY_TO_CLIENT_DATAGRAM_BATCH) of
                       None \<Rightarrow> [] | Some ds \<Rightarrow> ds)
               else []))"

definition message_pongs :: "ws_message \<Rightarrow> ws_message list" where
  "message_pongs m =
     (case m of Text _ \<Rightarrow> []
      | Binary frame \<Rightarrow>
          (case split_tag frame of None \<Rightarrow> []
           | Some (t, pl) \<Rightarrow>
               if t = PING \<and> length pl = 8 then [Binary (encode_pong pl)] else []))"

text \<open>What arrives before the connection's first receive error.\<close>

fun inbound :: "ws_message sresult list \<Rightarrow> ws_message list" where
  "inbound [] = []"
| "inbound (Inl e # es) = []"
| "inbound (Inr m # es) = m # inbound es"

definition relay_backlog :: "relay_conn \<Rightarrow> datagram list" where
  "relay_backlog rc =
     rc_pending rc @ concat (map message_datagrams (inbound (ws_inbox (rc_ws rc))))"

definition sends_succeed :: "relay_conn \<Rightarrow> bool" where
  "sends_succeed rc \<longleftrightarrow> ws_send_error (rc_ws rc) = (\<lambda>_. None)"

text \<open>
  A handshake transcript: the messages before the confirmation are text or well-formed
  challenges, and \<open>replies\<close> are the client-auth frames answering them.
\<close>

fun transcript :: "relay_deps \<Rightarrow> identity \<Rightarrow> ws_message list \<Rightarrow> ws_message list \<Rightarrow> bool" where
  "transcript D i [] replies \<longleftrightarrow> replies = []"
| "transcript D i (Text t # ms) replies \<longleftrightarrow> transcript D i ms replies"
| "transcript D i (Binary frame # ms) replies \<longleftrightarrow>
     (\<exists>pl auth rs. split_tag frame = Some (SERVER_CHALLENGE, pl) \<and> challenge_reply D i pl = Inr auth
        \<and> replies = Binary auth # rs \<and> transcript D i ms rs)"

section \<open>Lemmas\<close>

subsection \<open>Sending\<close>

lemma ws_send_ok:
  "ws_send m ws = (Inr u, ws') \<Longrightarrow>
     ws' = ws\<lparr>ws_sends := Suc (ws_sends ws), ws_sent := ws_sent ws @ [m]\<rparr>"
  by (auto simp: ws_send_def split: option.splits)

lemma ws_send_succeeds [simp]:
  "ws_send_error ws = (\<lambda>_. None) \<Longrightarrow>
     ws_send m ws = (Inr (), ws\<lparr>ws_sends := Suc (ws_sends ws), ws_sent := ws_sent ws @ [m]\<rparr>)"
  by (simp add: ws_send_def)

subsection \<open>The relay URL\<close>

lemma split_once_Some:
  "split_once sep s = Some (a, b) \<Longrightarrow> s = a @ sep @ b"
proof (induction sep s arbitrary: a b rule: split_once.induct)
  case (2 sep c cs)
  show ?case
  proof (cases "take (length sep) (c # cs) = sep")
    case True
    with "2.prems" have "a = []" and "b = drop (length sep) (c # cs)" by auto
    with True show ?thesis by (metis append_Nil append_take_drop_id)
  next
    case False
    with "2.prems" obtain a' where "split_once sep cs = Some (a', b)" and "a = c # a'" by auto
    with "2.IH" [OF False] show ?thesis by simp
  qed
qed (auto split: if_splits)

lemma relay_url_Inr:
  assumes "relay_url server = Inr url"
  shows "\<exists>scheme rest host. server = scheme @ ''://'' @ rest
        \<and> host = takeWhile (\<lambda>c. c \<noteq> CHR ''/'') rest \<and> host \<noteq> []
        \<and> url = (if scheme = ''http'' \<or> scheme = ''ws'' then ''ws'' else ''wss'') @ ''://'' @ host @ ''/relay''"
proof -
  obtain scheme rest where split: "split_once ''://'' server = Some (scheme, rest)"
    using assms by (cases "split_once ''://'' server") (auto simp: relay_url_def)
  let ?host = "takeWhile (\<lambda>c. c \<noteq> CHR ''/'') rest"
  have "?host \<noteq> [] \<and> url = (if scheme = ''http'' \<or> scheme = ''ws'' then ''ws'' else ''wss'')
                           @ ''://'' @ ?host @ ''/relay''"
    using assms unfolding relay_url_def split RELAY_PATH_def Let_def option.case prod.case
    by (metis Inl_Inr_False Inr_inject)
  with split_once_Some [OF split] show ?thesis by blast
qed

lemma takeWhile_host:
  "host = takeWhile P rest \<Longrightarrow> \<not> P x \<Longrightarrow> takeWhile P (host @ x # xs) = host"
  by (induction rest arbitrary: host) auto

text \<open>Mapping a relay URL yields a websocket URL with the server's authority and the relay
  path, plain only for plain schemes; mapping the result again changes nothing.\<close>

theorem relay_url_canonical:
  assumes "relay_url server = Inr url"
  shows "relay_url url = Inr url \<and>
         (\<exists>scheme rest host. server = scheme @ ''://'' @ rest
            \<and> host = takeWhile (\<lambda>c. c \<noteq> CHR ''/'') rest \<and> host \<noteq> []
            \<and> url = (if scheme = ''http'' \<or> scheme = ''ws'' then ''ws'' else ''wss'')
                     @ ''://'' @ host @ ''/relay'')"
proof
  show "\<exists>scheme rest host. server = scheme @ ''://'' @ rest
            \<and> host = takeWhile (\<lambda>c. c \<noteq> CHR ''/'') rest \<and> host \<noteq> []
            \<and> url = (if scheme = ''http'' \<or> scheme = ''ws'' then ''ws'' else ''wss'')
                     @ ''://'' @ host @ ''/relay''"
    using relay_url_Inr [OF assms] .
  then obtain scheme rest host where host: "host = takeWhile (\<lambda>c. c \<noteq> CHR ''/'') rest" "host \<noteq> []"
    and url: "url = (if scheme = ''http'' \<or> scheme = ''ws'' then ''ws'' else ''wss'')
                     @ ''://'' @ host @ ''/relay''"
    by blast
  have "takeWhile (\<lambda>c. c \<noteq> CHR ''/'') (host @ ''/relay'') = host"
    using takeWhile_host [OF host(1)] by simp
  then show "relay_url url = Inr url"
    using host(2) by (auto simp: url relay_url_def RELAY_PATH_def Let_def)
qed

theorem relay_url_canonical_witness:
  "relay_url ''https://relay.example/x'' = Inr ''wss://relay.example/relay''
   \<and> relay_url ''wss://relay.example/relay'' = Inr ''wss://relay.example/relay''"
proof -
  have "relay_url ''https://relay.example/x'' = Inr ''wss://relay.example/relay''"
    by (simp add: relay_url_def RELAY_PATH_def)
  from this relay_url_canonical [OF this] show ?thesis by simp
qed

subsection \<open>The handshake\<close>

lemma handshake_confirmed:
  assumes "handshake D i inbox ws = (Returned (Inr ()), ws')"
  shows "\<exists>ms frame pl rest replies.
           inbox = map Inr ms @ Inr (Binary frame) # rest
           \<and> split_tag frame = Some (SERVER_CONFIRMS_AUTH, pl)
           \<and> transcript D i ms replies
           \<and> ws_sent ws' = ws_sent ws @ replies \<and> ws_inbox ws' = rest"
  using assms
proof (induction D i inbox ws rule: handshake.induct)
  case (3 D i t inbox ws)
  then obtain ms frame pl rest replies where
    "inbox = map Inr ms @ Inr (Binary frame) # rest" "split_tag frame = Some (SERVER_CONFIRMS_AUTH, pl)"
    "transcript D i ms replies" "ws_sent ws' = ws_sent ws @ replies" "ws_inbox ws' = rest" by auto
  then show ?case
    by (intro exI [of _ "Text t # ms"] exI [of _ frame] exI [of _ pl] exI [of _ rest] exI [of _ replies])
       simp
next
  case (4 D i frame inbox ws)
  then obtain tg pl where tag: "split_tag frame = Some (tg, pl)" by (auto split: option.splits)
  show ?case
  proof (cases "tg = SERVER_CHALLENGE")
    case False
    with 4 tag have "tg = SERVER_CONFIRMS_AUTH" and "ws' = ws\<lparr>ws_inbox := inbox\<rparr>"
      by (auto split: if_splits)
    with tag show ?thesis
      by (intro exI [of _ "[]"] exI [of _ frame] exI [of _ pl] exI [of _ inbox] exI [of _ "[]"]) simp
  next
    case True
    with 4 tag obtain auth ws1 where auth: "challenge_reply D i pl = Inr auth"
      and sent: "ws_send (Binary auth) ws = (Inr (), ws1)"
      and go: "handshake D i inbox ws1 = (Returned (Inr ()), ws')"
      by (auto split: sum.splits prod.splits)
    from "4.IH" [OF tag refl True auth sent [symmetric] refl go]
    obtain ms frame' pl' rest replies where
      "inbox = map Inr ms @ Inr (Binary frame') # rest" "split_tag frame' = Some (SERVER_CONFIRMS_AUTH, pl')"
      "transcript D i ms replies" "ws_sent ws' = ws_sent ws1 @ replies" "ws_inbox ws' = rest" by auto
    with tag True auth ws_send_ok [OF sent] show ?thesis
      by (intro exI [of _ "Binary frame # ms"] exI [of _ frame'] exI [of _ pl'] exI [of _ rest]
          exI [of _ "Binary auth # replies"]) simp
  qed
qed auto

lemma handshake_completes:
  assumes "transcript D i ms replies" and "split_tag frame = Some (SERVER_CONFIRMS_AUTH, pl)"
    and "ws_send_error ws = (\<lambda>_. None)"
  shows "\<exists>ws'. handshake D i (map Inr ms @ Inr (Binary frame) # rest) ws = (Returned (Inr ()), ws')"
  using assms
  by (induction D i ms replies arbitrary: ws rule: transcript.induct) auto

text \<open>C22. The handshake succeeds exactly on an inbox whose messages before the first
  confirmation are text messages or challenges this identity can answer; it has then sent
  one client-auth frame per challenge, in order and nothing else, and leaves the messages
  after the confirmation unread. (On a websocket whose sends succeed.)\<close>

theorem handshake_iff:
  assumes "ws_send_error ws = (\<lambda>_. None)"
  shows "(\<exists>ws'. handshake D i inbox ws = (Returned (Inr ()), ws')
              \<and> ws_sent ws' = ws_sent ws @ replies \<and> ws_inbox ws' = rest) \<longleftrightarrow>
         (\<exists>ms frame pl. inbox = map Inr ms @ Inr (Binary frame) # rest
              \<and> split_tag frame = Some (SERVER_CONFIRMS_AUTH, pl) \<and> transcript D i ms replies)"
    (is "?L \<longleftrightarrow> ?R")
proof
  assume ?L
  then show ?R using handshake_confirmed [of D i inbox ws] by (metis append_same_eq same_append_eq)
next
  assume ?R
  then obtain ms frame pl where inbox: "inbox = map Inr ms @ Inr (Binary frame) # rest"
    and conf: "split_tag frame = Some (SERVER_CONFIRMS_AUTH, pl)" and tr: "transcript D i ms replies"
    by blast
  from tr assms show ?L
    unfolding inbox
  proof (induction D i ms replies arbitrary: ws rule: transcript.induct)
    case (1 D i replies)
    with conf show ?case by simp
  next
    case (2 D i t ms replies)
    then show ?case by simp
  next
    case (3 D i fr ms replies)
    then obtain pl auth rs where step: "split_tag fr = Some (SERVER_CHALLENGE, pl)"
      "challenge_reply D i pl = Inr auth" "replies = Binary auth # rs" "transcript D i ms rs" by auto
    let ?ws1 = "ws\<lparr>ws_sends := Suc (ws_sends ws), ws_sent := ws_sent ws @ [Binary auth]\<rparr>"
    from "3.IH" [of rs ?ws1] step "3.prems" show ?case by auto
  qed
qed

text \<open>C34. A challenge is answered only when it is 16 bytes long, with a frame from which the
  relay reads this endpoint's identifier and the identity key's 64-byte signature over the
  domain-separated digest of exactly that challenge.\<close>

theorem challenge_reply_proves_identity:
  assumes "postcard_layout (postcard_to_extend D)" and "length (endpoint_id i) = 32"
    and "challenge_reply D i pl = Inr auth"
  shows "length pl = 16 \<and>
         (\<exists>sg. identity_sign i (blake3_derive_key D CHALLENGE_DOMAIN pl) = Inr sg
            \<and> length sg = 64 \<and> relay_reads auth = Some (AuthFrame (endpoint_id i) sg))"
  using assms relay_reads_auth [OF assms(1,2)]
  by (auto simp: challenge_reply_def split: option.splits sum.splits)

text \<open>Sample dependencies for the witnesses.\<close>

definition sample_deps :: relay_deps where
  "sample_deps =
     \<lparr>blake3_derive_key = (\<lambda>domain m. m),
      postcard_to_extend =
        (\<lambda>ca out. out @ public_key ca @ [of_nat (length (signature ca))] @ signature ca),
      postcard_string = (\<lambda>bs. None)\<rparr>"

definition sample_ws :: "ws_message sresult list \<Rightarrow> websocket" where
  "sample_ws inbox =
     \<lparr>ws_inbox = inbox, ws_send_error = (\<lambda>_. None), ws_sends = 0, ws_sent = [], ws_closing = False\<rparr>"

lemma sample_reply:
  "challenge_reply sample_deps sample_identity (replicate 16 5) =
     Inr (encode_client_auth (postcard_to_extend sample_deps) (replicate 32 1) (replicate 64 9))"
  by (simp add: challenge_reply_def sample_deps_def sample_identity_def sample_signing_def
      identity_sign_def try_into_array_def)

lemma sample_identity_simps [simp]:
  "endpoint_id sample_identity = replicate 32 1"
  "identity_sign sample_identity m = Inr (replicate 64 9)"
  by (simp_all add: sample_identity_def identity_sign_def sample_signing_def)

theorem challenge_reply_proves_identity_witness:
  "\<exists>auth. challenge_reply sample_deps sample_identity (replicate 16 5) = Inr auth
      \<and> relay_reads auth = Some (AuthFrame (replicate 32 1) (replicate 64 9))"
proof -
  have "postcard_layout (postcard_to_extend sample_deps)"
    by (simp add: postcard_layout_def sample_deps_def)
  then show ?thesis
    using challenge_reply_proves_identity [OF _ _ sample_reply] sample_reply by simp
qed

theorem handshake_iff_witness:
  "\<exists>ws'. handshake sample_deps sample_identity
           [Inr (Text ''hi''), Inr (Binary (0 # replicate 16 5)), Inr (Binary [2]), Inr (Binary [9])]
           (sample_ws []) = (Returned (Inr ()), ws')
        \<and> ws_inbox ws' = [Inr (Binary [9])] \<and> length (ws_sent ws') = 1"
proof -
  let ?ms = "[Text ''hi'', Binary (0 # replicate 16 5)]"
  let ?auth = "encode_client_auth (postcard_to_extend sample_deps) (replicate 32 1) (replicate 64 9)"
  have "transcript sample_deps sample_identity ?ms [Binary ?auth]"
    by (simp add: split_tag_small sample_reply)
  moreover have "split_tag [2] = Some (SERVER_CONFIRMS_AUTH, [])" by (simp add: split_tag_small)
  ultimately show ?thesis
    using handshake_iff [of "sample_ws []" sample_deps sample_identity
        "map Inr ?ms @ Inr (Binary [2]) # [Inr (Binary [9])]" "[Binary ?auth]" "[Inr (Binary [9])]"]
    by (fastforce simp: sample_ws_def)
qed

subsection \<open>Receiving\<close>

lemma inbound_map_Inr [simp]: "inbound (map Inr ms @ es) = ms @ inbound es"
  by (induction ms) simp_all

text \<open>
  What one receive consumes and delivers: it reads the messages \<open>ms\<close> off the inbox, and its
  result is the head of the datagrams it then holds.
\<close>

definition recv_post ::
  "datagram list \<Rightarrow> ws_message sresult list \<Rightarrow> ws_message list \<Rightarrow>
   datagram sresult async \<Rightarrow> datagram list \<Rightarrow> ws_message sresult list \<Rightarrow> bool" where
  "recv_post ds inbox ms r ds' inbox' \<longleftrightarrow>
     (case r of
        Returned (Inr d) \<Rightarrow>
          inbox = map Inr ms @ inbox' \<and> ds @ concat (map message_datagrams ms) = d # ds'
      | Parked \<Rightarrow>
          inbox = map Inr ms \<and> inbox' = [] \<and> ds' = []
          \<and> ds @ concat (map message_datagrams ms) = []
      | Returned (Inl e) \<Rightarrow>
          (\<exists>e0. e = ''relay: '' @ e0 \<and> inbox = map Inr ms @ Inl e0 # inbox') \<and> ds' = []
          \<and> ds @ concat (map message_datagrams ms) = [])"

lemma recv_post_read:
  "recv_post (message_datagrams m) inbox ms r ds' inbox' \<Longrightarrow>
     recv_post [] (Inr m # inbox) (m # ms) r ds' inbox'"
  by (auto simp: recv_post_def split: async.splits sum.splits)

lemma recv_loop_Binary:
  assumes "ws_send_error ws = (\<lambda>_. None)"
  shows "recv_loop [] (Inr (Binary frame) # inbox) ws =
           recv_loop (message_datagrams (Binary frame)) inbox
             (case message_pongs (Binary frame) of [] \<Rightarrow> ws
              | m # _ \<Rightarrow> ws\<lparr>ws_sends := Suc (ws_sends ws), ws_sent := ws_sent ws @ [m]\<rparr>)"
  using assms
  by (auto simp: message_datagrams_def message_pongs_def try_into_array_def split: option.splits)

lemma message_pongs_cases:
  "message_pongs m = [] \<or> (\<exists>p. message_pongs m = [p])"
  by (auto simp: message_pongs_def split: ws_message.splits option.splits)

lemma message_Text [simp]: "message_datagrams (Text t) = []" "message_pongs (Text t) = []"
  by (simp_all add: message_datagrams_def message_pongs_def)

lemma recv_loop_spec:
  assumes "recv_loop ds inbox ws = (r, ds', inbox', ws')" and "ws_send_error ws = (\<lambda>_. None)"
  shows "\<exists>ms. recv_post ds inbox ms r ds' inbox'
           \<and> ws_sent ws' = ws_sent ws @ concat (map message_pongs ms)
           \<and> ws_send_error ws' = (\<lambda>_. None)"
  using assms
proof (induction inbox arbitrary: ds ws)
  case Nil
  then show ?case by (intro exI [of _ "[]"]) (cases ds; auto simp: recv_post_def)
next
  case (Cons x inbox)
  show ?case
  proof (cases ds)
    case (Cons d ds1)
    with Cons.prems show ?thesis by (intro exI [of _ "[]"]) (auto simp: recv_post_def)
  next
    case Nil
    show ?thesis
    proof (cases x)
      case (Inl e)
      with Nil Cons.prems show ?thesis by (intro exI [of _ "[]"]) (auto simp: recv_post_def)
    next
      case (Inr m)
      obtain ws1 where go: "recv_loop (message_datagrams m) inbox ws1 = (r, ds', inbox', ws')"
        and ws1: "ws_send_error ws1 = (\<lambda>_. None)" "ws_sent ws1 = ws_sent ws @ message_pongs m"
      proof (cases m)
        case (Binary frame)
        with that Nil Inr Cons.prems recv_loop_Binary [of ws frame inbox] message_pongs_cases [of m]
        show ?thesis by (auto split: list.splits)
      next
        case (Text t)
        with that [of ws] Nil Inr Cons.prems show ?thesis by simp
      qed
      from Cons.IH [OF go ws1(1)] obtain ms
        where "recv_post (message_datagrams m) inbox ms r ds' inbox'"
          and "ws_sent ws' = ws_sent ws1 @ concat (map message_pongs ms)"
          and "ws_send_error ws' = (\<lambda>_. None)" by blast
      with recv_post_read [of m inbox ms] ws1(2) Nil Inr show ?thesis
        by (intro exI [of _ "m # ms"]) simp
    qed
  qed
qed

lemma inbound_map_Inr_all [simp]: "inbound (map Inr ms) = ms"
  using inbound_map_Inr [of ms "[]"] by simp

lemma recv_datagram_step:
  assumes "recv_datagram rc = (r, rc')" and "sends_succeed rc"
  shows "sends_succeed rc' \<and>
         (case r of Returned (Inr d) \<Rightarrow> relay_backlog rc = d # relay_backlog rc'
          | _ \<Rightarrow> relay_backlog rc = [])"
proof -
  obtain ds inbox ws where run:
    "recv_loop (rc_pending rc) (ws_inbox (rc_ws rc)) (rc_ws rc) = (r, ds, inbox, ws)"
    and rc': "rc' = \<lparr>rc_ws = ws\<lparr>ws_inbox := inbox\<rparr>, rc_pending = ds\<rparr>"
    using assms(1) by (auto simp: recv_datagram_def split: prod.splits)
  from recv_loop_spec [OF run] assms(2) obtain ms
    where "recv_post (rc_pending rc) (ws_inbox (rc_ws rc)) ms r ds inbox"
      and "ws_send_error ws = (\<lambda>_. None)" by (auto simp: sends_succeed_def)
  then show ?thesis
    unfolding rc'
    by (auto simp: recv_post_def relay_backlog_def sends_succeed_def split: async.splits sum.splits)
qed

interpretation relay_source: datagram_source recv_datagram relay_backlog sends_succeed
proof
  fix s s' d
  assume "sends_succeed s" and "recv_datagram s = (Returned (Inr d), s')"
  then show "relay_backlog s = d # relay_backlog s' \<and> sends_succeed s'"
    using recv_datagram_step by fastforce
next
  fix s s'
  assume "sends_succeed s" and "recv_datagram s = (Parked, s')"
  then show "relay_backlog s = []" using recv_datagram_step by fastforce
next
  fix s s' e
  assume "sends_succeed s" and "recv_datagram s = (Returned (Inl e), s')"
  then show "relay_backlog s = []" using recv_datagram_step by fastforce
qed

text \<open>C35. Repeated receives on a relay connection deliver exactly the datagrams of the frames
  that arrived before its first error, single and batched, each once and in order; no ping,
  text message or unknown frame disturbs the sequence.\<close>

theorem recv_datagram_delivers:
  assumes "sends_succeed rc"
  shows "fst (recv_many recv_datagram n rc) = take n (relay_backlog rc)"
  using assms by (rule relay_source.recv_many_takes)

text \<open>C36. One receive call reads a prefix of the inbox, answers each well-formed ping in it
  with one pong, in order, sends nothing else, and hands out the first datagram it holds;
  it waits or fails only when it has none.\<close>

theorem recv_datagram_answers_pings:
  assumes "sends_succeed rc" and "recv_datagram rc = (r, rc')"
  shows "\<exists>ms. recv_post (rc_pending rc) (ws_inbox (rc_ws rc)) ms r (rc_pending rc') (ws_inbox (rc_ws rc'))
           \<and> ws_sent (rc_ws rc') = ws_sent (rc_ws rc) @ concat (map message_pongs ms)"
proof -
  obtain ds inbox ws where run:
    "recv_loop (rc_pending rc) (ws_inbox (rc_ws rc)) (rc_ws rc) = (r, ds, inbox, ws)"
    and rc': "rc' = \<lparr>rc_ws = ws\<lparr>ws_inbox := inbox\<rparr>, rc_pending = ds\<rparr>"
    using assms(2) by (auto simp: recv_datagram_def split: prod.splits)
  from recv_loop_spec [OF run] assms(1) show ?thesis unfolding rc' sends_succeed_def by auto
qed

definition sample_conn :: relay_conn where
  "sample_conn =
     \<lparr>rc_ws = sample_ws [Inr (Text ''x''), Inr (Binary (9 # replicate 8 7)),
                         Inr (Binary (6 # replicate 32 3 @ [0, 42])), Inl ''closed''],
      rc_pending = []\<rparr>"

lemma sample_conn_recv:
  "recv_datagram sample_conn =
     (Returned (Inr \<lparr>source = replicate 32 3, payload = [42]\<rparr>),
      \<lparr>rc_ws = (sample_ws [Inl ''closed''])\<lparr>ws_sends := 1, ws_sent := [Binary (10 # replicate 8 7)]\<rparr>,
       rc_pending = []\<rparr>)"
  by (simp add: recv_datagram_def sample_conn_def sample_ws_def split_tag_small try_into_array_def
      encode_pong_def decode_relay_datagrams_def)

theorem recv_datagram_delivers_witness:
  "fst (recv_many recv_datagram 5 sample_conn) = [\<lparr>source = replicate 32 3, payload = [42]\<rparr>]"
proof -
  have "relay_backlog sample_conn = [\<lparr>source = replicate 32 3, payload = [42]\<rparr>]"
    by (simp add: relay_backlog_def sample_conn_def sample_ws_def message_datagrams_def
        split_tag_small decode_relay_datagrams_def)
  moreover have "sends_succeed sample_conn"
    by (simp add: sends_succeed_def sample_conn_def sample_ws_def)
  ultimately show ?thesis using recv_datagram_delivers [of sample_conn 5] by simp
qed

theorem recv_datagram_answers_pings_witness:
  "\<exists>r rc'. recv_datagram sample_conn = (r, rc')
     \<and> ws_sent (rc_ws rc') = [Binary (10 # replicate 8 7)]
     \<and> (\<exists>ms. recv_post [] (ws_inbox (rc_ws sample_conn)) ms r (rc_pending rc') (ws_inbox (rc_ws rc')))"
  using recv_datagram_answers_pings [OF _ sample_conn_recv] sample_conn_recv
  by (simp add: sends_succeed_def) (auto simp: sample_conn_def sample_ws_def)

end
