(* ===== verification/Sockets.thy ===== *)
theory Sockets
  imports Prelude
begin

text \<open>
  Model of \<open>endpoint/src/udp.rs\<close>, the direct wire over one bound UDP socket, and of the
  synthetic addresses of \<open>endpoint_impl.rs\<close> (\<open>doc_prefix_addr\<close>). The socket is an imported
  resource: a value holds what its receives give, the error of its \<open>i\<close>-th send, and what was
  sent. Parsing a textual address and the resource's \<open>create\<close>, \<open>bind\<close> and
  \<open>get_local_address\<close> are arguments; errors are their renderings.
\<close>

section \<open>Definitions\<close>

subsection \<open>Addresses\<close>

type_synonym ipv4 = "u8 \<times> u8 \<times> u8 \<times> u8"
type_synonym ipv6 = "u16 \<times> u16 \<times> u16 \<times> u16 \<times> u16 \<times> u16 \<times> u16 \<times> u16"

text \<open>\<open>std::net::SocketAddr\<close>; \<open>SocketAddr::new\<close> on a v6 address sets flow info and scope to 0.\<close>

datatype socket_addr =
    V4 (sa_ip4: ipv4) (sa_port: u16)
  | V6 (sa_ip6: ipv6) (sa_port: u16) (sa_flow: u32) (sa_scope: u32)

record ipv4_socket_address =
  port4 :: u16
  address4 :: ipv4

record ipv6_socket_address =
  port6 :: u16
  flow_info6 :: u32
  address6 :: ipv6
  scope_id6 :: u32

datatype ip_socket_address =
    Ipv4 ipv4_socket_address
  | Ipv6 ipv6_socket_address

datatype ip_address_family = FamilyIpv4 | FamilyIpv6

definition to_wasi :: "socket_addr \<Rightarrow> ip_socket_address" where
  "to_wasi addr =
     (case addr of
        V4 ip port \<Rightarrow> Ipv4 \<lparr>port4 = port, address4 = ip\<rparr>
      | V6 ip port _ _ \<Rightarrow> Ipv6 \<lparr>port6 = port, flow_info6 = 0, address6 = ip, scope_id6 = 0\<rparr>)"

definition from_wasi :: "ip_socket_address \<Rightarrow> socket_addr" where
  "from_wasi addr =
     (case addr of
        Ipv4 v4 \<Rightarrow> V4 (address4 v4) (port4 v4)
      | Ipv6 v6 \<Rightarrow> V6 (address6 v6) (port6 v6) 0 0)"

text \<open>
  The standin of a peer: \<open>2001:db8:space::hi:lo\<close>, port 4433.
\<close>

definition doc_prefix_addr :: "u16 \<Rightarrow> u32 \<Rightarrow> socket_addr" where
  "doc_prefix_addr space host =
     V6 (0x2001, 0xdb8, space, 0, 0, 0, ucast (drop_bit 16 host), ucast host) 4433 0 0"

subsection \<open>The UDP wire\<close>

record udp_socket =
  us_inbox :: "(bytes \<times> ip_socket_address) sresult list"
  us_send_error :: "nat \<Rightarrow> string option"
  us_sends :: nat
  us_sent :: "(ip_socket_address \<times> bytes) list"

record udp_wire =
  uw_socket :: udp_socket
  uw_local :: socket_addr

text \<open>
  The imported constructors: \<open>create\<close> per family, \<open>bind\<close> to an address, and the address bound.
\<close>

record udp_host =
  parse_addr :: "string \<Rightarrow> socket_addr sresult"
  udp_create :: "ip_address_family \<Rightarrow> udp_socket sresult"
  udp_bind_socket :: "udp_socket \<Rightarrow> ip_socket_address \<Rightarrow> udp_socket sresult"
  get_local_address :: "udp_socket \<Rightarrow> ip_socket_address sresult"

definition udp_bind :: "udp_host \<Rightarrow> string \<Rightarrow> udp_wire sresult" where
  "udp_bind H bind_addr =
     (case parse_addr H bind_addr of
        Inl e \<Rightarrow> Inl (''udp bind address '' @ debug_string bind_addr @ '': '' @ e)
      | Inr addr \<Rightarrow>
          (let family = (case addr of V4 _ _ \<Rightarrow> FamilyIpv4 | V6 _ _ _ _ \<Rightarrow> FamilyIpv6)
           in case udp_create H family of
                Inl e \<Rightarrow> Inl (''udp create: '' @ e)
              | Inr socket \<Rightarrow>
                  (case udp_bind_socket H socket (to_wasi addr) of
                     Inl e \<Rightarrow> Inl (''udp bind: '' @ e)
                   | Inr bound \<Rightarrow>
                       (case get_local_address H bound of
                          Inl e \<Rightarrow> Inl (''udp local address: '' @ e)
                        | Inr local \<Rightarrow>
                            Inr \<lparr>uw_socket = bound, uw_local = from_wasi local\<rparr>))))"

definition local_addr :: "udp_wire \<Rightarrow> socket_addr" where
  "local_addr w = uw_local w"

definition udp_send :: "socket_addr \<Rightarrow> bytes \<Rightarrow> udp_wire \<Rightarrow> unit sresult \<times> udp_wire" where
  "udp_send remote data w =
     (let s = uw_socket w; i = us_sends s
      in case us_send_error s i of
           Some e \<Rightarrow> (Inl (''udp send: '' @ e), w\<lparr>uw_socket := s\<lparr>us_sends := Suc i\<rparr>\<rparr>)
         | None \<Rightarrow>
             (Inr (), w\<lparr>uw_socket := s\<lparr>us_sends := Suc i,
                                       us_sent := us_sent s @ [(to_wasi remote, data)]\<rparr>\<rparr>))"

definition udp_wire_receive :: "udp_wire \<Rightarrow> (bytes \<times> socket_addr) sresult async \<times> udp_wire" where
  "udp_wire_receive w =
     (case us_inbox (uw_socket w) of
        [] \<Rightarrow> (Parked, w)
      | Inl e # rest \<Rightarrow> (Returned (Inl e), w\<lparr>uw_socket := (uw_socket w)\<lparr>us_inbox := rest\<rparr>\<rparr>)
      | Inr (data, remote) # rest \<Rightarrow>
          (Returned (Inr (data, from_wasi remote)),
           w\<lparr>uw_socket := (uw_socket w)\<lparr>us_inbox := rest\<rparr>\<rparr>))"

definition self_wake :: "udp_wire \<Rightarrow> unit sresult \<times> udp_wire" where
  "self_wake w = udp_send (uw_local w) [] w"

subsection \<open>Specifications\<close>

text \<open>The part of a socket address that travels: everything but flow info and scope.\<close>

definition plain_addr :: "socket_addr \<Rightarrow> socket_addr" where
  "plain_addr addr = (case addr of V4 ip port \<Rightarrow> V4 ip port | V6 ip port _ _ \<Rightarrow> V6 ip port 0 0)"

fun udp_inbound :: "(bytes \<times> ip_socket_address) sresult list \<Rightarrow> (bytes \<times> socket_addr) list" where
  "udp_inbound (Inr (d, a) # es) = (d, from_wasi a) # udp_inbound es"
| "udp_inbound _ = []"

definition udp_backlog :: "udp_wire \<Rightarrow> (bytes \<times> socket_addr) list" where
  "udp_backlog w = udp_inbound (us_inbox (uw_socket w))"

section \<open>Lemmas\<close>

lemma from_wasi_to_wasi: "from_wasi (to_wasi addr) = plain_addr addr"
  by (simp add: from_wasi_def to_wasi_def plain_addr_def split: socket_addr.split)

lemma plain_addr_from_wasi: "plain_addr (from_wasi a) = from_wasi a"
  by (simp add: from_wasi_def plain_addr_def split: ip_socket_address.split)

lemma doc_prefix_addr_inj: "doc_prefix_addr sp h = doc_prefix_addr sp h' \<longleftrightarrow> h = h'"
proof
  assume eq: "doc_prefix_addr sp h = doc_prefix_addr sp h'"
  then have hi: "(ucast (drop_bit 16 h) :: u16) = ucast (drop_bit 16 h')"
    and lo: "(ucast h :: u16) = ucast h'" by (simp_all add: doc_prefix_addr_def)
  show "h = h'"
  proof (rule bit_word_eqI)
    fix n
    assume n: "n < LENGTH(32)"
    show "bit h n = bit h' n"
    proof (cases "n < 16")
      case True
      then have "bit (ucast h :: u16) n = bit h n" "bit (ucast h' :: u16) n = bit h' n"
        by (simp_all add: bit_simps)
      with lo show ?thesis by simp
    next
      case False
      then have "bit (ucast (drop_bit 16 h) :: u16) (n - 16) = bit h n"
        "bit (ucast (drop_bit 16 h') :: u16) (n - 16) = bit h' n"
        using n by (simp_all add: bit_simps less_diff_conv2)
      with hi show ?thesis by simp
    qed
  qed
qed simp

interpretation udp_source: datagram_source udp_wire_receive udp_backlog "\<lambda>_. True"
  by unfold_locales
     (auto simp: udp_wire_receive_def udp_backlog_def split: list.splits sum.splits prod.splits)

text \<open>An address sent to the host and read back loses exactly the IPv6 flow info and scope:
  the round trip is the identity on an address if and only if both are zero (in particular a
  link-local peer's scope does not survive).\<close>

theorem wasi_address_roundtrip:
  "from_wasi (to_wasi addr) = plain_addr addr
   \<and> (from_wasi (to_wasi addr) = addr \<longleftrightarrow>
       (case addr of V4 _ _ \<Rightarrow> True | V6 _ _ flow scope \<Rightarrow> flow = 0 \<and> scope = 0))"
  by (auto simp: from_wasi_to_wasi plain_addr_def split: socket_addr.split)

text \<open>Repeated receives on the UDP wire deliver the datagrams that arrived before the first
  socket error, in order.\<close>

theorem udp_wire_delivers:
  "fst (recv_many udp_wire_receive n w) = take n (udp_backlog w)"
  by (rule udp_source.recv_many_takes) simp

lemma self_wake_queues:
  "us_send_error (uw_socket w) (us_sends (uw_socket w)) = None \<Longrightarrow>
     us_sent (uw_socket (snd (self_wake w))) = us_sent (uw_socket w) @ [(to_wasi (uw_local w), [])]"
  by (simp add: self_wake_def udp_send_def Let_def)

text \<open>A bound wire's local address is the one the host reports, and it is a plain address, so
  that the self-wake of the teardown is addressed to exactly that address.\<close>

theorem udp_bind_local:
  assumes "udp_bind H text = Inr w"
  shows "\<exists>addr bound. parse_addr H text = Inr addr
           \<and> udp_bind_socket H bound (to_wasi addr) = Inr (uw_socket w)
           \<and> udp_create H (case addr of V4 _ _ \<Rightarrow> FamilyIpv4 | V6 _ _ _ _ \<Rightarrow> FamilyIpv6) = Inr bound
           \<and> (\<exists>host_addr. get_local_address H (uw_socket w) = Inr host_addr
                 \<and> local_addr w = from_wasi host_addr)
           \<and> from_wasi (to_wasi (local_addr w)) = local_addr w"
  using assms
  by (auto simp: udp_bind_def local_addr_def from_wasi_to_wasi plain_addr_from_wasi Let_def
      split: sum.splits)

definition sample_udp_host :: udp_host where
  "sample_udp_host =
     \<lparr>parse_addr = (\<lambda>s. if s = ''0.0.0.0:0'' then Inr (V4 (0, 0, 0, 0) 0) else Inl ''bad''),
      udp_create = (\<lambda>f. Inr \<lparr>us_inbox = [], us_send_error = (\<lambda>_. None), us_sends = 0, us_sent = []\<rparr>),
      udp_bind_socket = (\<lambda>s a. Inr s),
      get_local_address = (\<lambda>s. Inr (Ipv4 \<lparr>port4 = 4000, address4 = (127, 0, 0, 1)\<rparr>))\<rparr>"

theorem udp_bind_local_witness:
  "\<exists>w. udp_bind sample_udp_host ''0.0.0.0:0'' = Inr w \<and> local_addr w = V4 (127, 0, 0, 1) 4000
     \<and> from_wasi (to_wasi (local_addr w)) = local_addr w"
proof -
  obtain w where w: "udp_bind sample_udp_host ''0.0.0.0:0'' = Inr w"
    and l: "local_addr w = V4 (127, 0, 0, 1) 4000"
    by (simp add: udp_bind_def sample_udp_host_def local_addr_def from_wasi_def Let_def)
  with udp_bind_local [OF w] show ?thesis by blast
qed

end
