(* ===== verification/Endpoint_State.thy ===== *)
theory Endpoint_State
  imports Sockets Identity
begin

text \<open>
  Model of the shared \<open>State\<close> of \<open>endpoint/src/endpoint_impl.rs\<close> and its operations (the
  address book of peer standins, the route table, the relay pool, the signaling slots, the
  channel table, and the entry of datagrams into the QUIC state machine). The QUIC
  implementation \<open>noq-proto\<close> is another package: its endpoint, connections and events are
  type variables, its operations the record \<open>noq\<close> that every definition using them takes as
  an argument. Relay connections and channel wires are shared objects (\<open>Rc\<close>): the state holds
  references to them. A hash map that the code iterates over is an association list, one
  that it only looks up is a map; \<open>Instant\<close>s are nanosecond counts, passed in where the code
  reads the clock. A Rust panic is a value of type \<open>panic\<close>.
\<close>

section \<open>Definitions\<close>

subsection \<open>The QUIC implementation\<close>

datatype dir = Bi | Uni

text \<open>
  A connection handle and a stream identifier are numbers. \<open>buf[..transmit.size]\<close> is what a
  transmit carries: the operations return the buffer beside it.
\<close>

record transmit =
  destination :: socket_addr
  tx_size :: nat

datatype ('i, 'ce) datagram_event =
    ConnectionEvent nat 'ce
  | NewConnection 'i
  | Response transmit

text \<open>The causes of a loss that the code tells apart; the others as they render.\<close>

datatype connection_error = ApplicationClosed | LocallyClosed | OtherLoss string

datatype event =
    HandshakeDataReady
  | HandshakeConfirmed
  | PathEvent
  | NatTraversal
  | Connected
  | StreamOpened dir
  | StreamReadable nat
  | StreamEvent
  | DatagramReceived
  | DatagramsUnblocked
  | ConnectionLost connection_error

record ('n, 'c, 'i, 'ce, 'ee) noq =
  nq_handle :: "nat \<Rightarrow> socket_addr \<Rightarrow> bytes \<Rightarrow> 'n \<Rightarrow> ('i, 'ce) datagram_event option \<times> bytes \<times> 'n"
  nq_accept :: "'i \<Rightarrow> nat \<Rightarrow> 'n \<Rightarrow> (transmit option + nat \<times> 'c) \<times> bytes \<times> 'n"
  nq_handle_event :: "nat \<Rightarrow> 'ee \<Rightarrow> 'n \<Rightarrow> 'ce option \<times> 'n"
  nc_handle_event :: "'ce \<Rightarrow> 'c \<Rightarrow> 'c"
  nc_poll_endpoint_events :: "'c \<Rightarrow> 'ee option \<times> 'c"
  nc_poll :: "'c \<Rightarrow> event option \<times> 'c"
  nc_poll_transmit :: "nat \<Rightarrow> 'c \<Rightarrow> transmit option \<times> bytes \<times> 'c"
  nc_is_drained :: "'c \<Rightarrow> bool"
  nc_poll_timeout :: "'c \<Rightarrow> nat option \<times> 'c"
  nc_handle_timeout :: "nat \<Rightarrow> 'c \<Rightarrow> 'c"
  nc_close :: "nat \<Rightarrow> u32 \<Rightarrow> bytes \<Rightarrow> 'c \<Rightarrow> 'c"
  nc_streams_accept :: "dir \<Rightarrow> 'c \<Rightarrow> nat option \<times> 'c"
  nc_handshake_data :: "'c \<Rightarrow> bytes option option"
  nc_peer_identity :: "'c \<Rightarrow> bytes list option"
  spki_key :: "bytes \<Rightarrow> endpoint_id option"

subsection \<open>The state\<close>

datatype route_wire = Relay u32 | Channel u32

definition HOME_RELAY :: u32 where
  [simp]: "HOME_RELAY = 0"

type_synonym relay_ref = nat
type_synonym wire_ref = nat

record channel_entry =
  ch_wire :: wire_ref
  ch_peer :: endpoint_id
  ch_fallback_relay :: u32

record 'c conn_entry =
  ce_conn :: 'c
  ce_expected_peer :: "endpoint_id option"
  ce_peer :: "endpoint_id option"
  ce_accepted_side :: bool
  ce_connected :: bool
  ce_alpn :: bytes
  ce_error :: "error option"
  ce_drained :: bool
  ce_bi_queue :: "nat list"
  ce_uni_queue :: "nat list"

definition conn_entry_new :: "'c \<Rightarrow> endpoint_id option \<Rightarrow> bool \<Rightarrow> 'c conn_entry" where
  "conn_entry_new conn expected accepted =
     \<lparr>ce_conn = conn, ce_expected_peer = expected, ce_peer = None, ce_accepted_side = accepted,
      ce_connected = False, ce_alpn = [], ce_error = None, ce_drained = False,
      ce_bi_queue = [], ce_uni_queue = []\<rparr>"

record ('n, 'c) state =
  st_noq :: 'n
  st_conns :: "(nat \<times> 'c conn_entry) list"
  st_peer_to_addr :: "endpoint_id \<rightharpoonup> socket_addr"
  st_addr_to_peer :: "socket_addr \<rightharpoonup> endpoint_id"
  st_next_host :: u32
  st_accept_queue :: "nat list"
  st_relay_outbound :: "(u32 \<times> endpoint_id \<times> bytes) list"
  st_udp_outbound :: "(socket_addr \<times> bytes) list"
  st_channel_outbound :: "(u32 \<times> bytes) list"
  st_routes :: "socket_addr \<rightharpoonup> route_wire"
  st_relay_pool :: "(u32 \<times> relay_ref) list"
  st_relay_keys :: "string \<rightharpoonup> u32"
  st_relay_opening :: "string set"
  st_new_relays :: "(u32 \<times> relay_ref) list"
  st_next_relay_key :: u32
  st_pending_upgrades :: "(endpoint_id \<times> u32) list"
  st_webrtc_enabled :: bool
  st_signaling :: "endpoint_id \<rightharpoonup> u32"
  st_signal_inboxes :: "endpoint_id \<rightharpoonup> bytes list"
  st_channels :: "(u32 \<times> channel_entry) list"
  st_new_channels :: "(u32 \<times> wire_ref) list"
  st_next_channel_id :: u32
  st_closed :: bool
  st_closed_at :: "nat option"
  st_dead :: "string option"

definition state_new :: "'n \<Rightarrow> bool \<Rightarrow> ('n, 'c) state" where
  "state_new noq webrtc_enabled =
     \<lparr>st_noq = noq, st_conns = [], st_peer_to_addr = Map.empty, st_addr_to_peer = Map.empty,
      st_next_host = 0, st_accept_queue = [], st_relay_outbound = [], st_udp_outbound = [],
      st_channel_outbound = [], st_routes = Map.empty, st_relay_pool = [],
      st_relay_keys = Map.empty, st_relay_opening = {}, st_new_relays = [],
      st_next_relay_key = 0, st_pending_upgrades = [], st_webrtc_enabled = webrtc_enabled,
      st_signaling = Map.empty, st_signal_inboxes = Map.empty, st_channels = [],
      st_new_channels = [], st_next_channel_id = 0, st_closed = False, st_closed_at = None,
      st_dead = None\<rparr>"

subsection \<open>Standins and relays\<close>

definition addr_for_peer :: "endpoint_id \<Rightarrow> u32 \<Rightarrow> ('n, 'c) state \<Rightarrow> socket_addr \<times> ('n, 'c) state" where
  "addr_for_peer peer via s =
     (case st_peer_to_addr s peer of
        Some addr \<Rightarrow> (addr, s)
      | None \<Rightarrow>
          (let host = st_next_host s + 1;
               addr = doc_prefix_addr 0x77 host
           in (addr, s\<lparr>st_next_host := host,
                       st_peer_to_addr := (st_peer_to_addr s)(peer \<mapsto> addr),
                       st_addr_to_peer := (st_addr_to_peer s)(addr \<mapsto> peer),
                       st_routes := (st_routes s)(addr \<mapsto> Relay via)\<rparr>)))"

text \<open>\<open>str::trim_end_matches('/')\<close>.\<close>

definition normalize_relay_url :: "string \<Rightarrow> string" where
  "normalize_relay_url url = rev (dropWhile (\<lambda>c. c = CHR ''/'') (rev url))"

definition register_relay :: "string \<Rightarrow> relay_ref \<Rightarrow> ('n, 'c) state \<Rightarrow> u32 \<times> ('n, 'c) state" where
  "register_relay url conn s =
     (let key = st_next_relay_key s
      in (key, s\<lparr>st_next_relay_key := key + 1,
                 st_relay_pool := AList.update key conn (st_relay_pool s),
                 st_relay_keys := (st_relay_keys s)(normalize_relay_url url \<mapsto> key),
                 st_new_relays := st_new_relays s @ [(key, conn)]\<rparr>))"

definition is_closed_or_dead :: "('n, 'c) state \<Rightarrow> bool" where
  "is_closed_or_dead s \<longleftrightarrow> st_closed s \<or> st_dead s \<noteq> None"

subsection \<open>Signaling slots\<close>

definition begin_signaling :: "endpoint_id \<Rightarrow> u32 \<Rightarrow> ('n, 'c) state \<Rightarrow> unit result \<times> ('n, 'c) state" where
  "begin_signaling peer relay s =
     (if st_signaling s peer \<noteq> None
      then (Inl (ConnectFailed ''a webrtc signaling session with this peer is already active''), s)
      else (Inr (), s\<lparr>st_signaling := (st_signaling s)(peer \<mapsto> relay)\<rparr>))"

definition end_signaling :: "endpoint_id \<Rightarrow> ('n, 'c) state \<Rightarrow> ('n, 'c) state" where
  "end_signaling peer s =
     s\<lparr>st_signaling := (st_signaling s)(peer := None),
       st_signal_inboxes := (st_signal_inboxes s)(peer := None)\<rparr>"

definition signaling_relay :: "endpoint_id \<Rightarrow> ('n, 'c) state \<Rightarrow> u32 option" where
  "signaling_relay peer s = st_signaling s peer"

definition push_signal_outbound ::
  "u32 \<Rightarrow> endpoint_id \<Rightarrow> bytes \<Rightarrow> ('n, 'c) state \<Rightarrow> ('n, 'c) state" where
  "push_signal_outbound relay peer data s =
     s\<lparr>st_relay_outbound := st_relay_outbound s @ [(relay, peer, data)]\<rparr>"

definition pop_signal_inbox :: "endpoint_id \<Rightarrow> ('n, 'c) state \<Rightarrow> bytes option \<times> ('n, 'c) state" where
  "pop_signal_inbox peer s =
     (case st_signal_inboxes s peer of
        None \<Rightarrow> (None, s)
      | Some [] \<Rightarrow> (None, s)
      | Some (m # ms) \<Rightarrow> (Some m, s\<lparr>st_signal_inboxes := (st_signal_inboxes s)(peer \<mapsto> ms)\<rparr>))"

definition INBOX_CAP :: nat where
  "INBOX_CAP = 64"

text \<open>
  The state part of \<open>handle_signal\<close>; the result says whether the caller spawns an answerer.
\<close>

definition handle_signal ::
  "u32 \<Rightarrow> endpoint_id \<Rightarrow> bytes \<Rightarrow> ('n, 'c) state \<Rightarrow> bool \<times> ('n, 'c) state" where
  "handle_signal via src data s =
     (if \<not> st_webrtc_enabled s \<or> is_closed_or_dead s then (False, s)
      else
        (let spawn_answerer = (st_signaling s src = None);
             s1 = (if spawn_answerer then s\<lparr>st_signaling := (st_signaling s)(src \<mapsto> via)\<rparr> else s);
             inbox = (case st_signal_inboxes s1 src of None \<Rightarrow> [] | Some q \<Rightarrow> q);
             inbox' = (if length inbox < INBOX_CAP then inbox @ [data] else inbox)
         in (spawn_answerer,
             s1\<lparr>st_signal_inboxes := (st_signal_inboxes s1)(src \<mapsto> inbox')\<rparr>)))"

subsection \<open>Channels\<close>

text \<open>
  A refused wire is closed: the result names the wire to close in its error case.
\<close>

definition register_channel ::
  "endpoint_id \<Rightarrow> wire_ref \<Rightarrow> ('n, 'c) state \<Rightarrow> unit result \<times> wire_ref list \<times> ('n, 'c) state" where
  "register_channel peer wire s =
     (if is_closed_or_dead s then (Inl Closed, [wire], s)
      else
        (let fallback_relay = (case signaling_relay peer s of Some r \<Rightarrow> r | None \<Rightarrow> HOME_RELAY);
             cid = st_next_channel_id s + 1;
             s1 = s\<lparr>st_next_channel_id := cid,
                    st_channels := AList.update cid
                      \<lparr>ch_wire = wire, ch_peer = peer, ch_fallback_relay = fallback_relay\<rparr>
                      (st_channels s),
                    st_new_channels := st_new_channels s @ [(cid, wire)]\<rparr>;
             (synthetic, s2) = addr_for_peer peer fallback_relay s1
         in (Inr (), [], s2\<lparr>st_routes := (st_routes s2)(synthetic \<mapsto> Channel cid)\<rparr>)))"

definition retire_channel :: "u32 \<Rightarrow> ('n, 'c) state \<Rightarrow> ('n, 'c) state" where
  "retire_channel cid s =
     (case map_of (st_channels s) cid of
        None \<Rightarrow> s
      | Some entry \<Rightarrow>
          (let s1 = s\<lparr>st_channels := AList.delete cid (st_channels s)\<rparr>
           in case st_peer_to_addr s1 (ch_peer entry) of
                None \<Rightarrow> s1
              | Some synthetic \<Rightarrow>
                  (if st_routes s1 synthetic = Some (Channel cid)
                   then s1\<lparr>st_routes := (st_routes s1)(synthetic \<mapsto> Relay (ch_fallback_relay entry))\<rparr>
                   else s1)))"

subsection \<open>Closing\<close>

definition map_entries :: "('c conn_entry \<Rightarrow> 'c conn_entry) \<Rightarrow> ('n, 'c) state \<Rightarrow> ('n, 'c) state" where
  "map_entries f s = s\<lparr>st_conns := map (\<lambda>(h, e). (h, f e)) (st_conns s)\<rparr>"

definition mark_dead :: "string \<Rightarrow> ('n, 'c) state \<Rightarrow> ('n, 'c) state" where
  "mark_dead reason s =
     map_entries (\<lambda>e. if ce_error e = None then e\<lparr>ce_error := Some Closed\<rparr> else e)
       (s\<lparr>st_dead := Some reason\<rparr>)"

definition close_all ::
  "('n, 'c, 'i, 'ce, 'ee, 'z) noq_scheme \<Rightarrow> nat \<Rightarrow> string \<Rightarrow> ('n, 'c) state \<Rightarrow> ('n, 'c) state" where
  "close_all N now reason =
     map_entries (\<lambda>e. if ce_error e = None \<and> \<not> ce_drained e
                      then e\<lparr>ce_conn := nc_close N now 0 (string_bytes reason) (ce_conn e)\<rparr>
                      else e)"

definition handle_timeouts ::
  "('n, 'c, 'i, 'ce, 'ee, 'z) noq_scheme \<Rightarrow> nat \<Rightarrow> ('n, 'c) state \<Rightarrow> ('n, 'c) state" where
  "handle_timeouts N now =
     map_entries (\<lambda>e. case nc_poll_timeout N (ce_conn e) of
                        (Some deadline, c) \<Rightarrow>
                          e\<lparr>ce_conn := (if deadline \<le> now then nc_handle_timeout N now c else c)\<rparr>
                      | (None, c) \<Rightarrow> e\<lparr>ce_conn := c\<rparr>)"

subsection \<open>Datagrams into the QUIC state machine\<close>

text \<open>\<open>&buf[..size]\<close>.\<close>

definition slice_to :: "nat \<Rightarrow> bytes \<Rightarrow> panic + bytes" where
  "slice_to n buf = (if n \<le> length buf then Inr (take n buf) else Inl SliceOutOfRange)"

definition push_response ::
  "socket_addr \<Rightarrow> endpoint_id option \<Rightarrow> bytes \<Rightarrow> ('n, 'c) state \<Rightarrow> ('n, 'c) state" where
  "push_response addr src data s =
     (case (st_routes s addr, src) of
        (Some (Relay key), Some peer) \<Rightarrow>
          s\<lparr>st_relay_outbound := st_relay_outbound s @ [(key, peer, data)]\<rparr>
      | (Some (Channel cid), _) \<Rightarrow>
          s\<lparr>st_channel_outbound := st_channel_outbound s @ [(cid, data)]\<rparr>
      | _ \<Rightarrow> s\<lparr>st_udp_outbound := st_udp_outbound s @ [(addr, data)]\<rparr>)"

definition respond ::
  "socket_addr \<Rightarrow> endpoint_id option \<Rightarrow> transmit \<Rightarrow> bytes \<Rightarrow> ('n, 'c) state \<Rightarrow> panic + ('n, 'c) state" where
  "respond addr src tx buf s =
     (case slice_to (tx_size tx) buf of
        Inl p \<Rightarrow> Inl p
      | Inr data \<Rightarrow> Inr (push_response addr src data s))"

definition handle_datagram ::
  "('n, 'c, 'i, 'ce, 'ee, 'z) noq_scheme \<Rightarrow> nat \<Rightarrow> socket_addr \<Rightarrow> endpoint_id option \<Rightarrow> bytes
     \<Rightarrow> ('n, 'c) state \<Rightarrow> panic + ('n, 'c) state" where
  "handle_datagram N now addr src data s =
     (case nq_handle N now addr data (st_noq s) of
        (ev, buf, n) \<Rightarrow>
          (let s1 = s\<lparr>st_noq := n\<rparr>
           in case ev of
                Some (ConnectionEvent handle event) \<Rightarrow>
                  (case map_of (st_conns s1) handle of
                     None \<Rightarrow> Inr s1
                   | Some e \<Rightarrow>
                       Inr (s1\<lparr>st_conns := AList.update handle
                                  (e\<lparr>ce_conn := nc_handle_event N event (ce_conn e)\<rparr>)
                                  (st_conns s1)\<rparr>))
              | Some (NewConnection incoming) \<Rightarrow>
                  (if st_closed s1 then Inr s1
                   else
                     (case nq_accept N incoming now (st_noq s1) of
                        (Inr (handle, conn), buf', n') \<Rightarrow>
                          Inr (s1\<lparr>st_noq := n',
                                  st_conns := AList.update handle (conn_entry_new conn src True)
                                                (st_conns s1)\<rparr>)
                      | (Inl (Some tx), buf', n') \<Rightarrow> respond addr src tx buf' (s1\<lparr>st_noq := n'\<rparr>)
                      | (Inl None, buf', n') \<Rightarrow> Inr (s1\<lparr>st_noq := n'\<rparr>)))
              | Some (Response tx) \<Rightarrow> respond addr src tx buf s1
              | None \<Rightarrow> Inr s1))"

definition handle_relay_datagram ::
  "('n, 'c, 'i, 'ce, 'ee, 'z) noq_scheme \<Rightarrow> nat \<Rightarrow> u32 \<Rightarrow> endpoint_id \<Rightarrow> bytes
     \<Rightarrow> ('n, 'c) state \<Rightarrow> panic + ('n, 'c) state" where
  "handle_relay_datagram N now via src data s =
     (case addr_for_peer src via s of
        (addr, s1) \<Rightarrow> handle_datagram N now addr (Some src) data s1)"

definition handle_udp_datagram ::
  "('n, 'c, 'i, 'ce, 'ee, 'z) noq_scheme \<Rightarrow> nat \<Rightarrow> socket_addr \<Rightarrow> bytes
     \<Rightarrow> ('n, 'c) state \<Rightarrow> panic + ('n, 'c) state" where
  "handle_udp_datagram N now remote data s = handle_datagram N now remote None data s"

definition handle_channel_datagram ::
  "('n, 'c, 'i, 'ce, 'ee, 'z) noq_scheme \<Rightarrow> nat \<Rightarrow> u32 \<Rightarrow> bytes
     \<Rightarrow> ('n, 'c) state \<Rightarrow> panic + ('n, 'c) state" where
  "handle_channel_datagram N now cid data s =
     (case map_of (st_channels s) cid of
        None \<Rightarrow> Inr s
      | Some entry \<Rightarrow>
          (case addr_for_peer (ch_peer entry) (ch_fallback_relay entry) s of
             (synthetic, s1) \<Rightarrow> handle_datagram N now synthetic (Some (ch_peer entry)) data s1))"

subsection \<open>Invariants\<close>

text \<open>
  The address book: every standin is one of the first \<open>next_host\<close> documentation addresses, the
  two maps are inverse to each other, and exactly the standins are routed. The numbers are 32
  bits wide, so the first two hold while fewer than \<open>2^32\<close> peers were seen.
\<close>

definition standins_ok :: "('n, 'c) state \<Rightarrow> bool" where
  "standins_ok s \<longleftrightarrow>
     unat (st_next_host s) = card (dom (st_peer_to_addr s))
     \<and> (\<forall>p a. st_peer_to_addr s p = Some a \<longleftrightarrow> st_addr_to_peer s a = Some p)
     \<and> (\<forall>p a. st_peer_to_addr s p = Some a \<longrightarrow>
            (\<exists>k. a = doc_prefix_addr 0x77 k \<and> 0 < k \<and> k \<le> st_next_host s))"

definition book_ok :: "('n, 'c) state \<Rightarrow> bool" where
  "book_ok s \<longleftrightarrow>
     finite (dom (st_peer_to_addr s))
     \<and> ran (st_peer_to_addr s) \<subseteq> dom (st_routes s)
     \<and> dom (st_routes s) = dom (st_addr_to_peer s)
     \<and> (\<forall>a\<in>dom (st_routes s). \<exists>k. a = doc_prefix_addr 0x77 k)
     \<and> (card (dom (st_peer_to_addr s)) < 2 ^ 32 \<longrightarrow> standins_ok s)"

text \<open>
  A connection entry is \<open>connected\<close> exactly when it has an authenticated peer, which is the
  expected one where one was expected.
\<close>

definition entry_ok :: "'c conn_entry \<Rightarrow> bool" where
  "entry_ok e \<longleftrightarrow>
     (ce_connected e \<longleftrightarrow> ce_peer e \<noteq> None)
     \<and> (ce_connected e \<and> ce_expected_peer e \<noteq> None \<longrightarrow> ce_peer e = ce_expected_peer e)"

definition entries_ok :: "('n, 'c) state \<Rightarrow> bool" where
  "entries_ok s \<longleftrightarrow> distinct (map fst (st_conns s)) \<and> (\<forall>e\<in>snd ` set (st_conns s). entry_ok e)"

definition queue_ok :: "('n, 'c) state \<Rightarrow> bool" where
  "queue_ok s \<longleftrightarrow> set (st_accept_queue s) \<subseteq> fst ` set (st_conns s)"

text \<open>Signals are kept only for peers with a session, and at most 64 of them.\<close>

definition signals_ok :: "('n, 'c) state \<Rightarrow> bool" where
  "signals_ok s \<longleftrightarrow>
     dom (st_signal_inboxes s) \<subseteq> dom (st_signaling s)
     \<and> (\<forall>q\<in>ran (st_signal_inboxes s). length q \<le> INBOX_CAP)"

text \<open>Without the WebRTC option there are no sessions, no channels and no channel routes.\<close>

definition webrtc_ok :: "('n, 'c) state \<Rightarrow> bool" where
  "webrtc_ok s \<longleftrightarrow>
     (\<not> st_webrtc_enabled s \<longrightarrow>
        st_pending_upgrades s = [] \<and> st_signaling s = Map.empty \<and> st_channels s = []
        \<and> (\<forall>a cid. st_routes s a \<noteq> Some (Channel cid)))"

text \<open>The home relay stays in the pool and every known URL has an allotted key.\<close>

definition pool_ok :: "('n, 'c) state \<Rightarrow> bool" where
  "pool_ok s \<longleftrightarrow> map_of (st_relay_pool s) HOME_RELAY \<noteq> None"

definition state_inv :: "('n, 'c) state \<Rightarrow> bool" where
  "state_inv s \<longleftrightarrow>
     book_ok s \<and> entries_ok s \<and> queue_ok s \<and> signals_ok s \<and> webrtc_ok s \<and> pool_ok s"

lemmas inv_defs = state_inv_def entries_ok_def queue_ok_def signals_ok_def webrtc_ok_def pool_ok_def

section \<open>Lemmas\<close>

subsection \<open>The address book\<close>

lemma addr_for_peer_known:
  "st_peer_to_addr s p = Some a \<Longrightarrow> addr_for_peer p via s = (a, s)"
  by (simp add: addr_for_peer_def)

lemma addr_for_peer_new:
  "st_peer_to_addr s p = None \<Longrightarrow>
     addr_for_peer p via s =
       (doc_prefix_addr 0x77 (st_next_host s + 1),
        s\<lparr>st_next_host := st_next_host s + 1,
          st_peer_to_addr := (st_peer_to_addr s)(p \<mapsto> doc_prefix_addr 0x77 (st_next_host s + 1)),
          st_addr_to_peer := (st_addr_to_peer s)(doc_prefix_addr 0x77 (st_next_host s + 1) \<mapsto> p),
          st_routes := (st_routes s)(doc_prefix_addr 0x77 (st_next_host s + 1) \<mapsto> Relay via)\<rparr>)"
  by (simp add: addr_for_peer_def Let_def)

lemma addr_for_peer_cases [consumes 1, case_names known new]:
  assumes "addr_for_peer p via s = (a, s')"
    and "st_peer_to_addr s p = Some a \<Longrightarrow> s' = s \<Longrightarrow> thesis"
    and "st_peer_to_addr s p = None \<Longrightarrow> a = doc_prefix_addr 0x77 (st_next_host s + 1) \<Longrightarrow>
         s' = s\<lparr>st_next_host := st_next_host s + 1,
                st_peer_to_addr := (st_peer_to_addr s)(p \<mapsto> a),
                st_addr_to_peer := (st_addr_to_peer s)(a \<mapsto> p),
                st_routes := (st_routes s)(a \<mapsto> Relay via)\<rparr> \<Longrightarrow> thesis"
  shows thesis
proof (cases "st_peer_to_addr s p")
  case None
  show ?thesis
    using addr_for_peer_new [OF None, of via] assms(1) by (intro assms(3) None) auto
next
  case (Some b)
  show ?thesis
    by (rule assms(2)) (use assms(1) Some in \<open>simp_all add: addr_for_peer_known\<close>)
qed

lemma standins_ok_new:
  assumes ok: "standins_ok s" and new: "st_peer_to_addr s p = None"
    and fin: "finite (dom (st_peer_to_addr s))"
    and room: "card (dom (st_peer_to_addr s)) + 1 < 2 ^ 32"
    and a: "a = doc_prefix_addr 0x77 (st_next_host s + 1)"
  shows "standins_ok (s\<lparr>st_next_host := st_next_host s + 1,
                        st_peer_to_addr := (st_peer_to_addr s)(p \<mapsto> a),
                        st_addr_to_peer := (st_addr_to_peer s)(a \<mapsto> p),
                        st_routes := R\<rparr>)"
proof -
  let ?n = "st_next_host s"
  have n: "unat ?n = card (dom (st_peer_to_addr s))" using ok by (simp add: standins_ok_def)
  with room have "unat ?n + 1 < 2 ^ 32" by simp
  then have n1: "unat (?n + 1) = unat ?n + 1"
    using unat_add_lem [of ?n 1] by simp
  have less: "?n < ?n + 1" using n1 by (simp add: word_less_nat_alt)
  have fresh: "st_peer_to_addr s q \<noteq> Some a" for q
  proof
    assume "st_peer_to_addr s q = Some a"
    then obtain k where "a = doc_prefix_addr 0x77 k" "k \<le> ?n"
      using ok unfolding standins_ok_def by blast
    then have "k = ?n + 1" using a doc_prefix_addr_inj by blast
    with \<open>k \<le> ?n\<close> less show False by simp
  qed
  have "card (dom ((st_peer_to_addr s)(p \<mapsto> a))) = card (dom (st_peer_to_addr s)) + 1"
    using new fin by (simp add: domIff)
  moreover have "\<exists>k. b = doc_prefix_addr 0x77 k \<and> 0 < k \<and> k \<le> ?n + 1"
    if "((st_peer_to_addr s)(p \<mapsto> a)) q = Some b" for q b
  proof (cases "q = p")
    case True
    with that a n1 show ?thesis by (intro exI [of _ "?n + 1"]) (simp add: word_less_nat_alt)
  next
    case False
    with that have "st_peer_to_addr s q = Some b" by simp
    then obtain k where "b = doc_prefix_addr 0x77 k" "0 < k" "k \<le> ?n"
      using ok unfolding standins_ok_def by blast
    moreover from this less have "k \<le> ?n + 1" by simp
    ultimately show ?thesis by blast
  qed
  moreover have "((st_peer_to_addr s)(p \<mapsto> a)) q = Some b \<longleftrightarrow> ((st_addr_to_peer s)(a \<mapsto> p)) b = Some q"
    for q b
  proof -
    have inverse: "st_peer_to_addr s q' = Some b' \<longleftrightarrow> st_addr_to_peer s b' = Some q'" for q' b'
      using ok unfolding standins_ok_def by blast
    have "st_addr_to_peer s b \<noteq> Some p" using new inverse [of p b] by simp
    with fresh [of q] inverse [of q b] show ?thesis by auto
  qed
  ultimately show ?thesis using n n1 by (simp add: standins_ok_def)
qed

lemma book_ok_addr_for_peer:
  assumes "book_ok s" and "addr_for_peer p via s = (a, s')"
  shows "book_ok s'"
  using assms(2)
proof (cases rule: addr_for_peer_cases)
  case known
  with assms(1) show ?thesis by simp
next
  case new
  have fin: "finite (dom (st_peer_to_addr s))" using assms(1) by (simp add: book_ok_def)
  have "card (dom (st_peer_to_addr s')) = card (dom (st_peer_to_addr s)) + 1"
    using new fin by (simp add: domIff)
  then have "card (dom (st_peer_to_addr s')) < 2 ^ 32 \<Longrightarrow> standins_ok s'"
    using standins_ok_new [OF _ new(1) fin _ new(2)] assms(1) new(3) by (auto simp: book_ok_def)
  moreover have "ran (st_peer_to_addr s') \<subseteq> insert a (ran (st_peer_to_addr s))"
    using new by (auto simp: ran_def)
  ultimately show ?thesis using assms(1) new fin unfolding book_ok_def by auto
qed

interpretation standins: directory "\<lambda>p. addr_for_peer p via" st_peer_to_addr
    "\<lambda>n s. book_ok s \<and> card (dom (st_peer_to_addr s)) + n < 2 ^ 32" for via
proof
  fix n s and k k' :: endpoint_id and v v' s'
  show "st_peer_to_addr s' k = Some v" if "addr_for_peer k via s = (v, s')"
    using that by (cases rule: addr_for_peer_cases) auto
  show "st_peer_to_addr s' k' = Some v'" if "addr_for_peer k via s = (v, s')"
    "st_peer_to_addr s k' = Some v'"
    using that by (cases rule: addr_for_peer_cases) auto
  show "book_ok s' \<and> card (dom (st_peer_to_addr s')) + n < 2 ^ 32"
    if "book_ok s \<and> card (dom (st_peer_to_addr s)) + Suc n < 2 ^ 32" "addr_for_peer k via s = (v, s')"
  proof -
    from that(2) have "card (dom (st_peer_to_addr s')) \<le> card (dom (st_peer_to_addr s)) + 1"
    proof (cases rule: addr_for_peer_cases)
      case new
      with that(1) show ?thesis by (simp add: book_ok_def card_insert_if)
    qed simp
    with that book_ok_addr_for_peer show ?thesis by fastforce
  qed
  show "k = k'" if "book_ok s \<and> card (dom (st_peer_to_addr s)) + n < 2 ^ 32"
    "st_peer_to_addr s k = Some v" "st_peer_to_addr s k' = Some v"
    using that by (auto simp: book_ok_def standins_ok_def)
qed

text \<open>C24. The standin addresses of any sequence of requests tell peers apart: two requests get
  the same address exactly when they name the same peer, as long as fewer than \<open>2^32\<close> peers
  are known.\<close>

theorem standins_distinguish_peers:
  assumes "book_ok s" and "card (dom (st_peer_to_addr s)) + length ps < 2 ^ 32"
    and "alloc_all (\<lambda>p. addr_for_peer p via) ps s = (as, s')" and "i < length ps" and "j < length ps"
  shows "as ! i = as ! j \<longleftrightarrow> ps ! i = ps ! j"
  using standins.alloc_all_faithful [of s ps via as s'] assms by simp

theorem standins_distinguish_peers_witness:
  "\<exists>as s'. alloc_all (\<lambda>p. addr_for_peer p 0) [[1], [2], [1]] (state_new () True :: (unit, unit) state) = (as, s')
     \<and> (as ! 0 = as ! 2 \<longleftrightarrow> [[1], [2], [1 :: u8]] ! 0 = [[1], [2], [1]] ! 2)"
proof -
  let ?s = "state_new () True :: (unit, unit) state"
  obtain as s' where run: "alloc_all (\<lambda>p. addr_for_peer p 0) [[1], [2], [1]] ?s = (as, s')" by force
  have "book_ok ?s" by (simp add: book_ok_def standins_ok_def state_new_def)
  then have "as ! 0 = as ! 2 \<longleftrightarrow> [[1], [2], [1 :: u8]] ! 0 = [[1], [2], [1]] ! 2"
    by (intro standins_distinguish_peers [OF _ _ run]) (simp_all add: state_new_def)
  with run show ?thesis by blast
qed

subsection \<open>The operations keep the invariant\<close>

lemma set_update: "(h, e) \<in> set (AList.update k v xs) \<Longrightarrow> e = v \<or> (h, e) \<in> set xs"
  by (induction xs) (auto split: if_splits)

lemma book_ok_frame [simp]:
  "book_ok (s\<lparr>st_noq := n\<rparr>) = book_ok s"
  "book_ok (s\<lparr>st_conns := cs\<rparr>) = book_ok s"
  "book_ok (s\<lparr>st_accept_queue := aq\<rparr>) = book_ok s"
  "book_ok (s\<lparr>st_relay_outbound := ro\<rparr>) = book_ok s"
  "book_ok (s\<lparr>st_udp_outbound := uo\<rparr>) = book_ok s"
  "book_ok (s\<lparr>st_channel_outbound := co\<rparr>) = book_ok s"
  "book_ok (s\<lparr>st_relay_pool := rp\<rparr>) = book_ok s"
  "book_ok (s\<lparr>st_relay_keys := rk\<rparr>) = book_ok s"
  "book_ok (s\<lparr>st_relay_opening := opening\<rparr>) = book_ok s"
  "book_ok (s\<lparr>st_new_relays := nr\<rparr>) = book_ok s"
  "book_ok (s\<lparr>st_next_relay_key := nrk\<rparr>) = book_ok s"
  "book_ok (s\<lparr>st_pending_upgrades := pu\<rparr>) = book_ok s"
  "book_ok (s\<lparr>st_signaling := sg\<rparr>) = book_ok s"
  "book_ok (s\<lparr>st_signal_inboxes := si\<rparr>) = book_ok s"
  "book_ok (s\<lparr>st_channels := ch\<rparr>) = book_ok s"
  "book_ok (s\<lparr>st_new_channels := nch\<rparr>) = book_ok s"
  "book_ok (s\<lparr>st_next_channel_id := nci\<rparr>) = book_ok s"
  "book_ok (s\<lparr>st_closed := cl\<rparr>) = book_ok s"
  "book_ok (s\<lparr>st_closed_at := ca\<rparr>) = book_ok s"
  "book_ok (s\<lparr>st_dead := d\<rparr>) = book_ok s"
  by (simp_all add: book_ok_def standins_ok_def)

lemma entries_ok_put:
  "entries_ok s \<Longrightarrow> entry_ok e \<Longrightarrow>
     entries_ok (s\<lparr>st_conns := AList.update h e (st_conns s)\<rparr>)"
  by (auto simp: entries_ok_def distinct_update dest: set_update)

lemma entry_ok_new [simp]: "entry_ok (conn_entry_new c x acc)"
  by (simp add: entry_ok_def conn_entry_new_def)

lemma entry_ok_conn [simp]: "entry_ok (e\<lparr>ce_conn := c\<rparr>) = entry_ok e"
  by (simp add: entry_ok_def)

lemma entry_ok_error [simp]: "entry_ok (e\<lparr>ce_error := x\<rparr>) = entry_ok e"
  by (simp add: entry_ok_def)

lemma entry_of_ok: "entries_ok s \<Longrightarrow> map_of (st_conns s) h = Some e \<Longrightarrow> entry_ok e"
  by (force simp: entries_ok_def dest: map_of_SomeD)

text \<open>Fields the invariant does not read.\<close>

lemma state_inv_frame [simp]:
  "state_inv (s\<lparr>st_noq := n\<rparr>) = state_inv s"
  "state_inv (s\<lparr>st_relay_outbound := r\<rparr>) = state_inv s"
  "state_inv (s\<lparr>st_udp_outbound := u\<rparr>) = state_inv s"
  "state_inv (s\<lparr>st_channel_outbound := c\<rparr>) = state_inv s"
  "state_inv (s\<lparr>st_new_relays := nr\<rparr>) = state_inv s"
  "state_inv (s\<lparr>st_new_channels := nc\<rparr>) = state_inv s"
  "state_inv (s\<lparr>st_relay_opening := opening\<rparr>) = state_inv s"
  "state_inv (s\<lparr>st_closed := cl\<rparr>) = state_inv s"
  "state_inv (s\<lparr>st_closed_at := ca\<rparr>) = state_inv s"
  "state_inv (s\<lparr>st_dead := d\<rparr>) = state_inv s"
  "state_inv (s\<lparr>st_relay_keys := ks\<rparr>) = state_inv s"
  "state_inv (s\<lparr>st_next_relay_key := nk\<rparr>) = state_inv s"
  "state_inv (s\<lparr>st_next_channel_id := nci\<rparr>) = state_inv s"
  by (simp_all add: inv_defs)

lemma state_inv_new: "state_inv (snd (register_relay url r (state_new n w)))"
  by (simp add: register_relay_def state_new_def inv_defs book_ok_def standins_ok_def Let_def)

lemma state_inv_put [inv_intros]:
  "state_inv s \<Longrightarrow> entry_ok e \<Longrightarrow> state_inv (s\<lparr>st_conns := AList.update h e (st_conns s)\<rparr>)"
  using entries_ok_put [of s e h]
  by (auto simp: state_inv_def queue_ok_def signals_ok_def webrtc_ok_def
      pool_ok_def dom_update)

lemma fst_entries [simp]: "fst \<circ> (\<lambda>(h, e). (h, f e)) = fst"
  by auto

lemma state_inv_map_entries [inv_intros]:
  assumes "state_inv s" and "\<And>e. entry_ok e \<Longrightarrow> entry_ok (f e)"
  shows "state_inv (map_entries f s)"
  using assms by (auto simp: map_entries_def inv_defs image_image split_beta)

lemma state_inv_addr_for_peer [inv_intros]:
  assumes "state_inv s" and "addr_for_peer p via s = (a, s')"
  shows "state_inv s'"
proof -
  have "book_ok s'" using assms book_ok_addr_for_peer by (auto simp: state_inv_def)
  with assms(2,1) show ?thesis
    by (cases rule: addr_for_peer_cases) (auto simp: inv_defs)
qed

lemma state_inv_route:
  assumes "state_inv s" and "st_routes s a \<noteq> None"
    and "\<And>cid. w = Channel cid \<Longrightarrow> st_webrtc_enabled s"
  shows "state_inv (s\<lparr>st_routes := (st_routes s)(a \<mapsto> w)\<rparr>)"
proof -
  have "insert a (dom (st_routes s)) = dom (st_routes s)" using assms(2) by auto
  moreover have "a \<in> dom (st_routes s)" using assms(2) by auto
  ultimately show ?thesis
    using assms(1,3) by (cases w) (auto simp: inv_defs book_ok_def standins_ok_def)
qed

lemma state_inv_register_relay [inv_intros]:
  "state_inv s \<Longrightarrow> state_inv (snd (register_relay url r s))"
  by (auto simp: register_relay_def Let_def inv_defs update_conv')

lemma state_inv_begin_signaling [inv_intros]:
  "state_inv s \<Longrightarrow> st_webrtc_enabled s \<Longrightarrow> state_inv (snd (begin_signaling p r s))"
  by (auto simp: begin_signaling_def inv_defs)

lemma state_inv_end_signaling [inv_intros]:
  "state_inv s \<Longrightarrow> state_inv (end_signaling p s)"
  by (auto simp: end_signaling_def inv_defs ran_def split: if_splits)

lemma state_inv_push_signal_outbound [inv_intros]:
  "state_inv s \<Longrightarrow> state_inv (push_signal_outbound r p m s)"
  by (simp add: push_signal_outbound_def)

lemma state_inv_inbox:
  assumes "state_inv s" and "length q \<le> INBOX_CAP" and "st_signaling s p \<noteq> None"
  shows "state_inv (s\<lparr>st_signal_inboxes := (st_signal_inboxes s)(p \<mapsto> q)\<rparr>)"
  using assms by (auto simp: inv_defs ran_def)

lemma inbox_facts:
  assumes "state_inv s" and "st_signal_inboxes s p = Some q"
  shows "length q \<le> INBOX_CAP" and "st_signaling s p \<noteq> None"
  using assms by (auto simp: inv_defs ran_def)

lemma state_inv_pop_signal_inbox [inv_intros]:
  assumes "state_inv s"
  shows "state_inv (snd (pop_signal_inbox p s))"
proof (cases "st_signal_inboxes s p")
  case (Some q)
  with inbox_facts [OF assms Some] assms show ?thesis
    by (cases q) (auto simp: pop_signal_inbox_def intro: state_inv_inbox)
qed (simp add: pop_signal_inbox_def assms)

lemma state_inv_handle_signal [inv_intros]:
  assumes "state_inv s"
  shows "state_inv (snd (handle_signal via src data s))"
proof -
  have claim: "state_inv (s\<lparr>st_signaling := (st_signaling s)(src \<mapsto> via)\<rparr>)"
    if "st_webrtc_enabled s"
    using assms that by (auto simp: inv_defs)
  show ?thesis
    using assms claim inbox_facts [OF assms, of src]
      state_inv_inbox [of "s\<lparr>st_signaling := (st_signaling s)(src \<mapsto> via)\<rparr>" _ src]
      state_inv_inbox [of s _ src]
    by (auto simp: handle_signal_def Let_def INBOX_CAP_def split: option.split)
qed

text \<open>The signals of one peer, delivered one after the other, and how many sessions they start.\<close>

definition deliver_signals ::
  "u32 \<Rightarrow> endpoint_id \<Rightarrow> bytes list \<Rightarrow> ('n, 'c) state \<Rightarrow> nat \<times> ('n, 'c) state" where
  "deliver_signals via src ms s =
     fold (\<lambda>m (k, s). case handle_signal via src m s of (spawned, s') \<Rightarrow> (if spawned then Suc k else k, s')) ms (0, s)"

definition inbox_of :: "endpoint_id \<Rightarrow> ('n, 'c) state \<Rightarrow> bytes list" where
  "inbox_of src s = (case st_signal_inboxes s src of None \<Rightarrow> [] | Some q \<Rightarrow> q)"

lemma handle_signal_open:
  assumes "st_webrtc_enabled s" and "\<not> is_closed_or_dead s" and "handle_signal via src m s = (spawned, s')"
  shows "inbox_of src s' = take INBOX_CAP (inbox_of src s @ [m]) \<or> INBOX_CAP < length (inbox_of src s)"
    and "spawned \<longleftrightarrow> st_signaling s src = None" and "st_signaling s' src \<noteq> None"
    and "st_webrtc_enabled s' \<and> \<not> is_closed_or_dead s'"
    and "p \<noteq> src \<Longrightarrow> inbox_of p s' = inbox_of p s"
  using assms
  by (auto simp: handle_signal_def inbox_of_def Let_def is_closed_or_dead_def split: if_splits option.split)

lemma deliver_signals_from:
  assumes "st_webrtc_enabled s" and "\<not> is_closed_or_dead s" and "length (inbox_of src s) \<le> INBOX_CAP"
  shows "\<exists>k' s'. fold (\<lambda>m (k, s). case handle_signal via src m s of (spawned, s') \<Rightarrow> (if spawned then Suc k else k, s')) ms (k, s)
       = (k', s') \<and> inbox_of src s' = take INBOX_CAP (inbox_of src s @ ms)
     \<and> k' = (if ms \<noteq> [] \<and> st_signaling s src = None then Suc k else k)
     \<and> (\<forall>p. p \<noteq> src \<longrightarrow> inbox_of p s' = inbox_of p s)"
  using assms
proof (induction ms arbitrary: k s)
  case (Cons m ms)
  obtain spawned s1 where h: "handle_signal via src m s = (spawned, s1)" by force
  note f = handle_signal_open [OF Cons.prems(1,2) h]
  have in1: "inbox_of src s1 = take INBOX_CAP (inbox_of src s @ [m])" using f(1) Cons.prems(3) by auto
  then have "length (inbox_of src s1) \<le> INBOX_CAP" by simp
  from Cons.IH [OF _ _ this, of "if spawned then Suc k else k"] f(4) obtain k' s' where
    rec: "fold (\<lambda>m (k, s). case handle_signal via src m s of (spawned, s') \<Rightarrow> (if spawned then Suc k else k, s')) ms
        (if spawned then Suc k else k, s1) = (k', s')"
      "inbox_of src s' = take INBOX_CAP (inbox_of src s1 @ ms)"
      "k' = (if ms \<noteq> [] \<and> st_signaling s1 src = None then Suc (if spawned then Suc k else k) else if spawned then Suc k else k)"
      "\<forall>p. p \<noteq> src \<longrightarrow> inbox_of p s' = inbox_of p s1"
    by blast
  have "take INBOX_CAP (take INBOX_CAP (inbox_of src s @ [m]) @ ms) = take INBOX_CAP (inbox_of src s @ m # ms)"
    by (cases "length (inbox_of src s) < INBOX_CAP") (use Cons.prems(3) in \<open>auto simp: min_def\<close>)
  with rec in1 h f(2,3,5) show ?case by simp
qed simp

text \<open>C8. A flooding peer loses signals, the endpoint does not: whatever number of signals a peer
  sends, its inbox keeps the first \<open>INBOX_CAP\<close> unread ones in order and drops the rest, other
  peers' inboxes are untouched, and at most one answering session is started, exactly when the
  peer had none.\<close>

theorem signal_flood_bounded:
  assumes "state_inv s" and "st_webrtc_enabled s" and "\<not> is_closed_or_dead s"
    and "deliver_signals via src ms s = (started, s')"
  shows "inbox_of src s' = take INBOX_CAP (inbox_of src s @ ms) \<and> length (inbox_of src s') \<le> 64
     \<and> started = (if ms \<noteq> [] \<and> st_signaling s src = None then 1 else 0)
     \<and> (\<forall>p. p \<noteq> src \<longrightarrow> inbox_of p s' = inbox_of p s)"
proof -
  have "length (inbox_of src s) \<le> INBOX_CAP"
    using inbox_facts [OF assms(1)] by (auto simp: inbox_of_def INBOX_CAP_def split: option.split)
  from deliver_signals_from [OF assms(2,3) this, of via ms 0] assms(4) show ?thesis
    by (auto simp: deliver_signals_def INBOX_CAP_def)
qed

lemma peer_route_exists:
  "state_inv s \<Longrightarrow> st_peer_to_addr s p = Some a \<Longrightarrow> st_routes s a \<noteq> None"
  by (auto simp: inv_defs book_ok_def ran_def)

lemma addr_for_peer_assigned: "addr_for_peer p via s = (a, s') \<Longrightarrow> st_peer_to_addr s' p = Some a"
  by (rule standins.alloc_lookup)

lemma state_inv_register_channel [inv_intros]:
  assumes "state_inv s" and "st_webrtc_enabled s"
  shows "state_inv (snd (snd (register_channel p w s)))"
proof (cases "is_closed_or_dead s")
  case False
  let ?r = "case signaling_relay p s of Some r \<Rightarrow> r | None \<Rightarrow> HOME_RELAY"
  let ?cid = "st_next_channel_id s + 1"
  let ?s1 = "s\<lparr>st_next_channel_id := ?cid,
               st_channels := AList.update ?cid \<lparr>ch_wire = w, ch_peer = p, ch_fallback_relay = ?r\<rparr> (st_channels s),
               st_new_channels := st_new_channels s @ [(?cid, w)]\<rparr>"
  obtain a s2 where ap: "addr_for_peer p ?r ?s1 = (a, s2)" by force
  have "state_inv ?s1" using assms by (auto simp: inv_defs)
  then have s2: "state_inv s2" using ap by (rule state_inv_addr_for_peer)
  moreover have "st_webrtc_enabled s2"
    using ap assms(2) by (cases rule: addr_for_peer_cases) auto
  moreover have "st_routes s2 a \<noteq> None"
    using peer_route_exists [OF s2 addr_for_peer_assigned [OF ap]] .
  ultimately show ?thesis
    using False ap state_inv_route [of s2 a "Channel ?cid"]
    by (simp add: register_channel_def Let_def)
qed (simp add: register_channel_def assms)

lemma state_inv_retire_channel [inv_intros]:
  assumes "state_inv s"
  shows "state_inv (retire_channel cid s)"
proof -
  have "state_inv (s\<lparr>st_channels := AList.delete cid (st_channels s)\<rparr>)"
    using assms by (auto simp: inv_defs)
  from this state_inv_route [OF this] show ?thesis
    using assms by (auto simp: retire_channel_def Let_def split: option.splits)
qed

lemma state_inv_mark_dead [inv_intros]: "state_inv s \<Longrightarrow> state_inv (mark_dead r s)"
  by (auto simp: mark_dead_def intro!: state_inv_map_entries)

lemma state_inv_close_all [inv_intros]: "state_inv s \<Longrightarrow> state_inv (close_all N now r s)"
  by (auto simp: close_all_def intro!: state_inv_map_entries)

lemma state_inv_handle_timeouts [inv_intros]: "state_inv s \<Longrightarrow> state_inv (handle_timeouts N now s)"
  by (auto simp: handle_timeouts_def split: prod.splits option.splits intro!: state_inv_map_entries)

lemma state_inv_push_response [inv_intros]:
  "state_inv s \<Longrightarrow> state_inv (push_response a src d s)"
  by (simp add: push_response_def split: option.split route_wire.split)

lemma state_inv_respond: "state_inv s \<Longrightarrow> respond a src tx buf s = Inr s' \<Longrightarrow> state_inv s'"
  by (auto simp: respond_def state_inv_push_response split: sum.splits)

lemma state_inv_handle_datagram [inv_intros]:
  assumes inv: "state_inv s" and run: "handle_datagram N now a src d s = Inr s'"
  shows "state_inv s'"
proof -
  obtain ev buf n where h: "nq_handle N now a d (st_noq s) = (ev, buf, n)" by (metis prod_cases3)
  have i1: "state_inv (s\<lparr>st_noq := n\<rparr>)" using inv by simp
  have ent: "entry_ok e" if "map_of (st_conns s) handle = Some e" for handle e
    using inv that entry_of_ok by (auto simp: state_inv_def)
  show ?thesis
    using run inv ent state_inv_respond [OF i1]
    by (auto simp: handle_datagram_def h Let_def split: option.splits datagram_event.splits if_splits
        sum.splits prod.splits intro: state_inv_put [of "s\<lparr>st_noq := _\<rparr>", simplified]
        elim: state_inv_respond [rotated])
qed

lemma state_inv_handle_relay_datagram [inv_intros]:
  "state_inv s \<Longrightarrow> handle_relay_datagram N now via src d s = Inr s' \<Longrightarrow> state_inv s'"
  by (auto simp: handle_relay_datagram_def split: prod.splits
      dest: state_inv_addr_for_peer intro: state_inv_handle_datagram)

lemma state_inv_handle_udp_datagram [inv_intros]:
  "state_inv s \<Longrightarrow> handle_udp_datagram N now a d s = Inr s' \<Longrightarrow> state_inv s'"
  by (auto simp: handle_udp_datagram_def intro: state_inv_handle_datagram)

lemma state_inv_handle_channel_datagram [inv_intros]:
  "state_inv s \<Longrightarrow> handle_channel_datagram N now cid d s = Inr s' \<Longrightarrow> state_inv s'"
  by (auto simp: handle_channel_datagram_def split: prod.splits option.splits
      dest: state_inv_addr_for_peer intro: state_inv_handle_datagram)

subsection \<open>Datagrams are attributed to their senders\<close>

text \<open>What noq promises of a transmit: the buffer holds the bytes it counts.\<close>

definition noq_sizes :: "('n, 'c, 'i, 'ce, 'ee, 'z) noq_scheme \<Rightarrow> bool" where
  "noq_sizes N \<longleftrightarrow>
     (\<forall>now a d n tx buf n'. nq_handle N now a d n = (Some (Response tx), buf, n') \<longrightarrow> tx_size tx \<le> length buf)
     \<and> (\<forall>i now n tx buf n'. nq_accept N i now n = (Inl (Some tx), buf, n') \<longrightarrow> tx_size tx \<le> length buf)
     \<and> (\<forall>now c tx buf c'. nc_poll_transmit N now c = (Some tx, buf, c') \<longrightarrow> tx_size tx \<le> length buf)"

lemma respond_ok: "tx_size tx \<le> length buf \<Longrightarrow>
    respond a src tx buf s = Inr (push_response a src (take (tx_size tx) buf) s)"
  by (simp add: respond_def slice_to_def)

lemma handle_datagram_total:
  assumes "noq_sizes N"
  shows "\<exists>s'. handle_datagram N now a src d s = Inr s'"
proof -
  obtain ev buf n where h: "nq_handle N now a d (st_noq s) = (ev, buf, n)" by (metis prod_cases3)
  show ?thesis
  proof (cases ev)
    case (Some x)
    show ?thesis
    proof (cases x)
      case (NewConnection i)
      obtain r buf' n' where acc: "nq_accept N i now n = (r, buf', n')" by (metis prod_cases3)
      have "r = Inl (Some tx) \<Longrightarrow> tx_size tx \<le> length buf'" for tx
        using assms acc unfolding noq_sizes_def by blast
      then show ?thesis
        using Some NewConnection acc
        by (auto simp: handle_datagram_def h Let_def respond_ok split: sum.split option.split)
    next
      case (Response tx)
      then have "tx_size tx \<le> length buf" using assms h Some unfolding noq_sizes_def by blast
      with Some Response show ?thesis by (simp add: handle_datagram_def h respond_ok)
    qed (simp add: handle_datagram_def h Some Let_def split: option.split)
  qed (simp add: handle_datagram_def h)
qed

lemma handle_datagram_book:
  assumes "handle_datagram N now a src d s = Inr s'"
  shows "st_peer_to_addr s' = st_peer_to_addr s \<and> st_addr_to_peer s' = st_addr_to_peer s
       \<and> st_routes s' = st_routes s \<and> st_accept_queue s' = st_accept_queue s
       \<and> st_closed s' = st_closed s \<and> st_dead s' = st_dead s \<and> st_channels s' = st_channels s"
  using assms
  by (auto simp: handle_datagram_def Let_def respond_def push_response_def
      split: prod.splits option.splits datagram_event.splits sum.splits if_splits route_wire.splits)

lemma handle_datagram_opens:
  assumes "handle_datagram N now a src d s = Inr s'"
    and "nq_handle N now a d (st_noq s) = (Some (NewConnection i), buf, n)" and "\<not> st_closed s"
    and "nq_accept N i now n = (Inr (h, c), buf', n')"
  shows "map_of (st_conns s') h = Some (conn_entry_new c src True)"
  using assms by (auto simp: handle_datagram_def update_conv')

lemma addr_for_peer_noq [simp]:
  "addr_for_peer p via s = (a, s') \<Longrightarrow> st_noq s' = st_noq s \<and> st_closed s' = st_closed s
     \<and> st_conns s' = st_conns s \<and> st_accept_queue s' = st_accept_queue s"
  by (cases rule: addr_for_peer_cases) auto

text \<open>C21. A datagram relayed from peer \<open>src\<close> is always handled, under the one standin address
  of \<open>src\<close>; a connection it opens is bound to authenticate as \<open>src\<close>.\<close>

theorem relay_datagram_attributed:
  assumes "state_inv s" and "noq_sizes N" and "card (dom (st_peer_to_addr s)) + 1 < 2 ^ 32"
  shows "\<exists>s' a. handle_relay_datagram N now via src data s = Inr s' \<and> state_inv s'
           \<and> st_peer_to_addr s' src = Some a \<and> st_addr_to_peer s' a = Some src
           \<and> (\<forall>i buf n h c buf' n'.
                nq_handle N now a data (st_noq s) = (Some (NewConnection i), buf, n)
                \<and> \<not> st_closed s \<and> nq_accept N i now n = (Inr (h, c), buf', n')
                \<longrightarrow> map_of (st_conns s') h = Some (conn_entry_new c (Some src) True))"
proof -
  obtain a s1 where ap: "addr_for_peer src via s = (a, s1)" by force
  obtain s' where run: "handle_datagram N now a (Some src) data s1 = Inr s'"
    using handle_datagram_total [OF assms(2)] by blast
  have full: "handle_relay_datagram N now via src data s = Inr s'"
    by (simp add: handle_relay_datagram_def ap run)
  have inv: "state_inv s'" using state_inv_handle_relay_datagram [OF assms(1) full] .
  have p2a: "st_peer_to_addr s' src = Some a"
    using handle_datagram_book [OF run] addr_for_peer_assigned [OF ap] by simp
  have "book_ok s1 \<and> card (dom (st_peer_to_addr s1)) + 0 < 2 ^ 32"
    by (rule standins.alloc_ok [OF _ ap]) (use assms in \<open>simp add: state_inv_def\<close>)
  then have "st_addr_to_peer s1 a = Some src"
    using addr_for_peer_assigned [OF ap] by (auto simp: book_ok_def standins_ok_def)
  then have "st_addr_to_peer s' a = Some src" using handle_datagram_book [OF run] by simp
  with full inv p2a handle_datagram_opens [OF run] addr_for_peer_noq [OF ap] show ?thesis
    by metis
qed

subsection \<open>Channels and routes\<close>

lemma map_of_fresh_delete_update:
  "map_of xs k = None \<Longrightarrow> AList.delete k (AList.update k v xs) = xs"
  by (induction xs) (auto split: if_splits simp: AList.delete_eq filter_id_conv map_of_eq_None_iff)

text \<open>C23. Registering a channel moves exactly its peer's route onto it; retiring the channel
  moves that route to the relay the session signals through and forgets the channel, and
  all other routes are as before.\<close>

theorem channel_lifecycle:
  assumes "state_inv s" and "\<not> is_closed_or_dead s" and "st_signaling s p = Some r"
    and "map_of (st_channels s) (st_next_channel_id s + 1) = None"
    and "register_channel p w s = (Inr (), ws, s1)" and "cid = st_next_channel_id s + 1"
    and "st_peer_to_addr s1 p = Some a"
  shows "ws = [] \<and> st_routes s1 a = Some (Channel cid)
       \<and> map_of (st_channels s1) cid = Some \<lparr>ch_wire = w, ch_peer = p, ch_fallback_relay = r\<rparr>
       \<and> st_routes (retire_channel cid s1) a = Some (Relay r)
       \<and> st_channels (retire_channel cid s1) = st_channels s
       \<and> (\<forall>b. b \<noteq> a \<longrightarrow> st_routes s1 b = st_routes s b \<and> st_routes (retire_channel cid s1) b = st_routes s b)"
proof -
  let ?e = "\<lparr>ch_wire = w, ch_peer = p, ch_fallback_relay = r\<rparr>"
  let ?s0 = "s\<lparr>st_next_channel_id := cid, st_channels := AList.update cid ?e (st_channels s),
               st_new_channels := st_new_channels s @ [(cid, w)]\<rparr>"
  obtain b s2 where ap: "addr_for_peer p r ?s0 = (b, s2)" by force
  have s1: "s1 = s2\<lparr>st_routes := (st_routes s2)(b \<mapsto> Channel cid)\<rparr>" and ws: "ws = []"
    using assms(2,3,5,6) ap by (simp_all add: register_channel_def signaling_relay_def)
  have ch: "st_channels s2 = AList.update cid ?e (st_channels s)"
    using ap by (cases rule: addr_for_peer_cases) auto
  have b: "b = a" using addr_for_peer_assigned [OF ap] assms(7) s1 by simp
  have rest: "st_routes s2 x = st_routes s x" if "x \<noteq> a" for x
    using ap that b by (cases rule: addr_for_peer_cases) auto
  have "AList.delete cid (AList.update cid ?e (st_channels s)) = st_channels s"
    using assms(4,6) by (simp add: map_of_fresh_delete_update)
  then show ?thesis
    using ws s1 ch b rest assms(7) by (simp add: retire_channel_def update_conv' Let_def)
qed

subsection \<open>A sample QUIC implementation\<close>

text \<open>
  A concrete instance of the \<open>noq\<close> operations, for the witnesses: a connection is a script of
  pending events and transmits. A datagram starting with 1 opens a connection whose peer
  presents the rest of the datagram as its key, 2 makes connection 0 report \<open>Connected\<close>, and 3
  asks for an endpoint-level response.
\<close>

record toy_conn =
  tc_to_endpoint :: "nat list"
  tc_events :: "event list"
  tc_transmits :: "(socket_addr \<times> bytes) list"
  tc_key :: bytes
  tc_streams :: nat
  tc_closed :: bool

definition toy_start :: "bytes \<Rightarrow> toy_conn" where
  "toy_start key =
     \<lparr>tc_to_endpoint = [], tc_events = [], tc_transmits = [], tc_key = key, tc_streams = 0,
      tc_closed = False\<rparr>"

definition toy_noq :: "(nat, toy_conn, bytes, event, nat) noq" where
  "toy_noq =
     \<lparr>nq_handle = (\<lambda>now a d n.
        case d of
          [] \<Rightarrow> (None, [], n)
        | b # rest \<Rightarrow>
            if b = 1 then (Some (NewConnection rest), [], n)
            else if b = 2 then (Some (ConnectionEvent 0 Connected), [], n)
            else if b = 3 then (Some (Response \<lparr>destination = a, tx_size = 1\<rparr>), [7], n)
            else (None, [], n)),
      nq_accept = (\<lambda>i now n. (Inr (n, toy_start i), [], n + 1)),
      nq_handle_event = (\<lambda>h ee n. (None, n)),
      nc_handle_event = (\<lambda>ev c. c\<lparr>tc_events := tc_events c @ [ev]\<rparr>),
      nc_poll_endpoint_events = (\<lambda>c.
        case tc_to_endpoint c of [] \<Rightarrow> (None, c) | x # xs \<Rightarrow> (Some x, c\<lparr>tc_to_endpoint := xs\<rparr>)),
      nc_poll = (\<lambda>c.
        case tc_events c of [] \<Rightarrow> (None, c) | x # xs \<Rightarrow> (Some x, c\<lparr>tc_events := xs\<rparr>)),
      nc_poll_transmit = (\<lambda>now c.
        case tc_transmits c of [] \<Rightarrow> (None, [], c)
        | (a, d) # xs \<Rightarrow>
            (Some \<lparr>destination = a, tx_size = length d\<rparr>, d, c\<lparr>tc_transmits := xs\<rparr>)),
      nc_is_drained = tc_closed,
      nc_poll_timeout = (\<lambda>c. (None, c)),
      nc_handle_timeout = (\<lambda>now c. c),
      nc_close = (\<lambda>now code reason c. c\<lparr>tc_closed := True\<rparr>),
      nc_streams_accept = (\<lambda>d c.
        if tc_streams c = 0 then (None, c) else (Some (tc_streams c), c\<lparr>tc_streams := tc_streams c - 1\<rparr>)),
      nc_handshake_data = (\<lambda>c. Some (Some [104, 51])),
      nc_peer_identity = (\<lambda>c. Some [tc_key c]),
      spki_key = Some\<rparr>"

lemma toy_noq_simps [simp]:
  "nq_handle_event toy_noq h ee n = (None, n)"
  "nc_poll_endpoint_events toy_noq c =
     (case tc_to_endpoint c of [] \<Rightarrow> (None, c) | x # xs \<Rightarrow> (Some x, c\<lparr>tc_to_endpoint := xs\<rparr>))"
  "nc_poll toy_noq c =
     (case tc_events c of [] \<Rightarrow> (None, c) | x # xs \<Rightarrow> (Some x, c\<lparr>tc_events := xs\<rparr>))"
  "nc_poll_transmit toy_noq now c =
     (case tc_transmits c of [] \<Rightarrow> (None, [], c)
      | (a, d) # xs \<Rightarrow> (Some \<lparr>destination = a, tx_size = length d\<rparr>, d, c\<lparr>tc_transmits := xs\<rparr>))"
  "nc_is_drained toy_noq = tc_closed"
  "nc_handshake_data toy_noq c = Some (Some [104, 51])"
  "nc_peer_identity toy_noq c = Some [tc_key c]"
  "spki_key toy_noq = Some"
  by (simp_all add: toy_noq_def)

lemma toy_noq_sizes: "noq_sizes toy_noq"
  by (auto simp: noq_sizes_def toy_noq_def split: list.splits if_splits)

definition toy_state :: "bool \<Rightarrow> (nat, toy_conn) state" where
  "toy_state webrtc = snd (register_relay ''https://home'' 0 (state_new 0 webrtc))"

lemma toy_state_inv: "state_inv (toy_state w)"
  unfolding toy_state_def by (rule state_inv_new)

lemma toy_state_simps [simp]:
  "st_peer_to_addr (toy_state w) = Map.empty" "st_noq (toy_state w) = 0"
  "st_closed (toy_state w) = False" "st_dead (toy_state w) = None"
  "st_conns (toy_state w) = []" "st_channels (toy_state w) = []"
  "st_next_channel_id (toy_state w) = 0" "st_signaling (toy_state w) = Map.empty"
  "st_webrtc_enabled (toy_state w) = w" "st_next_host (toy_state w) = 0"
  "st_addr_to_peer (toy_state w) = Map.empty" "st_routes (toy_state w) = Map.empty"
  "st_accept_queue (toy_state w) = []" "st_signal_inboxes (toy_state w) = Map.empty"
  by (simp_all add: toy_state_def register_relay_def state_new_def Let_def)

theorem relay_datagram_attributed_witness:
  "\<exists>s' a. handle_relay_datagram toy_noq 0 0 [9] [1, 5] (toy_state True) = Inr s'
      \<and> st_addr_to_peer s' a = Some [9]
      \<and> map_of (st_conns s') 0 = Some (conn_entry_new (toy_start [5]) (Some [9]) True)"
proof -
  have "nq_handle toy_noq 0 a [1, 5] 0 = (Some (NewConnection [5]), [], 0)" for a
    by (simp add: toy_noq_def)
  moreover have "nq_accept toy_noq [5] 0 0 = (Inr (0, toy_start [5]), [], 1)"
    by (simp add: toy_noq_def)
  ultimately show ?thesis
    using relay_datagram_attributed [OF toy_state_inv [of True] toy_noq_sizes, of 0 0 "[9]" "[1, 5]"] by auto
qed

theorem channel_lifecycle_witness:
  "\<exists>(s :: (nat, toy_conn) state) ws s1 a. register_channel [9] 4 s = (Inr (), ws, s1)
     \<and> st_signaling s = [[9] \<mapsto> 3]
     \<and> st_routes s1 a = Some (Channel 1) \<and> st_routes (retire_channel 1 s1) a = Some (Relay 3)"
proof -
  let ?s = "snd (begin_signaling [9] 3 (toy_state True))"
  have sig: "st_signaling ?s = [[9] \<mapsto> 3]" by (simp add: begin_signaling_def)
  have fields: "\<not> is_closed_or_dead ?s" "st_channels ?s = []" "st_next_channel_id ?s = 0"
    "st_peer_to_addr ?s = Map.empty"
    by (simp_all add: begin_signaling_def is_closed_or_dead_def)
  obtain r ws s1 where reg: "register_channel [9] 4 ?s = (r, ws, s1)" by (metis prod_cases3)
  have r: "r = Inr ()" using reg fields by (auto simp: register_channel_def Let_def split: prod.splits)
  obtain a where a: "st_peer_to_addr s1 [9] = Some a"
    using reg fields by (auto simp: register_channel_def Let_def split: prod.splits dest: addr_for_peer_assigned)
  have inv: "state_inv ?s" by (intro state_inv_begin_signaling toy_state_inv) simp
  from channel_lifecycle [OF inv fields(1) _ _ reg [unfolded r] refl a, of 3]
  have "st_routes s1 a = Some (Channel 1) \<and> st_routes (retire_channel 1 s1) a = Some (Relay 3)"
    using sig fields by simp
  with reg r sig show ?thesis by blast
qed

theorem signal_flood_bounded_witness:
  "\<exists>s'. deliver_signals 0 [9] (replicate 70 [1]) (toy_state True) = (1, s') \<and> inbox_of [9] s' = replicate 64 [1]"
proof -
  obtain k s' where run: "deliver_signals 0 [9] (replicate 70 [1]) (toy_state True) = (k, s')" by force
  have "\<not> is_closed_or_dead (toy_state True)" by (simp add: is_closed_or_dead_def)
  from signal_flood_bounded [OF toy_state_inv _ this run] run show ?thesis
    by (simp add: inbox_of_def INBOX_CAP_def)
qed

end
