(* ===== verification/Endpoint_Drain.thy ===== *)
theory Endpoint_Drain
  imports Endpoint_State
begin

text \<open>
  Model of \<open>on_event\<close> and \<open>State::drain\<close> of \<open>endpoint/src/endpoint_impl.rs\<close>: the loop that polls
  every connection for endpoint events, application events and transmits until all are
  quiet. The loops end only because noq's queues are finite, so they are partial functions:
  \<open>None\<close> is a loop that does not end. The lemmas view a drain as a sequence of small steps, each a poll of one
  connection and what is done with its result (\<open>conn_does\<close>, labelled with the poll; \<open>conn_step\<close> without), and the
  invariants are proved for those. What a drain surfaces and sends is stated over the labels of such a sequence:
  the events noq reported and the packets it produced.
\<close>

section \<open>Definitions\<close>

subsection \<open>Application events\<close>

partial_function (option) accept_streams ::
  "('n, 'c, 'i, 'ce, 'ee, 'z) noq_scheme \<Rightarrow> dir \<Rightarrow> 'c \<Rightarrow> nat list \<Rightarrow> ('c \<times> nat list) option" where
  "accept_streams N d c queue =
     (case nc_streams_accept N d c of
        (None, c') \<Rightarrow> Some (c', queue)
      | (Some sid, c') \<Rightarrow> accept_streams N d c' (queue @ [sid]))"

text \<open>The key in the certificate the peer presented.\<close>

definition tls_peer :: "('n, 'c, 'i, 'ce, 'ee, 'z) noq_scheme \<Rightarrow> 'c \<Rightarrow> endpoint_id option" where
  "tls_peer N c =
     (case nc_peer_identity N c of
        None \<Rightarrow> None
      | Some [] \<Rightarrow> None
      | Some (cert # _) \<Rightarrow> endpoint_id_from_spki (spki_key N) cert)"

definition on_connected ::
  "('n, 'c, 'i, 'ce, 'ee, 'z) noq_scheme \<Rightarrow> nat \<Rightarrow> nat \<Rightarrow> 'c conn_entry \<Rightarrow> nat list
     \<Rightarrow> 'c conn_entry \<times> nat list" where
  "on_connected N now handle e accept_queue =
     (let e1 = (case nc_handshake_data N (ce_conn e) of
                  None \<Rightarrow> e
                | Some protocol \<Rightarrow> e\<lparr>ce_alpn := (case protocol of None \<Rightarrow> [] | Some p \<Rightarrow> p)\<rparr>)
      in case tls_peer N (ce_conn e) of
           Some pid \<Rightarrow>
             (if ce_expected_peer e = None \<or> ce_expected_peer e = Some pid
              then (e1\<lparr>ce_peer := Some pid, ce_connected := True\<rparr>,
                    if ce_accepted_side e then accept_queue @ [handle] else accept_queue)
              else (e1\<lparr>ce_error := Some (ConnectFailed ''authenticated key differs from the addressed peer''),
                       ce_conn := nc_close N now 1 (string_bytes ''identity mismatch'') (ce_conn e)\<rparr>,
                    accept_queue))
         | None \<Rightarrow>
             (e1\<lparr>ce_error := Some (ConnectFailed ''authenticated key differs from the addressed peer''),
                 ce_conn := nc_close N now 1 (string_bytes ''identity mismatch'') (ce_conn e)\<rparr>,
              accept_queue))"

definition loss_error :: "connection_error \<Rightarrow> error" where
  "loss_error reason =
     (case reason of
        ApplicationClosed \<Rightarrow> Closed
      | LocallyClosed \<Rightarrow> Closed
      | OtherLoss t \<Rightarrow> Other (''connection lost: '' @ t))"

definition on_event ::
  "('n, 'c, 'i, 'ce, 'ee, 'z) noq_scheme \<Rightarrow> nat \<Rightarrow> nat \<Rightarrow> event \<Rightarrow> 'c conn_entry \<Rightarrow> nat list
     \<Rightarrow> ('c conn_entry \<times> nat list) option" where
  "on_event N now handle ev e accept_queue =
     (case ev of
        Connected \<Rightarrow> Some (on_connected N now handle e accept_queue)
      | StreamOpened _ \<Rightarrow>
          Option.bind (accept_streams N Bi (ce_conn e) (ce_bi_queue e)) (\<lambda>(c1, bi).
          Option.bind (accept_streams N Uni c1 (ce_uni_queue e)) (\<lambda>(c2, uni).
            Some (e\<lparr>ce_conn := c2, ce_bi_queue := bi, ce_uni_queue := uni\<rparr>, accept_queue)))
      | ConnectionLost reason \<Rightarrow> Some (e\<lparr>ce_error := Some (loss_error reason)\<rparr>, accept_queue)
      | _ \<Rightarrow> Some (e, accept_queue))"

subsection \<open>Draining one connection\<close>

text \<open>
  The entry is borrowed out of the state while it is drained; the flag is \<open>progressed\<close>.
\<close>

partial_function (option) endpoint_events_loop ::
  "('n, 'c, 'i, 'ce, 'ee, 'z) noq_scheme \<Rightarrow> nat \<Rightarrow> 'c conn_entry \<Rightarrow> ('n, 'c) state \<Rightarrow> bool
     \<Rightarrow> ('c conn_entry \<times> ('n, 'c) state \<times> bool) option" where
  "endpoint_events_loop N handle e s progressed =
     (case nc_poll_endpoint_events N (ce_conn e) of
        (None, c) \<Rightarrow> Some (e\<lparr>ce_conn := c\<rparr>, s, progressed)
      | (Some ev, c) \<Rightarrow>
          (case nq_handle_event N handle ev (st_noq s) of
             (back, n) \<Rightarrow>
               endpoint_events_loop N handle
                 (e\<lparr>ce_conn := (case back of None \<Rightarrow> c | Some b \<Rightarrow> nc_handle_event N b c)\<rparr>)
                 (s\<lparr>st_noq := n\<rparr>) True))"

partial_function (option) app_events_loop ::
  "('n, 'c, 'i, 'ce, 'ee, 'z) noq_scheme \<Rightarrow> nat \<Rightarrow> nat \<Rightarrow> 'c conn_entry \<Rightarrow> ('n, 'c) state \<Rightarrow> bool
     \<Rightarrow> ('c conn_entry \<times> ('n, 'c) state \<times> bool) option" where
  "app_events_loop N now handle e s progressed =
     (case nc_poll N (ce_conn e) of
        (None, c) \<Rightarrow> Some (e\<lparr>ce_conn := c\<rparr>, s, progressed)
      | (Some ev, c) \<Rightarrow>
          Option.bind (on_event N now handle ev (e\<lparr>ce_conn := c\<rparr>) (st_accept_queue s)) (\<lambda>r.
            app_events_loop N now handle (fst r) (s\<lparr>st_accept_queue := snd r\<rparr>) True))"

text \<open>\<open>addr_to_peer[&destination]\<close> panics on a missing key.\<close>

definition route_transmit :: "transmit \<Rightarrow> bytes \<Rightarrow> ('n, 'c) state \<Rightarrow> panic + ('n, 'c) state" where
  "route_transmit tx buf s =
     (case slice_to (tx_size tx) buf of
        Inl p \<Rightarrow> Inl p
      | Inr datagram \<Rightarrow>
          (case st_routes s (destination tx) of
             Some (Relay key) \<Rightarrow>
               (case st_addr_to_peer s (destination tx) of
                  None \<Rightarrow> Inl IndexMissing
                | Some peer \<Rightarrow>
                    Inr (s\<lparr>st_relay_outbound := st_relay_outbound s @ [(key, peer, datagram)]\<rparr>))
           | Some (Channel cid) \<Rightarrow>
               Inr (s\<lparr>st_channel_outbound := st_channel_outbound s @ [(cid, datagram)]\<rparr>)
           | None \<Rightarrow>
               Inr (s\<lparr>st_udp_outbound := st_udp_outbound s @ [(destination tx, datagram)]\<rparr>)))"

partial_function (option) transmit_loop ::
  "('n, 'c, 'i, 'ce, 'ee, 'z) noq_scheme \<Rightarrow> nat \<Rightarrow> 'c conn_entry \<Rightarrow> ('n, 'c) state \<Rightarrow> bool
     \<Rightarrow> (panic + 'c conn_entry \<times> ('n, 'c) state \<times> bool) option" where
  "transmit_loop N now e s progressed =
     (case nc_poll_transmit N now (ce_conn e) of
        (None, buf, c) \<Rightarrow> Some (Inr (e\<lparr>ce_conn := c\<rparr>, s, progressed))
      | (Some tx, buf, c) \<Rightarrow>
          (case route_transmit tx buf s of
             Inl p \<Rightarrow> Some (Inl p)
           | Inr s' \<Rightarrow> transmit_loop N now (e\<lparr>ce_conn := c\<rparr>) s' True))"

partial_function (option) drain_conn ::
  "('n, 'c, 'i, 'ce, 'ee, 'z) noq_scheme \<Rightarrow> nat \<Rightarrow> nat \<Rightarrow> 'c conn_entry \<Rightarrow> ('n, 'c) state
     \<Rightarrow> (panic + 'c conn_entry \<times> ('n, 'c) state) option" where
  "drain_conn N now handle e s =
     Option.bind (endpoint_events_loop N handle e s False) (\<lambda>(e1, s1, p1).
     Option.bind (app_events_loop N now handle e1 s1 p1) (\<lambda>(e2, s2, p2).
     Option.bind (transmit_loop N now e2 s2 p2) (\<lambda>r.
       case r of
         Inl p \<Rightarrow> Some (Inl p)
       | Inr (e3, s3, p3) \<Rightarrow>
           if p3 then drain_conn N now handle e3 s3 else Some (Inr (e3, s3)))))"

subsection \<open>Draining the endpoint\<close>

definition put_entry :: "nat \<Rightarrow> 'c conn_entry \<Rightarrow> ('n, 'c) state \<Rightarrow> ('n, 'c) state" where
  "put_entry h e s = s\<lparr>st_conns := AList.update h e (st_conns s)\<rparr>"

definition mark_drained :: "('n, 'c, 'i, 'ce, 'ee, 'z) noq_scheme \<Rightarrow> 'c conn_entry \<Rightarrow> 'c conn_entry" where
  "mark_drained N e =
     (if \<not> ce_drained e \<and> nc_is_drained N (ce_conn e) then e\<lparr>ce_drained := True\<rparr> else e)"

fun drain_handles ::
  "('n, 'c, 'i, 'ce, 'ee, 'z) noq_scheme \<Rightarrow> nat \<Rightarrow> nat list \<Rightarrow> ('n, 'c) state
     \<Rightarrow> (panic + ('n, 'c) state) option" where
  "drain_handles N now [] s = Some (Inr s)"
| "drain_handles N now (h # hs) s =
     (case map_of (st_conns s) h of
        None \<Rightarrow> drain_handles N now hs s
      | Some e \<Rightarrow>
          Option.bind (drain_conn N now h e s) (\<lambda>r.
            case r of
              Inl p \<Rightarrow> Some (Inl p)
            | Inr (e', s') \<Rightarrow> drain_handles N now hs (put_entry h (mark_drained N e') s')))"

definition drain ::
  "('n, 'c, 'i, 'ce, 'ee, 'z) noq_scheme \<Rightarrow> nat \<Rightarrow> ('n, 'c) state \<Rightarrow> (panic + ('n, 'c) state) option" where
  "drain N now s = drain_handles N now (map fst (st_conns s)) s"

subsection \<open>Small steps\<close>

text \<open>What a step polled: an application event, with the connection that reported it, a packet for its buffer, or
  nothing to the outside.\<close>

datatype 'c drain_event = Quiet | Handled nat event 'c | Polled nat transmit bytes

inductive conn_does ::
  "('n, 'c, 'i, 'ce, 'ee, 'z) noq_scheme \<Rightarrow> nat \<Rightarrow> ('n, 'c) state \<Rightarrow> 'c drain_event \<Rightarrow> ('n, 'c) state \<Rightarrow> bool"
  for N now where
  endpoint_event:
    "map_of (st_conns s) h = Some e \<Longrightarrow> nc_poll_endpoint_events N (ce_conn e) = (Some ev, c) \<Longrightarrow>
     nq_handle_event N h ev (st_noq s) = (back, n) \<Longrightarrow>
     conn_does N now s Quiet
       (put_entry h (e\<lparr>ce_conn := (case back of None \<Rightarrow> c | Some b \<Rightarrow> nc_handle_event N b c)\<rparr>)
          (s\<lparr>st_noq := n\<rparr>))"
| app_event:
    "map_of (st_conns s) h = Some e \<Longrightarrow> nc_poll N (ce_conn e) = (Some ev, c) \<Longrightarrow>
     on_event N now h ev (e\<lparr>ce_conn := c\<rparr>) (st_accept_queue s) = Some (e', q) \<Longrightarrow>
     conn_does N now s (Handled h ev c) (put_entry h e' (s\<lparr>st_accept_queue := q\<rparr>))"
| transmits:
    "map_of (st_conns s) h = Some e \<Longrightarrow> nc_poll_transmit N now (ce_conn e) = (Some tx, buf, c) \<Longrightarrow>
     route_transmit tx buf s = Inr s' \<Longrightarrow>
     conn_does N now s (Polled h tx buf) (put_entry h (e\<lparr>ce_conn := c\<rparr>) s')"
| quiet:
    "map_of (st_conns s) h = Some e \<Longrightarrow>
     nc_poll_endpoint_events N (ce_conn e) = (None, c) \<or> nc_poll N (ce_conn e) = (None, c)
       \<or> nc_poll_transmit N now (ce_conn e) = (None, buf, c) \<Longrightarrow>
     conn_does N now s Quiet (put_entry h (e\<lparr>ce_conn := c\<rparr>) s)"
| drains:
    "map_of (st_conns s) h = Some e \<Longrightarrow> conn_does N now s Quiet (put_entry h (mark_drained N e) s)"

definition conn_step ::
  "('n, 'c, 'i, 'ce, 'ee, 'z) noq_scheme \<Rightarrow> nat \<Rightarrow> ('n, 'c) state \<Rightarrow> ('n, 'c) state \<Rightarrow> bool" where
  "conn_step N now s t \<longleftrightarrow> (\<exists>l. conn_does N now s l t)"

inductive drain_trace ::
  "('n, 'c, 'i, 'ce, 'ee, 'z) noq_scheme \<Rightarrow> nat \<Rightarrow> ('n, 'c) state \<Rightarrow> 'c drain_event list \<Rightarrow> ('n, 'c) state \<Rightarrow> bool"
  for N now s where
  trace_start: "drain_trace N now s [] s"
| trace_step: "drain_trace N now s tr t \<Longrightarrow> conn_does N now t l u \<Longrightarrow> drain_trace N now s (tr @ [l]) u"

subsection \<open>What noq promises of its queues\<close>

text \<open>
  Every poll that gives something leaves strictly less to poll, by more than what handling
  the result can add: an event the endpoint hands back (\<open>fed\<close>), or a close (\<open>closing\<close>).
\<close>

definition noq_finite_backlog ::
  "('n, 'c, 'i, 'ce, 'ee, 'z) noq_scheme \<Rightarrow> ('c \<Rightarrow> nat) \<Rightarrow> nat \<Rightarrow> nat \<Rightarrow> bool" where
  "noq_finite_backlog N rank fed closing \<longleftrightarrow>
     (\<forall>c r c'. nc_poll_endpoint_events N c = (r, c') \<longrightarrow> rank c' + (if r = None then 0 else fed + 1) \<le> rank c)
     \<and> (\<forall>c r c'. nc_poll N c = (r, c') \<longrightarrow> rank c' + (if r = None then 0 else closing + 1) \<le> rank c)
     \<and> (\<forall>now c r buf c'. nc_poll_transmit N now c = (r, buf, c') \<longrightarrow> rank c' + (if r = None then 0 else 1) \<le> rank c)
     \<and> (\<forall>d c r c'. nc_streams_accept N d c = (r, c') \<longrightarrow> rank c' + (if r = None then 0 else 1) \<le> rank c)
     \<and> (\<forall>h ev n b n' c. nq_handle_event N h ev n = (Some b, n') \<longrightarrow> rank (nc_handle_event N b c) \<le> rank c + fed)
     \<and> (\<forall>now code reason c. rank (nc_close N now code reason c) \<le> rank c + closing)"

section \<open>Lemmas\<close>

subsection \<open>A drain is a sequence of small steps\<close>

lemma update_update [simp]: "AList.update k v (AList.update k w xs) = AList.update k v xs"
  by (induction xs) auto

lemma update_present: "map_of xs k = Some v \<Longrightarrow> AList.update k v xs = xs"
  by (induction xs) (auto split: if_splits)

lemma put_entry_simps [simp]:
  "put_entry h e (put_entry h e' s) = put_entry h e s"
  "map_of (st_conns (put_entry h e s)) h = Some e"
  "st_noq (put_entry h e s) = st_noq s"
  "st_accept_queue (put_entry h e s) = st_accept_queue s"
  "st_routes (put_entry h e s) = st_routes s"
  "st_addr_to_peer (put_entry h e s) = st_addr_to_peer s"
  "st_relay_outbound (put_entry h e s) = st_relay_outbound s"
  "st_udp_outbound (put_entry h e s) = st_udp_outbound s"
  "st_channel_outbound (put_entry h e s) = st_channel_outbound s"
  "(put_entry h e s)\<lparr>st_noq := n\<rparr> = put_entry h e (s\<lparr>st_noq := n\<rparr>)"
  "(put_entry h e s)\<lparr>st_accept_queue := q\<rparr> = put_entry h e (s\<lparr>st_accept_queue := q\<rparr>)"
  by (simp_all add: put_entry_def update_conv')

lemma put_entry_other: "h' \<noteq> h \<Longrightarrow> map_of (st_conns (put_entry h e s)) h' = map_of (st_conns s) h'"
  by (simp add: put_entry_def update_conv')

lemma put_entry_id: "map_of (st_conns s) h = Some e \<Longrightarrow> put_entry h e s = s"
  by (simp add: put_entry_def update_present)

lemma route_transmit_put:
  "route_transmit tx buf s = Inr s' \<Longrightarrow>
     route_transmit tx buf (put_entry h e s) = Inr (put_entry h e s')"
  by (auto simp: route_transmit_def put_entry_def split: sum.splits option.splits route_wire.splits)

lemma conn_stepI: "conn_does N now s l t \<Longrightarrow> conn_step N now s t"
  by (auto simp: conn_step_def)

lemma conn_step_cases:
  assumes "conn_step N now s t"
  obtains (endpoint_event) h e ev c bk n where
      "t = put_entry h (e\<lparr>ce_conn := (case bk of None \<Rightarrow> c | Some b \<Rightarrow> nc_handle_event N b c)\<rparr>) (s\<lparr>st_noq := n\<rparr>)"
      "map_of (st_conns s) h = Some e" "nc_poll_endpoint_events N (ce_conn e) = (Some ev, c)"
      "nq_handle_event N h ev (st_noq s) = (bk, n)"
  | (app_event) h e ev c e' q where
      "t = put_entry h e' (s\<lparr>st_accept_queue := q\<rparr>)" "map_of (st_conns s) h = Some e"
      "nc_poll N (ce_conn e) = (Some ev, c)"
      "on_event N now h ev (e\<lparr>ce_conn := c\<rparr>) (st_accept_queue s) = Some (e', q)"
  | (transmits) h e tx buf c s' where
      "t = put_entry h (e\<lparr>ce_conn := c\<rparr>) s'" "map_of (st_conns s) h = Some e"
      "nc_poll_transmit N now (ce_conn e) = (Some tx, buf, c)" "route_transmit tx buf s = Inr s'"
  | (quiet) h e c where "t = put_entry h (e\<lparr>ce_conn := c\<rparr>) s" "map_of (st_conns s) h = Some e"
  | (drains) h e where "t = put_entry h (mark_drained N e) s" "map_of (st_conns s) h = Some e"
proof -
  from assms obtain l where "conn_does N now s l t" by (auto simp: conn_step_def)
  then show thesis
  proof cases
    case (endpoint_event h e ev c bk n)
    then show thesis by (intro that(1))
  next
    case (app_event h e ev c e' q)
    then show thesis by (intro that(2))
  next
    case (transmits h e tx buf c s')
    then show thesis by (intro that(3))
  next
    case (quiet h e c buf)
    then show thesis by (intro that(4))
  next
    case (drains h e)
    then show thesis by (intro that(5))
  qed
qed

lemma conn_steps_trace: "(conn_step N now)\<^sup>*\<^sup>* s t \<Longrightarrow> \<exists>tr. drain_trace N now s tr t"
  by (induction rule: rtranclp_induct) (auto simp: conn_step_def intro: trace_start trace_step)

lemma drain_trace_steps: "drain_trace N now s tr t \<Longrightarrow> (conn_step N now)\<^sup>*\<^sup>* s t"
  by (induction rule: drain_trace.induct) (auto intro: conn_stepI rtranclp.rtrancl_into_rtrancl)

lemmas step_into = rtranclp.rtrancl_into_rtrancl converse_rtranclp_into_rtranclp

lemma endpoint_events_loop_steps:
  assumes "endpoint_events_loop N h e s p = Some r"
  shows "(conn_step N now)\<^sup>*\<^sup>* (put_entry h e s) (put_entry h (fst r) (fst (snd r)))"
  using assms
proof (induction N h e s p r rule: endpoint_events_loop.raw_induct [rotated, consumes 1, case_names step])
  case (step loop N h e s p r)
  note 1 = step
  obtain ev c where poll: "nc_poll_endpoint_events N (ce_conn e) = (ev, c)" by force
  show ?case
  proof (cases ev)
    case None
    with 1 poll show ?thesis
      using conn_stepI [OF quiet [of "put_entry h e s" h e N c now "[]"]] by auto
  next
    case (Some x)
    obtain bk n where hb: "nq_handle_event N h x (st_noq s) = (bk, n)" by force
    have "conn_step N now (put_entry h e s)
            (put_entry h (e\<lparr>ce_conn := (case bk of None \<Rightarrow> c | Some b \<Rightarrow> nc_handle_event N b c)\<rparr>)
               (s\<lparr>st_noq := n\<rparr>))"
      using conn_stepI [OF endpoint_event [of "put_entry h e s" h e N x c bk n now]] poll Some hb by simp
    moreover have "loop N h (e\<lparr>ce_conn := (case bk of None \<Rightarrow> c | Some b \<Rightarrow> nc_handle_event N b c)\<rparr>)
            (s\<lparr>st_noq := n\<rparr>) True = Some r"
      using 1(2) poll Some hb by simp
    ultimately show ?thesis using 1(1) converse_rtranclp_into_rtranclp by meson
  qed
qed

lemma app_events_loop_steps:
  assumes "app_events_loop N now h e s p = Some r"
  shows "(conn_step N now)\<^sup>*\<^sup>* (put_entry h e s) (put_entry h (fst r) (fst (snd r)))"
  using assms
proof (induction N now h e s p r rule: app_events_loop.raw_induct [rotated, consumes 1, case_names step])
  case (step loop N now h e s p r)
  note 1 = step
  obtain ev c where poll: "nc_poll N (ce_conn e) = (ev, c)" by force
  show ?case
  proof (cases ev)
    case None
    with 1 poll show ?thesis
      using conn_stepI [OF quiet [of "put_entry h e s" h e N c now "[]"]] by auto
  next
    case (Some x)
    then obtain e' q where ev: "on_event N now h x (e\<lparr>ce_conn := c\<rparr>) (st_accept_queue s) = Some (e', q)"
      and go: "loop N now h e' (s\<lparr>st_accept_queue := q\<rparr>) True = Some r"
      using 1(2) poll by (auto simp: bind_eq_Some_conv)
    have "conn_step N now (put_entry h e s) (put_entry h e' (s\<lparr>st_accept_queue := q\<rparr>))"
      using conn_stepI [OF app_event [of "put_entry h e s" h e N x c now e' q]] poll Some ev by simp
    then show ?thesis using 1(1) [OF go] by (rule converse_rtranclp_into_rtranclp)
  qed
qed

lemma transmit_loop_steps:
  assumes "transmit_loop N now e s p = Some x" and "x = Inr r"
  shows "(conn_step N now)\<^sup>*\<^sup>* (put_entry h e s) (put_entry h (fst r) (fst (snd r)))"
  using assms
proof (induction N now e s p x arbitrary: r
    rule: transmit_loop.raw_induct [rotated, consumes 1, case_names step])
  case (step loop N now e s p x)
  note 1 = step
  obtain ev buf c where poll: "nc_poll_transmit N now (ce_conn e) = (ev, buf, c)" by (metis prod_cases3)
  show ?case
  proof (cases ev)
    case None
    with 1 poll show ?thesis
      using conn_stepI [OF quiet [of "put_entry h e s" h e N c now buf]] by auto
  next
    case (Some tx)
    then obtain s' where rt: "route_transmit tx buf s = Inr s'"
      and go: "loop N now (e\<lparr>ce_conn := c\<rparr>) s' True = Some (Inr r)"
      using 1(2,3) poll by (auto split: sum.splits)
    have "conn_step N now (put_entry h e s) (put_entry h (e\<lparr>ce_conn := c\<rparr>) s')"
      using conn_stepI [OF transmits [of "put_entry h e s" h e N now tx buf c "put_entry h e s'"]] poll Some
        route_transmit_put [OF rt] by simp
    then show ?thesis using 1(1) [OF go refl] by (rule converse_rtranclp_into_rtranclp)
  qed
qed

lemma drain_conn_steps:
  assumes "drain_conn N now h e s = Some x" and "x = Inr (e', s')"
  shows "(conn_step N now)\<^sup>*\<^sup>* (put_entry h e s) (put_entry h e' s')"
  using assms
proof (induction N now h e s x rule: drain_conn.raw_induct [rotated, consumes 1, case_names step])
  case (step loop N now h e s x)
  note 1 = step
  from step.hyps step.prems obtain e1 s1 p1 e2 s2 p2 e3 s3 p3 where
    a: "endpoint_events_loop N h e s False = Some (e1, s1, p1)"
    and b: "app_events_loop N now h e1 s1 p1 = Some (e2, s2, p2)"
    and c: "transmit_loop N now e2 s2 p2 = Some (Inr (e3, s3, p3))"
    and go: "(if p3 then loop N now h e3 s3 else Some (Inr (e3, s3))) = Some (Inr (e', s'))"
    by (auto simp: bind_triple_Some bind_sum_Some)
  have "(conn_step N now)\<^sup>*\<^sup>* (put_entry h e s) (put_entry h e3 s3)"
    using endpoint_events_loop_steps [OF a, of now] app_events_loop_steps [OF b]
      transmit_loop_steps [OF c refl, of h] by simp
  moreover have "(conn_step N now)\<^sup>*\<^sup>* (put_entry h e3 s3) (put_entry h e' s')"
    using go 1(1) [of N now h e3 s3 "Inr (e', s')"] by (auto split: if_splits)
  ultimately show ?case by simp
qed

lemma drain_handles_steps:
  "drain_handles N now hs s = Some (Inr s') \<Longrightarrow> (conn_step N now)\<^sup>*\<^sup>* s s'"
proof (induction N now hs s rule: drain_handles.induct)
  case (2 N now h hs s)
  show ?case
  proof (cases "map_of (st_conns s) h")
    case None
    with 2 show ?thesis by simp
  next
    case (Some e)
    then obtain e1 s1 where d: "drain_conn N now h e s = Some (Inr (e1, s1))"
      and go: "drain_handles N now hs (put_entry h (mark_drained N e1) s1) = Some (Inr s')"
      using "2.prems" by (auto simp: bind_sum_Some)
    have "(conn_step N now)\<^sup>*\<^sup>* s (put_entry h e1 s1)"
      using drain_conn_steps [OF d refl] put_entry_id [OF Some] by simp
    moreover have "conn_step N now (put_entry h e1 s1) (put_entry h (mark_drained N e1) s1)"
      using conn_stepI [OF drains [of "put_entry h e1 s1" h e1 N now]] by simp
    moreover have "(conn_step N now)\<^sup>*\<^sup>* (put_entry h (mark_drained N e1) s1) s'"
      using "2.IH"(2) [OF Some _ refl, of "(e1, s1)" "e1" "s1"] go d by (cases N) auto
    ultimately show ?thesis by (meson rtranclp.rtrancl_into_rtrancl rtranclp_trans)
  qed
qed simp

lemma drain_steps: "drain N now s = Some (Inr s') \<Longrightarrow> (conn_step N now)\<^sup>*\<^sup>* s s'"
  unfolding drain_def by (rule drain_handles_steps)

subsection \<open>Events\<close>

lemma entry_ok_queues [simp]:
  "entry_ok (e\<lparr>ce_bi_queue := bi\<rparr>) = entry_ok e" "entry_ok (e\<lparr>ce_uni_queue := uni\<rparr>) = entry_ok e"
  by (simp_all add: entry_ok_def)

lemma on_connected_cases:
  assumes "on_connected N now h e q = (e', q')"
  obtains (authenticated) pid where "tls_peer N (ce_conn e) = Some pid"
      "ce_expected_peer e = None \<or> ce_expected_peer e = Some pid"
      "ce_peer e' = Some pid" "ce_connected e'" "ce_error e' = ce_error e" "ce_conn e' = ce_conn e"
      "q' = (if ce_accepted_side e then q @ [h] else q)"
    | (refused) "tls_peer N (ce_conn e) = None \<or>
         (ce_expected_peer e \<noteq> None \<and> ce_expected_peer e \<noteq> tls_peer N (ce_conn e))"
      "ce_peer e' = ce_peer e" "ce_connected e' = ce_connected e" "q' = q"
      "ce_error e' = Some (ConnectFailed ''authenticated key differs from the addressed peer'')"
      "ce_conn e' = nc_close N now 1 (string_bytes ''identity mismatch'') (ce_conn e)"
  using assms
  by (cases "tls_peer N (ce_conn e)"; cases "nc_handshake_data N (ce_conn e)";
      cases "ce_expected_peer e = None \<or> ce_expected_peer e = tls_peer N (ce_conn e)")
     (auto simp: on_connected_def Let_def)

lemma on_connected_frame:
  "on_connected N now h e q = (e', q') \<Longrightarrow>
     ce_expected_peer e' = ce_expected_peer e \<and> ce_accepted_side e' = ce_accepted_side e
     \<and> ce_drained e' = ce_drained e \<and> ce_bi_queue e' = ce_bi_queue e \<and> ce_uni_queue e' = ce_uni_queue e"
  by (auto simp: on_connected_def Let_def split: option.splits if_splits)

text \<open>What one application event does to an entry and to the queue of accepted connections.\<close>

lemma on_event_effect:
  assumes "on_event N now h ev e q = Some (e', q')"
  shows "ce_expected_peer e' = ce_expected_peer e" and "ce_accepted_side e' = ce_accepted_side e"
    and "ce_drained e' = ce_drained e"
    and "ce_error e \<noteq> None \<longrightarrow> ce_error e' \<noteq> None"
    and "ce_connected e \<longrightarrow> ce_connected e'"
    and "entry_ok e \<longrightarrow> entry_ok e'"
    and "q' = q \<or> q' = q @ [h] \<and> ce_connected e' \<and> ce_accepted_side e'"
proof -
  have "ce_expected_peer e' = ce_expected_peer e \<and> ce_accepted_side e' = ce_accepted_side e
      \<and> ce_drained e' = ce_drained e \<and> (ce_error e \<noteq> None \<longrightarrow> ce_error e' \<noteq> None)
      \<and> (ce_connected e \<longrightarrow> ce_connected e') \<and> (entry_ok e \<longrightarrow> entry_ok e')
      \<and> (q' = q \<or> q' = q @ [h] \<and> ce_connected e' \<and> ce_accepted_side e')"
  proof (cases "ev = Connected")
    case True
    with assms have run: "on_connected N now h e q = (e', q')" by (simp add: on_event_def)
    from run show ?thesis
      by (cases rule: on_connected_cases)
         (use on_connected_frame [OF run] in \<open>auto simp: entry_ok_def\<close>)
  next
    case False
    with assms show ?thesis
      by (auto simp: on_event_def bind_Some split: event.splits)
  qed
  then show "ce_expected_peer e' = ce_expected_peer e" and "ce_accepted_side e' = ce_accepted_side e"
    and "ce_drained e' = ce_drained e" and "ce_error e \<noteq> None \<longrightarrow> ce_error e' \<noteq> None"
    and "ce_connected e \<longrightarrow> ce_connected e'" and "entry_ok e \<longrightarrow> entry_ok e'"
    and "q' = q \<or> q' = q @ [h] \<and> ce_connected e' \<and> ce_accepted_side e'" by blast+
qed

text \<open>A connection that finished its handshake is surfaced exactly when its TLS key is the
  peer it was bound to (or any key, where none was expected); otherwise it gets an error and
  is closed, and it is not queued for acceptance.\<close>

theorem connected_authenticates:
  "\<exists>e' q'. on_event N now h Connected e q = Some (e', q')
     \<and> (if \<exists>pid. tls_peer N (ce_conn e) = Some pid \<and> ce_expected_peer e \<in> {None, Some pid}
        then ce_connected e' \<and> ce_peer e' = tls_peer N (ce_conn e) \<and> ce_error e' = ce_error e
             \<and> q' = q @ (if ce_accepted_side e then [h] else [])
        else ce_connected e' = ce_connected e \<and> ce_peer e' = ce_peer e \<and> q' = q
             \<and> ce_error e' = Some (ConnectFailed ''authenticated key differs from the addressed peer'')
             \<and> ce_conn e' = nc_close N now 1 (string_bytes ''identity mismatch'') (ce_conn e))"
proof -
  obtain e' q' where run: "on_connected N now h e q = (e', q')" by force
  then have ev: "on_event N now h Connected e q = Some (e', q')" by (simp add: on_event_def)
  from run show ?thesis
  proof (cases rule: on_connected_cases)
    case (authenticated pid)
    with ev show ?thesis by auto
  next
    case refused
    with ev show ?thesis by auto
  qed
qed

subsection \<open>The invariant and the latches\<close>

lemma route_transmit_effect:
  assumes "route_transmit tx buf s = Inr s'"
  shows "st_conns s' = st_conns s" and "st_accept_queue s' = st_accept_queue s"
    and "state_inv s' = state_inv s" and "st_routes s' = st_routes s"
    and "st_addr_to_peer s' = st_addr_to_peer s"
  using assms
  by (auto simp: route_transmit_def split: sum.splits option.splits route_wire.splits)

lemma state_inv_queue:
  "state_inv s \<Longrightarrow> h \<in> fst ` set (st_conns s) \<Longrightarrow>
     state_inv (s\<lparr>st_accept_queue := st_accept_queue s @ [h]\<rparr>)"
  by (auto simp: inv_defs)

lemma state_inv_put_entry: "state_inv s \<Longrightarrow> entry_ok e \<Longrightarrow> state_inv (put_entry h e s)"
  unfolding put_entry_def by (rule state_inv_put)

lemma state_inv_entry: "state_inv s \<Longrightarrow> map_of (st_conns s) h = Some e \<Longrightarrow> entry_ok e"
  using entry_of_ok by (auto simp: state_inv_def)

lemma entry_ok_mark_drained [simp]: "entry_ok (mark_drained N e) = entry_ok e"
  by (simp add: mark_drained_def entry_ok_def)

lemma conn_step_inv:
  assumes "conn_step N now s t" and "state_inv s"
  shows "state_inv t"
  using assms
proof (cases rule: conn_step_cases)
  case (endpoint_event h e ev c bk n)
  with assms(2) show ?thesis by (simp add: state_inv_put_entry state_inv_entry)
next
  case (app_event h e ev c e' q)
  note eff = on_event_effect [OF app_event(4)]
  have "h \<in> fst ` set (st_conns s)" using app_event(2) by (force dest: map_of_SomeD)
  then have "state_inv (s\<lparr>st_accept_queue := q\<rparr>)"
    using eff(7) assms(2) state_inv_queue by (metis state.surjective state.update_convs(6))
  with eff(6) state_inv_entry [OF assms(2) app_event(2)] app_event(1) show ?thesis
    by (simp add: state_inv_put_entry)
next
  case (transmits h e tx buf c s')
  with assms(2) route_transmit_effect [OF transmits(4)] show ?thesis
    by (simp add: state_inv_put_entry state_inv_entry)
qed (use assms(2) in \<open>simp_all add: state_inv_put_entry state_inv_entry\<close>)

interpretation drain_inv: invariant_system state_inv "conn_step N now" state_inv for N now
  by unfold_locales (auto intro: conn_step_inv)

text \<open>An entry's flags, as a predicate on states.\<close>

definition entry_has :: "nat \<Rightarrow> ('c conn_entry \<Rightarrow> bool) \<Rightarrow> ('n, 'c) state \<Rightarrow> bool" where
  "entry_has h P s \<longleftrightarrow> (\<exists>e. map_of (st_conns s) h = Some e \<and> P e)"

lemma entry_has_put:
  assumes "entry_has h P s" and "map_of (st_conns s) h' = Some e" and "st_conns s' = st_conns s"
    and "h' = h \<Longrightarrow> P e \<Longrightarrow> P e'"
  shows "entry_has h P (put_entry h' e' s')"
proof (cases "h' = h")
  case True
  with assms show ?thesis by (auto simp: entry_has_def)
next
  case False
  with assms show ?thesis by (simp add: entry_has_def put_entry_other)
qed

lemma entry_has_does:
  assumes "entry_has h P s" and "conn_does N now s l t"
    and conn: "\<And>e c. P e \<Longrightarrow> P (e\<lparr>ce_conn := c\<rparr>)" and drained: "\<And>e. P e \<Longrightarrow> P (mark_drained N e)"
    and event: "\<And>ev e c q e' q'. on_event N now h ev (e\<lparr>ce_conn := c\<rparr>) q = Some (e', q') \<Longrightarrow>
      l = Handled h ev c \<Longrightarrow> P e \<Longrightarrow> P e'"
  shows "entry_has h P t"
  using assms(2)
proof (cases rule: conn_does.cases)
  case (transmits h' e tx buf c s')
  show ?thesis
    unfolding transmits(2)
    by (rule entry_has_put [OF assms(1) transmits(3) route_transmit_effect(1) [OF transmits(5)]])
       (rule conn)
next
  case (app_event h' e ev c e' q)
  show ?thesis
    unfolding app_event(2)
    by (rule entry_has_put [OF assms(1) app_event(3)]) (use app_event(1,5) event in auto)
next
  case (endpoint_event h' e ev c bk n)
  show ?thesis
    unfolding endpoint_event(2)
    by (rule entry_has_put [OF assms(1) endpoint_event(3)]) (simp_all add: conn)
next
  case (quiet h' e c)
  show ?thesis unfolding quiet(2) by (rule entry_has_put [OF assms(1) quiet(3)]) (simp_all add: conn)
next
  case (drains h' e)
  show ?thesis unfolding drains(2) by (rule entry_has_put [OF assms(1) drains(3)]) (simp_all add: drained)
qed

lemma entry_has_step:
  assumes "entry_has h P s" and "conn_step N now s t"
    and conn: "\<And>e c. P e \<Longrightarrow> P (e\<lparr>ce_conn := c\<rparr>)" and drained: "\<And>e. P e \<Longrightarrow> P (mark_drained N e)"
    and event: "\<And>ev e q e' q'. on_event N now h ev e q = Some (e', q') \<Longrightarrow> P e \<Longrightarrow> P e'"
  shows "entry_has h P t"
proof -
  obtain l where "conn_does N now s l t" using assms(2) by (auto simp: conn_step_def)
  from entry_has_does [where P = P, OF assms(1) this conn drained] event [OF _ conn] show ?thesis by blast
qed

interpretation errored: latched "conn_step N now" "entry_has h (\<lambda>e. ce_error e \<noteq> None)" for N now h
  by unfold_locales
     (rule entry_has_step, assumption+, auto simp: mark_drained_def dest: on_event_effect(4))

interpretation established:
  latched "conn_step N now" "entry_has h (\<lambda>e. ce_connected e \<and> ce_accepted_side e)" for N now h
  by unfold_locales
     (rule entry_has_step, assumption+, auto simp: mark_drained_def dest: on_event_effect(2,5))

subsection \<open>What a drain surfaces and sends\<close>

text \<open>A connection may be accepted on the strength of a handshake: it came in, and the TLS key of the
  connection that reported the handshake is the peer it is bound to, if any. A step that handles such a report
  surfaces its handle.\<close>

definition admits :: "('n, 'c, 'i, 'ce, 'ee, 'z) noq_scheme \<Rightarrow> 'c conn_entry \<Rightarrow> 'c \<Rightarrow> bool" where
  "admits N e c \<longleftrightarrow>
     ce_accepted_side e
     \<and> (case tls_peer N c of None \<Rightarrow> False | Some pid \<Rightarrow> ce_expected_peer e = None \<or> ce_expected_peer e = Some pid)"

definition surfaces :: "('n, 'c, 'i, 'ce, 'ee, 'z) noq_scheme \<Rightarrow> ('n, 'c) state \<Rightarrow> 'c drain_event \<Rightarrow> nat list" where
  "surfaces N s l =
     (case l of
        Handled h Connected c \<Rightarrow>
          (case map_of (st_conns s) h of None \<Rightarrow> [] | Some e \<Rightarrow> if admits N e c then [h] else [])
      | _ \<Rightarrow> [])"

text \<open>An entry that such a report of the trace authenticated.\<close>

definition authenticated_by ::
  "('n, 'c, 'i, 'ce, 'ee, 'z) noq_scheme \<Rightarrow> 'c drain_event list \<Rightarrow> nat \<Rightarrow> 'c conn_entry \<Rightarrow> bool" where
  "authenticated_by N tr h e \<longleftrightarrow>
     ce_accepted_side e \<and> ce_connected e
     \<and> (\<exists>pid c. ce_peer e = Some pid \<and> Handled h Connected c \<in> set tr \<and> tls_peer N c = Some pid
          \<and> (\<forall>x. ce_expected_peer e = Some x \<longrightarrow> x = pid))"

lemma authenticated_by_frame [simp]:
  "authenticated_by N tr h (e\<lparr>ce_conn := c\<rparr>) = authenticated_by N tr h e"
  "authenticated_by N tr h (e\<lparr>ce_drained := b\<rparr>) = authenticated_by N tr h e"
  by (simp_all add: authenticated_by_def)

text \<open>Which side opened a connection, and which peer it is bound to, never changes.\<close>

definition same_sides :: "('n, 'c) state \<Rightarrow> ('n, 'c) state \<Rightarrow> bool" where
  "same_sides s t \<longleftrightarrow>
     (\<forall>h. map_option (\<lambda>e. (ce_accepted_side e, ce_expected_peer e)) (map_of (st_conns t) h)
        = map_option (\<lambda>e. (ce_accepted_side e, ce_expected_peer e)) (map_of (st_conns s) h))"

lemma same_sides_put:
  assumes "map_of (st_conns s) h = Some e" and "st_conns s' = st_conns s"
    and "ce_accepted_side e' = ce_accepted_side e" and "ce_expected_peer e' = ce_expected_peer e"
  shows "same_sides s (put_entry h e' s')"
  unfolding same_sides_def
proof
  fix h'
  show "map_option (\<lambda>e. (ce_accepted_side e, ce_expected_peer e)) (map_of (st_conns (put_entry h e' s')) h')
      = map_option (\<lambda>e. (ce_accepted_side e, ce_expected_peer e)) (map_of (st_conns s) h')"
    using assms by (cases "h' = h") (simp_all add: put_entry_other)
qed

lemma same_sides_step:
  assumes "conn_step N now s t"
  shows "same_sides s t"
  using assms
proof (cases rule: conn_step_cases)
  case (app_event h e ev c e' q)
  from on_event_effect(1,2) [OF app_event(4)] show ?thesis
    unfolding app_event(1) by (intro same_sides_put [OF app_event(2)]) simp_all
next
  case (transmits h e tx buf c s')
  then show ?thesis using route_transmit_effect(1) [OF transmits(4)] by (simp add: same_sides_put)
qed (simp_all add: same_sides_put mark_drained_def)

lemma surfaces_same: "same_sides s t \<Longrightarrow> surfaces N t l = surfaces N s l"
  unfolding same_sides_def surfaces_def admits_def
  by (cases l) (auto split: event.split option.splits, (metis (no_types, lifting) option.map_disc_iff option.map_sel
      option.sel option.simps(9) prod.inject option.distinct(1))+)

lemma on_event_surfaces:
  assumes "on_event N now h ev (e\<lparr>ce_conn := c\<rparr>) q = Some (e', q')"
  shows "q' = q @ (if ev = Connected \<and> admits N e c then [h] else [])"
    and "Handled h ev c \<in> set tr \<Longrightarrow> authenticated_by N tr h e \<or> ev = Connected \<and> admits N e c \<Longrightarrow>
      authenticated_by N tr h e'"
proof -
  have "q' = q @ (if ev = Connected \<and> admits N e c then [h] else [])
      \<and> (Handled h ev c \<in> set tr \<longrightarrow> authenticated_by N tr h e \<or> ev = Connected \<and> admits N e c \<longrightarrow> authenticated_by N tr h e')"
  proof (cases "ev = Connected")
    case True
    with assms have run: "on_connected N now h (e\<lparr>ce_conn := c\<rparr>) q = (e', q')" by (simp add: on_event_def)
    from run show ?thesis
      by (cases rule: on_connected_cases)
        (use on_connected_frame [OF run] True in \<open>auto simp: admits_def authenticated_by_def split: option.splits\<close>)
  next
    case False
    with assms show ?thesis
      by (auto simp: on_event_def authenticated_by_def bind_Some split: event.splits)
  qed
  then show "q' = q @ (if ev = Connected \<and> admits N e c then [h] else [])"
    "Handled h ev c \<in> set tr \<Longrightarrow> authenticated_by N tr h e \<or> ev = Connected \<and> admits N e c \<Longrightarrow> authenticated_by N tr h e'"
    by blast+
qed

lemma surfaces_step:
  assumes "conn_does N now s l t"
  shows "st_accept_queue t = st_accept_queue s @ surfaces N s l"
  using assms
proof (cases rule: conn_does.cases)
  case (app_event h e ev c e' q)
  then show ?thesis using on_event_surfaces(1) [OF app_event(5)] by (cases ev) (simp_all add: surfaces_def)
next
  case (transmits h e tx buf c s')
  then show ?thesis using route_transmit_effect(2) [OF transmits(5)] by (simp add: surfaces_def)
qed (simp_all add: surfaces_def)

lemma trace_surfaces:
  "drain_trace N now s tr t \<Longrightarrow>
     same_sides s t \<and> st_accept_queue t = st_accept_queue s @ concat (map (surfaces N s) tr)"
proof (induction rule: drain_trace.induct)
  case trace_start
  show ?case by (simp add: same_sides_def)
next
  case (trace_step tr t l u)
  have "same_sides t u" using same_sides_step [OF conn_stepI [OF trace_step(2)]] .
  with trace_step surfaces_step [OF trace_step(2)] surfaces_same [of s t N l] show ?case
    by (auto simp: same_sides_def)
qed

lemma authenticated_by_step:
  assumes "conn_does N now s l t"
    and "entry_has h (authenticated_by N tr h) s \<or> h \<in> set (surfaces N s l)"
  shows "entry_has h (authenticated_by N (tr @ [l]) h) t"
proof (cases "h \<in> set (surfaces N s l)")
  case True
  then obtain e c where l: "l = Handled h Connected c" "map_of (st_conns s) h = Some e" "admits N e c"
    by (cases l; cases "map_of (st_conns s) h") (auto simp: surfaces_def split: event.splits option.splits if_splits)
  from assms(1) show ?thesis
  proof (cases rule: conn_does.cases)
    case (app_event h' e' ev c' e'' q)
    with l on_event_surfaces(2) [OF app_event(5), of "tr @ [l]"] show ?thesis by (simp add: entry_has_def)
  qed (use l in simp_all)
next
  case False
  have "entry_has h (authenticated_by N (tr @ [l]) h) s"
    using assms(2) False by (auto simp: entry_has_def authenticated_by_def)
  from this assms(1) show ?thesis
    by (rule entry_has_does)
      (auto simp: mark_drained_def intro: on_event_surfaces(2))
qed

lemma trace_authentic:
  "drain_trace N now s tr t \<Longrightarrow> h \<in> set (concat (map (surfaces N s) tr)) \<Longrightarrow>
     entry_has h (authenticated_by N tr h) t"
proof (induction rule: drain_trace.induct)
  case (trace_step tr t l u)
  have "surfaces N t l = surfaces N s l" using trace_surfaces [OF trace_step(1)] surfaces_same by blast
  with trace_step.IH trace_step.prems authenticated_by_step [OF trace_step(2)] show ?case by auto
qed simp

text \<open>A later trace keeps what an earlier one authenticated.\<close>

lemma trace_keeps_authentic:
  "drain_trace N now s es t \<Longrightarrow> entry_has h (authenticated_by N tr h) s \<Longrightarrow> entry_has h (authenticated_by N (tr @ es) h) t"
proof (induction rule: drain_trace.induct)
  case (trace_step es t l u)
  from authenticated_by_step [OF trace_step(2), of h "tr @ es"] trace_step.IH trace_step.prems show ?case by simp
qed simp

lemma authenticated_by_mono: "authenticated_by N es h e \<Longrightarrow> authenticated_by N (tr @ es) h e"
  by (auto simp: authenticated_by_def)

text \<open>The packets of a trace, with their own destinations, and where the routes send them.\<close>

definition packets :: "'c drain_event list \<Rightarrow> (socket_addr \<times> bytes) list" where
  "packets tr =
     concat (map (\<lambda>l. case l of Polled h tx buf \<Rightarrow> [(destination tx, take (tx_size tx) buf)] | _ \<Rightarrow> []) tr)"

definition relayed :: "('n, 'c) state \<Rightarrow> (socket_addr \<times> bytes) list \<Rightarrow> (u32 \<times> endpoint_id \<times> bytes) list" where
  "relayed s ps =
     concat (map (\<lambda>(a, d). case (st_routes s a, st_addr_to_peer s a) of
        (Some (Relay key), Some peer) \<Rightarrow> [(key, peer, d)] | _ \<Rightarrow> []) ps)"

definition channeled :: "('n, 'c) state \<Rightarrow> (socket_addr \<times> bytes) list \<Rightarrow> (u32 \<times> bytes) list" where
  "channeled s ps = concat (map (\<lambda>(a, d). case st_routes s a of Some (Channel cid) \<Rightarrow> [(cid, d)] | _ \<Rightarrow> []) ps)"

definition unrouted :: "('n, 'c) state \<Rightarrow> (socket_addr \<times> bytes) list \<Rightarrow> (socket_addr \<times> bytes) list" where
  "unrouted s ps = filter (\<lambda>(a, d). st_routes s a = None) ps"

lemmas packet_defs = packets_def relayed_def channeled_def unrouted_def

text \<open>All packets are accounted for: a relayed destination has a peer.\<close>

definition sends :: "('n, 'c) state \<Rightarrow> (socket_addr \<times> bytes) list \<Rightarrow> ('n, 'c) state \<Rightarrow> bool" where
  "sends s ps t \<longleftrightarrow>
     st_routes t = st_routes s \<and> st_addr_to_peer t = st_addr_to_peer s
     \<and> st_relay_outbound t = st_relay_outbound s @ relayed s ps
     \<and> st_channel_outbound t = st_channel_outbound s @ channeled s ps
     \<and> st_udp_outbound t = st_udp_outbound s @ unrouted s ps
     \<and> (\<forall>(a, d)\<in>set ps. \<forall>key. st_routes s a = Some (Relay key) \<longrightarrow> st_addr_to_peer s a \<noteq> None)"

lemma route_transmit_sends:
  assumes "route_transmit tx buf s = Inr s'"
  shows "sends s [(destination tx, take (tx_size tx) buf)] (put_entry h e s')"
  using assms
  by (auto simp: route_transmit_def sends_def packet_defs slice_to_def
      split: sum.splits option.splits route_wire.splits if_splits)

lemma sends_step: "conn_does N now s l t \<Longrightarrow> sends s (packets [l]) t"
  by (cases rule: conn_does.cases, assumption)
    (auto simp: packets_def route_transmit_sends, simp_all add: sends_def packet_defs)

lemma sends_append: "sends s ps t \<Longrightarrow> sends t qs u \<Longrightarrow> sends s (ps @ qs) u"
  by (auto simp: sends_def packet_defs)

lemma trace_sends: "drain_trace N now s tr t \<Longrightarrow> sends s (packets tr) t"
proof (induction rule: drain_trace.induct)
  case trace_start
  show ?case by (simp add: sends_def packet_defs)
next
  case (trace_step tr t l u)
  from sends_append [OF trace_step.IH sends_step [OF trace_step(2)]] show ?case by (simp add: packets_def)
qed

text \<open>What is queued was queued before, or is connected.\<close>

lemma drain_surfaced:
  assumes "drain N now s = Some (Inr s')"
  shows "\<exists>hs. st_accept_queue s' = st_accept_queue s @ hs
     \<and> (\<forall>h\<in>set hs. entry_has h (\<lambda>e. ce_connected e \<and> ce_accepted_side e) s')"
proof -
  obtain tr where tr: "drain_trace N now s tr s'" using conn_steps_trace [OF drain_steps [OF assms]] by blast
  show ?thesis
    by (rule exI [of _ "concat (map (surfaces N s) tr)"])
      (use trace_surfaces [OF tr] trace_authentic [OF tr] in \<open>fastforce simp: entry_has_def authenticated_by_def\<close>)
qed

text \<open>C10. A drain queues for acceptance exactly the handles whose connection reported a finished handshake with the TLS
  key of the peer it is bound to (any key, where none is bound) and that came in, in the order of the reports, behind
  what was queued before; and each of them is, after the drain, an accepted, connected entry whose peer is the TLS key
  of such a report.\<close>

theorem drain_surfaces_authenticated:
  assumes "drain N now s = Some (Inr s')"
  shows "\<exists>tr hs. drain_trace N now s tr s' \<and> hs = concat (map (surfaces N s) tr)
     \<and> st_accept_queue s' = st_accept_queue s @ hs
     \<and> (\<forall>h\<in>set hs. \<exists>e pid c. map_of (st_conns s') h = Some e \<and> ce_accepted_side e \<and> ce_connected e
          \<and> ce_peer e = Some pid \<and> Handled h Connected c \<in> set tr \<and> tls_peer N c = Some pid
          \<and> (\<forall>x. ce_expected_peer e = Some x \<longrightarrow> x = pid))"
proof -
  obtain tr where tr: "drain_trace N now s tr s'" using conn_steps_trace [OF drain_steps [OF assms]] by blast
  with trace_surfaces [OF tr] trace_authentic [OF tr] show ?thesis
    by (intro exI [of _ tr]) (fastforce simp: entry_has_def authenticated_by_def)
qed

text \<open>C13. Every packet a drain sends goes out on the wire its own destination is routed to, whole and in order: over
  the packets noq produced in its polls, those whose destination has a relay route are queued for the peer that owns
  the standin on the relay of the route, those with a channel route for the channel of the route, and those without
  a route, and no others, for their destination on the UDP socket; the routes stay as they are.\<close>

theorem drain_routes_faithfully:
  assumes "drain N now s = Some (Inr s')"
  shows "\<exists>tr. drain_trace N now s tr s'
     \<and> st_relay_outbound s' = st_relay_outbound s @ relayed s (packets tr)
     \<and> st_channel_outbound s' = st_channel_outbound s @ channeled s (packets tr)
     \<and> st_udp_outbound s' = st_udp_outbound s @ unrouted s (packets tr)
     \<and> (\<forall>(a, d)\<in>set (packets tr). \<forall>key. st_routes s a = Some (Relay key) \<longrightarrow> st_addr_to_peer s a \<noteq> None)
     \<and> st_routes s' = st_routes s \<and> st_addr_to_peer s' = st_addr_to_peer s"
proof -
  obtain tr where tr: "drain_trace N now s tr s'" using conn_steps_trace [OF drain_steps [OF assms]] by blast
  with trace_sends [OF tr] show ?thesis by (auto simp: sends_def)
qed

subsection \<open>Draining ends without a panic\<close>

lemma backlogD:
  assumes "noq_finite_backlog N rank fed closing"
  shows "nc_poll_endpoint_events N c = (r, c') \<Longrightarrow> rank c' + (if r = None then 0 else fed + 1) \<le> rank c"
    and "nc_poll N c = (r', c') \<Longrightarrow> rank c' + (if r' = None then 0 else closing + 1) \<le> rank c"
    and "nc_poll_transmit N now c = (r'', buf, c') \<Longrightarrow> rank c' + (if r'' = None then 0 else 1) \<le> rank c"
    and "nc_streams_accept N d c = (r3, c') \<Longrightarrow> rank c' + (if r3 = None then 0 else 1) \<le> rank c"
    and "nq_handle_event N h ev n = (bk, n') \<Longrightarrow>
         rank (case bk of None \<Rightarrow> c | Some b \<Rightarrow> nc_handle_event N b c) \<le> rank c + fed"
    and "rank (nc_close N now code reason c) \<le> rank c + closing"
proof -
  show "rank (case bk of None \<Rightarrow> c | Some b \<Rightarrow> nc_handle_event N b c) \<le> rank c + fed"
    if "nq_handle_event N h ev n = (bk, n')"
  proof (cases bk)
    case (Some b)
    have "\<forall>h ev n b n' c. nq_handle_event N h ev n = (Some b, n') \<longrightarrow> rank (nc_handle_event N b c) \<le> rank c + fed"
      using assms unfolding noq_finite_backlog_def by (elim conjE)
    from this [rule_format, OF that [unfolded Some]] Some show ?thesis by simp
  qed simp
qed (use assms in \<open>simp_all add: noq_finite_backlog_def del: if_split\<close>)

lemma accept_streams_total:
  assumes "noq_finite_backlog N rank fed closing"
  shows "\<exists>c' q'. accept_streams N d c q = Some (c', q') \<and> rank c' \<le> rank c"
proof (induction "rank c" arbitrary: c q rule: less_induct)
  case less
  obtain r c1 where poll: "nc_streams_accept N d c = (r, c1)" by force
  then have le: "rank c1 + (if r = None then 0 else 1) \<le> rank c"
    using backlogD [OF assms] by simp
  show ?case
  proof (cases r)
    case None
    with poll le show ?thesis by (subst accept_streams.simps) simp
  next
    case (Some i)
    with le have "rank c1 < rank c" by simp
    from less [OF this, of "q @ [i]"] poll Some le show ?thesis
      by (subst accept_streams.simps) (auto intro: order_trans)
  qed
qed

lemma on_event_total:
  assumes "noq_finite_backlog N rank fed closing"
  shows "\<exists>e' q'. on_event N now h ev e q = Some (e', q') \<and> rank (ce_conn e') \<le> rank (ce_conn e) + closing"
proof -
  have close: "rank (nc_close N now code reason c) \<le> rank c + closing" for code reason c
    using backlogD [OF assms] by simp
  obtain c1 q1 where a1: "accept_streams N Bi (ce_conn e) (ce_bi_queue e) = Some (c1, q1)"
    "rank c1 \<le> rank (ce_conn e)" using accept_streams_total [OF assms] by blast
  obtain c2 q2 where a2: "accept_streams N Uni c1 (ce_uni_queue e) = Some (c2, q2)"
    "rank c2 \<le> rank c1" using accept_streams_total [OF assms] by blast
  obtain e' q' where oc: "on_connected N now h e q = (e', q')" by force
  have "rank (ce_conn e') \<le> rank (ce_conn e) + closing"
    using oc by (cases rule: on_connected_cases) (simp_all add: close)
  with a1 a2 oc show ?thesis by (cases ev) (simp_all add: on_event_def)
qed

lemma endpoint_events_loop_total:
  assumes "noq_finite_backlog N rank fed closing"
  shows "\<exists>e' s' p'. endpoint_events_loop N h e s p = Some (e', s', p')
           \<and> rank (ce_conn e') \<le> rank (ce_conn e) \<and> (p' \<longrightarrow> p \<or> rank (ce_conn e') < rank (ce_conn e))
           \<and> st_routes s' = st_routes s \<and> st_addr_to_peer s' = st_addr_to_peer s"
proof (induction "rank (ce_conn e)" arbitrary: e s p rule: less_induct)
  case less
  obtain r c where poll: "nc_poll_endpoint_events N (ce_conn e) = (r, c)" by force
  then have le: "rank c + (if r = None then 0 else fed + 1) \<le> rank (ce_conn e)"
    using backlogD [OF assms] by simp
  show ?case
  proof (cases r)
    case None
    with poll le show ?thesis by (subst endpoint_events_loop.simps) simp
  next
    case (Some x)
    obtain bk n where bk: "nq_handle_event N h x (st_noq s) = (bk, n)" by force
    let ?c = "case bk of None \<Rightarrow> c | Some b \<Rightarrow> nc_handle_event N b c"
    have "rank ?c \<le> rank c + fed"
      using backlogD(5) [OF assms bk] .
    with le Some have lt: "rank ?c < rank (ce_conn e)" by simp
    then have "rank (ce_conn (e\<lparr>ce_conn := ?c\<rparr>)) < rank (ce_conn e)" by simp
    from less [OF this, of "s\<lparr>st_noq := n\<rparr>" True] lt poll Some bk show ?thesis
      by (subst endpoint_events_loop.simps) auto
  qed
qed

lemma app_events_loop_total:
  assumes "noq_finite_backlog N rank fed closing"
  shows "\<exists>e' s' p'. app_events_loop N now h e s p = Some (e', s', p')
           \<and> rank (ce_conn e') \<le> rank (ce_conn e) \<and> (p' \<longrightarrow> p \<or> rank (ce_conn e') < rank (ce_conn e))
           \<and> st_routes s' = st_routes s \<and> st_addr_to_peer s' = st_addr_to_peer s"
proof (induction "rank (ce_conn e)" arbitrary: e s p rule: less_induct)
  case less
  obtain r c where poll: "nc_poll N (ce_conn e) = (r, c)" by force
  then have le: "rank c + (if r = None then 0 else closing + 1) \<le> rank (ce_conn e)"
    using backlogD [OF assms] by simp
  show ?case
  proof (cases r)
    case None
    with poll le show ?thesis by (subst app_events_loop.simps) simp
  next
    case (Some x)
    obtain e1 q1 where ev: "on_event N now h x (e\<lparr>ce_conn := c\<rparr>) (st_accept_queue s) = Some (e1, q1)"
      and le1: "rank (ce_conn e1) \<le> rank c + closing"
      using on_event_total [OF assms, of now h x "e\<lparr>ce_conn := c\<rparr>" "st_accept_queue s"] by auto
    have lt: "rank (ce_conn e1) < rank (ce_conn e)" using le le1 Some by simp
    from less [OF this, of "s\<lparr>st_accept_queue := q1\<rparr>" True] lt poll Some ev show ?thesis
      by (subst app_events_loop.simps) auto
  qed
qed

lemma route_transmit_total:
  assumes "dom (st_routes s) \<subseteq> dom (st_addr_to_peer s)" and "tx_size tx \<le> length buf"
  shows "\<exists>s'. route_transmit tx buf s = Inr s'"
  using assms
  by (auto simp: route_transmit_def slice_to_def split: option.split route_wire.split)

lemma transmit_loop_total:
  assumes "noq_finite_backlog N rank fed closing" and "noq_sizes N"
    and "dom (st_routes s) \<subseteq> dom (st_addr_to_peer s)"
  shows "\<exists>e' s' p'. transmit_loop N now e s p = Some (Inr (e', s', p'))
           \<and> rank (ce_conn e') \<le> rank (ce_conn e) \<and> (p' \<longrightarrow> p \<or> rank (ce_conn e') < rank (ce_conn e))
           \<and> st_routes s' = st_routes s \<and> st_addr_to_peer s' = st_addr_to_peer s"
  using assms(3)
proof (induction "rank (ce_conn e)" arbitrary: e s p rule: less_induct)
  case less
  obtain r buf c where poll: "nc_poll_transmit N now (ce_conn e) = (r, buf, c)" by (metis prod_cases3)
  then have le: "rank c + (if r = None then 0 else 1) \<le> rank (ce_conn e)"
    using backlogD [OF assms(1)] by simp
  show ?case
  proof (cases r)
    case None
    with poll le show ?thesis by (subst transmit_loop.simps) simp
  next
    case (Some tx)
    then have "tx_size tx \<le> length buf" using poll assms(2) unfolding noq_sizes_def by blast
    with less.prems obtain s1 where rt: "route_transmit tx buf s = Inr s1"
      using route_transmit_total by blast
    note eff = route_transmit_effect [OF rt]
    have lt: "rank c < rank (ce_conn e)" using le Some by simp
    then have "rank (ce_conn (e\<lparr>ce_conn := c\<rparr>)) < rank (ce_conn e)" by simp
    from less.hyps [OF this, of s1 True] less.prems eff lt poll Some rt show ?thesis
      by (subst transmit_loop.simps) auto
  qed
qed

lemma drain_conn_total:
  assumes "noq_finite_backlog N rank fed closing" and "noq_sizes N"
    and "dom (st_routes s) \<subseteq> dom (st_addr_to_peer s)"
  shows "\<exists>e' s'. drain_conn N now h e s = Some (Inr (e', s'))
           \<and> st_routes s' = st_routes s \<and> st_addr_to_peer s' = st_addr_to_peer s"
  using assms(3)
proof (induction "rank (ce_conn e)" arbitrary: e s rule: less_induct)
  case less
  obtain e1 s1 p1 where l1: "endpoint_events_loop N h e s False = Some (e1, s1, p1)"
    "rank (ce_conn e1) \<le> rank (ce_conn e)" "p1 \<longrightarrow> rank (ce_conn e1) < rank (ce_conn e)"
    "st_routes s1 = st_routes s" "st_addr_to_peer s1 = st_addr_to_peer s"
    using endpoint_events_loop_total [OF assms(1), of h e s False] by auto
  obtain e2 s2 p2 where l2: "app_events_loop N now h e1 s1 p1 = Some (e2, s2, p2)"
    "rank (ce_conn e2) \<le> rank (ce_conn e1)" "p2 \<longrightarrow> p1 \<or> rank (ce_conn e2) < rank (ce_conn e1)"
    "st_routes s2 = st_routes s" "st_addr_to_peer s2 = st_addr_to_peer s"
    using app_events_loop_total [OF assms(1), of now h e1 s1 p1] l1 by auto
  obtain e3 s3 p3 where l3: "transmit_loop N now e2 s2 p2 = Some (Inr (e3, s3, p3))"
    "rank (ce_conn e3) \<le> rank (ce_conn e2)" "p3 \<longrightarrow> p2 \<or> rank (ce_conn e3) < rank (ce_conn e2)"
    "st_routes s3 = st_routes s" "st_addr_to_peer s3 = st_addr_to_peer s"
    using transmit_loop_total [OF assms(1,2), of s2 now e2 p2] l2 less.prems by auto
  have unfold: "drain_conn N now h e s = (if p3 then drain_conn N now h e3 s3 else Some (Inr (e3, s3)))"
    by (subst drain_conn.simps) (simp add: l1 l2 l3)
  show ?case
  proof (cases p3)
    case True
    then have "rank (ce_conn e3) < rank (ce_conn e)"
      using l1(2,3) l2(2,3) l3(2,3) by auto
    from less.hyps [OF this, of s3] less.prems l3 True unfold show ?thesis by simp
  next
    case False
    with unfold l3 show ?thesis by simp
  qed
qed

lemma drain_handles_total:
  assumes "noq_finite_backlog N rank fed closing" and "noq_sizes N"
  shows "dom (st_routes s) \<subseteq> dom (st_addr_to_peer s) \<Longrightarrow> \<exists>s'. drain_handles N now hs s = Some (Inr s')"
proof (induction hs arbitrary: s)
  case (Cons h hs)
  show ?case
  proof (cases "map_of (st_conns s) h")
    case None
    with Cons show ?thesis by simp
  next
    case (Some e)
    obtain e1 s1 where d: "drain_conn N now h e s = Some (Inr (e1, s1))"
      "st_routes s1 = st_routes s" "st_addr_to_peer s1 = st_addr_to_peer s"
      using drain_conn_total [OF assms Cons.prems] by blast
    have "dom (st_routes (put_entry h (mark_drained N e1) s1)) \<subseteq>
          dom (st_addr_to_peer (put_entry h (mark_drained N e1) s1))"
      using d Cons.prems by simp
    from Cons.IH [OF this] show ?thesis using Some d by simp
  qed
qed simp

text \<open>C12. On a sound state a drain always ends, it never panics (every routed address has its
  peer), and it leaves a sound state, for a noq whose queues are finite and whose transmits
  fit their buffers.\<close>

theorem drain_ends_soundly:
  assumes "state_inv s" and "noq_finite_backlog N rank fed closing" and "noq_sizes N"
  shows "\<exists>s'. drain N now s = Some (Inr s') \<and> state_inv s'"
proof -
  have "dom (st_routes s) \<subseteq> dom (st_addr_to_peer s)"
    using assms(1) by (simp add: state_inv_def book_ok_def)
  then obtain s' where s': "drain N now s = Some (Inr s')"
    unfolding drain_def using drain_handles_total [OF assms(2,3)] by blast
  with drain_inv.inv_rtranclp [OF drain_steps [OF s'] assms(1)] show ?thesis by blast
qed

subsection \<open>Witnesses\<close>

definition toy_rank :: "toy_conn \<Rightarrow> nat" where
  "toy_rank c = length (tc_to_endpoint c) + length (tc_events c) + length (tc_transmits c) + tc_streams c"

lemma toy_finite_backlog: "noq_finite_backlog toy_noq toy_rank 0 0"
  by (auto simp: noq_finite_backlog_def toy_noq_def toy_rank_def split: list.splits if_splits)

text \<open>A connection from the relayed peer 9, about to report its handshake and to send.\<close>

definition toy_peer_entry :: "toy_conn conn_entry" where
  "toy_peer_entry =
     conn_entry_new ((toy_start [9])\<lparr>tc_events := [Connected],
       tc_transmits := [(doc_prefix_addr 0x77 1, [4]), (V4 (1, 2, 3, 4) 5, [6])]\<rparr>) (Some [9]) True"

definition toy_busy :: "(nat, toy_conn) state" where
  "toy_busy = put_entry 0 toy_peer_entry (snd (addr_for_peer [9] 0 (toy_state True)))"

lemma toy_busy_inv: "state_inv toy_busy"
  unfolding toy_busy_def
  by (intro state_inv_put_entry state_inv_addr_for_peer [OF toy_state_inv prod.collapse [symmetric]])
     (simp add: toy_peer_entry_def)

lemma toy_busy_fields:
  "st_conns toy_busy = [(0, toy_peer_entry)]" "st_accept_queue toy_busy = []"
  "st_routes toy_busy (doc_prefix_addr 0x77 1) = Some (Relay 0)"
  "st_addr_to_peer toy_busy (doc_prefix_addr 0x77 1) = Some [9]"
  "st_routes toy_busy (V4 ip port) = None"
  "st_relay_outbound toy_busy = []" "st_udp_outbound toy_busy = []"
  by (simp_all add: toy_busy_def addr_for_peer_def Let_def put_entry_def doc_prefix_addr_def)
     (simp_all add: toy_state_def register_relay_def state_new_def)

lemma toy_busy_drain:
  "\<exists>s' e. drain toy_noq 0 toy_busy = Some (Inr s')
     \<and> st_accept_queue s' = [0] \<and> st_relay_outbound s' = [(0, [9], [4])]
     \<and> st_udp_outbound s' = [(V4 (1, 2, 3, 4) 5, [6])] \<and> map_of (st_conns s') 0 = Some e \<and> ce_peer e = Some [9]"
proof -
  define e1 where "e1 = toy_peer_entry\<lparr>ce_conn := (ce_conn toy_peer_entry)\<lparr>tc_events := []\<rparr>,
      ce_alpn := [104, 51], ce_peer := Some [9], ce_connected := True\<rparr>"
  define s1 where "s1 = toy_busy\<lparr>st_accept_queue := [0]\<rparr>"
  define e2 where "e2 = e1\<lparr>ce_conn := toy_start [9]\<rparr>"
  define s2 where "s2 = s1\<lparr>st_relay_outbound := [(0, [9], [4])], st_udp_outbound := [(V4 (1, 2, 3, 4) 5, [6])]\<rparr>"
  note defs = toy_peer_entry_def toy_start_def conn_entry_new_def
  have quiet: "endpoint_events_loop toy_noq 0 e s p = Some (e, s, p)"
    if "tc_to_endpoint (ce_conn e) = []" for e p and s :: "(nat, toy_conn) state"
    using that by (subst endpoint_events_loop.simps) simp
  have l1: "endpoint_events_loop toy_noq 0 toy_peer_entry toy_busy False = Some (toy_peer_entry, toy_busy, False)"
    by (rule quiet) (simp add: defs)
  have l2: "app_events_loop toy_noq 0 0 toy_peer_entry toy_busy False = Some (e1, s1, True)"
    by (subst app_events_loop.simps)
       (simp add: e1_def s1_def defs on_event_def on_connected_def tls_peer_def
         endpoint_id_from_spki_def toy_busy_fields, subst app_events_loop.simps, simp)
  have l3: "transmit_loop toy_noq 0 e1 s1 True = Some (Inr (e2, s2, True))"
    by (subst transmit_loop.simps, simp add: e1_def e2_def s1_def s2_def defs
        route_transmit_def slice_to_def toy_busy_fields,
        subst transmit_loop.simps, simp add: route_transmit_def slice_to_def toy_busy_fields,
        subst transmit_loop.simps, simp)
  have r1: "endpoint_events_loop toy_noq 0 e2 s2 False = Some (e2, s2, False)"
    by (rule quiet) (simp add: e2_def defs)
  have r2: "app_events_loop toy_noq 0 0 e2 s2 False = Some (e2, s2, False)"
    by (subst app_events_loop.simps) (simp add: e2_def toy_start_def)
  have r3: "transmit_loop toy_noq 0 e2 s2 False = Some (Inr (e2, s2, False))"
    by (subst transmit_loop.simps) (simp add: e2_def toy_start_def)
  have "drain_conn toy_noq 0 0 e2 s2 = Some (Inr (e2, s2))"
    by (subst drain_conn.simps) (simp add: r1 r2 r3)
  then have "drain_conn toy_noq 0 0 toy_peer_entry toy_busy = Some (Inr (e2, s2))"
    by (subst drain_conn.simps) (simp add: l1 l2 l3)
  then have "drain toy_noq 0 toy_busy = Some (Inr (put_entry 0 e2 s2))"
    by (simp add: drain_def toy_busy_fields mark_drained_def e2_def toy_start_def)
  then show ?thesis by (simp add: e1_def e2_def s1_def s2_def)
qed

theorem drain_ends_soundly_witness:
  "\<exists>s'. drain toy_noq 0 toy_busy = Some (Inr s') \<and> state_inv s'"
  by (rule drain_ends_soundly [OF toy_busy_inv toy_finite_backlog toy_noq_sizes])

theorem drain_surfaces_authenticated_witness:
  "\<exists>s' e c. drain toy_noq 0 toy_busy = Some (Inr s') \<and> st_accept_queue s' = [0]
     \<and> map_of (st_conns s') 0 = Some e \<and> ce_connected e \<and> ce_accepted_side e \<and> ce_peer e = tls_peer toy_noq c"
proof -
  obtain s' where s': "drain toy_noq 0 toy_busy = Some (Inr s')" "st_accept_queue s' = [0]"
    using toy_busy_drain by blast
  obtain tr where tr: "st_accept_queue s' = st_accept_queue toy_busy @ concat (map (surfaces toy_noq toy_busy) tr)"
      "\<forall>h\<in>set (concat (map (surfaces toy_noq toy_busy) tr)). \<exists>e pid c. map_of (st_conns s') h = Some e \<and> ce_accepted_side e
         \<and> ce_connected e \<and> ce_peer e = Some pid \<and> Handled h Connected c \<in> set tr \<and> tls_peer toy_noq c = Some pid
         \<and> (\<forall>x. ce_expected_peer e = Some x \<longrightarrow> x = pid)"
    using drain_surfaces_authenticated [OF s'(1)] by blast
  then have "concat (map (surfaces toy_noq toy_busy) tr) = [0]" using s'(2) by (simp add: toy_busy_fields)
  with tr(2) obtain e pid c where "map_of (st_conns s') 0 = Some e" "ce_accepted_side e" "ce_connected e"
      "ce_peer e = Some pid" "tls_peer toy_noq c = Some pid"
    by (metis list.set_intros(1))
  with s' show ?thesis by metis
qed

theorem drain_routes_faithfully_witness:
  "\<exists>s' (tr :: toy_conn drain_event list). drain toy_noq 0 toy_busy = Some (Inr s') \<and> relayed toy_busy (packets tr) = [(0, [9], [4])]
     \<and> unrouted toy_busy (packets tr) = [(V4 (1, 2, 3, 4) 5, [6])]"
proof -
  obtain s' where s': "drain toy_noq 0 toy_busy = Some (Inr s')" "st_relay_outbound s' = [(0, [9], [4])]"
      "st_udp_outbound s' = [(V4 (1, 2, 3, 4) 5, [6])]"
    using toy_busy_drain by blast
  obtain tr :: "toy_conn drain_event list" where "st_relay_outbound s' = st_relay_outbound toy_busy @ relayed toy_busy (packets tr)"
      "st_udp_outbound s' = st_udp_outbound toy_busy @ unrouted toy_busy (packets tr)"
    using drain_routes_faithfully [OF s'(1)] by (elim exE conjE)
  with s' have "relayed toy_busy (packets tr) = [(0, [9], [4])]" "unrouted toy_busy (packets tr) = [(V4 (1, 2, 3, 4) 5, [6])]"
    by (simp_all add: toy_busy_fields)
  with s'(1) show ?thesis by blast
qed

end
