(* ===== verification/Async.thy ===== *)
theory Async
  imports Prelude
begin

text \<open>
  The execution model of the endpoint's tasks. All tasks run on one cooperative thread and
  share one state; borrows of it never cross an await. So a task is a function of a \<open>world\<close>:
  the clock, the shared state, what the host's calls will answer, and what it asked the host to
  do so far. The script has one item per await: the host's answer, the time that passes, and
  what the other tasks did to the shared state meanwhile. A statement about all scripts is a
  statement about all schedules and all behaviours of the host.
\<close>

section \<open>Definitions\<close>

datatype 'a outcome = Waiting | Done 'a | Panicked panic | Diverged

record ('s, 'r, 'e) world =
  w_now :: nat
  w_state :: 's
  w_script :: "('r \<times> nat \<times> ('s \<Rightarrow> 's)) list"
  w_log :: "'e list"

type_synonym ('s, 'r, 'e, 'a) task = "('s, 'r, 'e) world \<Rightarrow> 'a outcome \<times> ('s, 'r, 'e) world"

definition ret :: "'a \<Rightarrow> ('s, 'r, 'e, 'a) task" where
  "ret x w = (Done x, w)"

definition panics :: "panic \<Rightarrow> ('s, 'r, 'e, 'a) task" where
  "panics p w = (Panicked p, w)"

definition and_then ::
  "('s, 'r, 'e, 'a) task \<Rightarrow> ('a \<Rightarrow> ('s, 'r, 'e, 'b) task) \<Rightarrow> ('s, 'r, 'e, 'b) task" where
  "and_then m f w =
     (case m w of
        (Done x, w') \<Rightarrow> f x w'
      | (Waiting, w') \<Rightarrow> (Waiting, w')
      | (Panicked p, w') \<Rightarrow> (Panicked p, w')
      | (Diverged, w') \<Rightarrow> (Diverged, w'))"

text \<open>Rust's \<open>?\<close> after an await.\<close>

definition try_then ::
  "('s, 'r, 'e, 'x + 'a) task \<Rightarrow> ('a \<Rightarrow> ('s, 'r, 'e, 'x + 'b) task) \<Rightarrow> ('s, 'r, 'e, 'x + 'b) task" where
  "try_then m f = and_then m (\<lambda>r. case r of Inl e \<Rightarrow> ret (Inl e) | Inr x \<Rightarrow> f x)"

text \<open>An await: the answer of type \<open>'a\<close> is selected from the host's next answer.\<close>

definition await :: "('r \<Rightarrow> 'a) \<Rightarrow> ('s, 'r, 'e, 'a) task" where
  "await sel w =
     (case w_script w of
        [] \<Rightarrow> (Waiting, w)
      | (r, dt, others) # rest \<Rightarrow>
          (Done (sel r),
           w\<lparr>w_now := w_now w + dt, w_state := others (w_state w), w_script := rest\<rparr>))"

text \<open>An uninterrupted access to the shared state, which may read the clock.\<close>

definition access :: "(nat \<Rightarrow> 's \<Rightarrow> 'a \<times> 's) \<Rightarrow> ('s, 'r, 'e, 'a) task" where
  "access f w = (case f (w_now w) (w_state w) of (x, s) \<Rightarrow> (Done x, w\<lparr>w_state := s\<rparr>))"

text \<open>An access that may panic.\<close>

definition access_or_panic :: "(nat \<Rightarrow> 's \<Rightarrow> panic + 'a \<times> 's) \<Rightarrow> ('s, 'r, 'e, 'a) task" where
  "access_or_panic f w =
     (case f (w_now w) (w_state w) of
        Inl p \<Rightarrow> (Panicked p, w)
      | Inr (x, s) \<Rightarrow> (Done x, w\<lparr>w_state := s\<rparr>))"

definition emit :: "'e list \<Rightarrow> ('s, 'r, 'e, unit) task" where
  "emit es w = (Done (), w\<lparr>w_log := w_log w @ es\<rparr>)"

definition time_now :: "('s, 'r, 'e, nat) task" where
  "time_now w = (Done (w_now w), w)"

text \<open>
  \<open>wait_until\<close> of \<open>endpoint_impl.rs\<close>: check, sleep one quantum (an await of the clock), repeat.
  The closure's own captured state is the first argument of \<open>check\<close>.
\<close>

function wait_until ::
  "('k \<Rightarrow> nat \<Rightarrow> 's \<Rightarrow> panic + 'a option \<times> 'k \<times> 's) \<Rightarrow> 'k \<Rightarrow> ('s, 'r, 'e, 'a) task" where
  "wait_until check k w =
     (case check k (w_now w) (w_state w) of
        Inl p \<Rightarrow> (Panicked p, w)
      | Inr (Some x, k', s) \<Rightarrow> (Done x, w\<lparr>w_state := s\<rparr>)
      | Inr (None, k', s) \<Rightarrow>
          (case w_script w of
             [] \<Rightarrow> (Waiting, w\<lparr>w_state := s\<rparr>)
           | (r, dt, others) # rest \<Rightarrow>
               wait_until check k'
                 (w\<lparr>w_now := w_now w + dt, w_state := others s, w_script := rest\<rparr>)))"
  by pat_completeness auto
termination
  by (relation "measure (\<lambda>(check, k, w). length (w_script w))") auto

declare wait_until.simps [simp del]

section \<open>Scripts only shrink\<close>

definition consumes :: "('s, 'r, 'e, 'a) task \<Rightarrow> bool" where
  "consumes t \<longleftrightarrow> (\<forall>w. length (w_script (snd (t w))) \<le> length (w_script w))"

lemma consumesD: "consumes t \<Longrightarrow> t w = (r, w') \<Longrightarrow> length (w_script w') \<le> length (w_script w)"
  unfolding consumes_def by (metis snd_conv)

lemma consumes_basic [simp]:
  "consumes (ret x)" "consumes (panics p)" "consumes (emit es)" "consumes (access f)"
  "consumes (access_or_panic g)" "consumes (await sel)" "consumes time_now"
  by (simp_all add: consumes_def ret_def panics_def emit_def access_def access_or_panic_def await_def
      time_now_def split: prod.split sum.split list.split)

lemma consumes_and_then [simp]:
  assumes "consumes m" and "\<And>x. consumes (f x)"
  shows "consumes (and_then m f)"
proof -
  have "length (w_script (snd (and_then m f w))) \<le> length (w_script w)" for w
  proof -
    obtain r w1 where m: "m w = (r, w1)" by force
    have le: "length (w_script w1) \<le> length (w_script w)" using consumesD [OF assms(1) m] .
    show ?thesis
    proof (cases r)
      case (Done x)
      have "length (w_script (snd (f x w1))) \<le> length (w_script w1)" using assms(2) by (simp add: consumes_def)
      with le m Done show ?thesis by (simp add: and_then_def)
    qed (use m le in \<open>simp_all add: and_then_def\<close>)
  qed
  then show ?thesis by (simp add: consumes_def)
qed

section \<open>Guarantees\<close>

text \<open>
  A task guarantees a relation between the shared states before and after it when it does so
  under every script whose other tasks respect that relation.
\<close>

definition env_respects :: "('s \<Rightarrow> 's \<Rightarrow> bool) \<Rightarrow> ('s, 'r, 'e) world \<Rightarrow> bool" where
  "env_respects R w \<longleftrightarrow> (\<forall>(r, dt, others)\<in>set (w_script w). \<forall>s. R s (others s))"

definition guarantees :: "('s \<Rightarrow> 's \<Rightarrow> bool) \<Rightarrow> ('s, 'r, 'e, 'a) task \<Rightarrow> bool" where
  "guarantees R t \<longleftrightarrow>
     (\<forall>w. env_respects R w \<longrightarrow> R (w_state w) (w_state (snd (t w))) \<and> env_respects R (snd (t w)))"

lemma guaranteesI:
  "(\<And>w. env_respects R w \<Longrightarrow> R (w_state w) (w_state (snd (t w))) \<and> env_respects R (snd (t w)))
     \<Longrightarrow> guarantees R t"
  by (simp add: guarantees_def)

lemma guaranteesD:
  "guarantees R t \<Longrightarrow> env_respects R w \<Longrightarrow> R (w_state w) (w_state (snd (t w)))"
  by (simp add: guarantees_def)

lemma env_respects_update [simp]:
  "env_respects R (w\<lparr>w_state := s\<rparr>) = env_respects R w"
  "env_respects R (w\<lparr>w_now := n\<rparr>) = env_respects R w"
  "env_respects R (w\<lparr>w_log := l\<rparr>) = env_respects R w"
  by (simp_all add: env_respects_def)

lemma env_respects_next:
  assumes "env_respects R w" and "w_script w = (r, dt, others) # rest"
  shows "R s (others s)" and "env_respects R (w\<lparr>w_script := rest\<rparr>)"
  using assms by (auto simp: env_respects_def)

locale rely_guarantee =
  fixes R :: "'s \<Rightarrow> 's \<Rightarrow> bool"
  assumes rely_refl: "R s s"
    and rely_trans: "R s t \<Longrightarrow> R t u \<Longrightarrow> R s u"
begin

lemma ret_guarantees: "guarantees R (ret x)"
  by (simp add: guarantees_def ret_def rely_refl)

lemma panics_guarantees: "guarantees R (panics p)"
  by (simp add: guarantees_def panics_def rely_refl)

lemma emit_guarantees: "guarantees R (emit es)"
  by (simp add: guarantees_def emit_def rely_refl)

lemma time_now_guarantees: "guarantees R time_now"
  by (simp add: guarantees_def time_now_def rely_refl)

lemma await_guarantees: "guarantees R (await sel :: ('s, 'r, 'e, 'a) task)"
proof (rule guaranteesI)
  fix w :: "('s, 'r, 'e) world"
  assume env: "env_respects R w"
  show "R (w_state w) (w_state (snd (await sel w))) \<and> env_respects R (snd (await sel w))"
  proof (cases "w_script w")
    case Nil
    with env show ?thesis by (simp add: await_def rely_refl)
  next
    case (Cons x rest)
    obtain r dt others where x: "x = (r, dt, others)" by (metis prod_cases3)
    with Cons env_respects_next [OF env, of r dt others rest] show ?thesis
      by (simp add: await_def env_respects_def)
  qed
qed

lemma access_guarantees:
  "(\<And>n s x s'. f n s = (x, s') \<Longrightarrow> R s s') \<Longrightarrow> guarantees R (access f)"
  by (simp add: guarantees_def access_def split: prod.split)

lemma access_or_panic_guarantees:
  "(\<And>n s x s'. f n s = Inr (x, s') \<Longrightarrow> R s s') \<Longrightarrow> guarantees R (access_or_panic f)"
  by (simp add: guarantees_def access_or_panic_def rely_refl split: prod.split sum.split)

lemma and_then_guarantees:
  fixes m :: "('s, 'r, 'e, 'a) task"
  assumes "guarantees R m" and "\<And>x. guarantees R (f x)"
  shows "guarantees R (and_then m f)"
proof (rule guaranteesI)
  fix w :: "('s, 'r, 'e) world"
  assume "env_respects R w"
  then have m: "R (w_state w) (w_state (snd (m w)))" "env_respects R (snd (m w))"
    using assms(1) by (auto simp: guarantees_def)
  then have "R (w_state (snd (m w))) (w_state (snd (f x (snd (m w))))) \<and> env_respects R (snd (f x (snd (m w))))"
    for x using assms(2) by (auto simp: guarantees_def)
  with m show "R (w_state w) (w_state (snd (and_then m f w))) \<and> env_respects R (snd (and_then m f w))"
    by (cases "m w"; cases "fst (m w)") (auto simp: and_then_def intro: rely_trans)
qed

lemma try_then_guarantees:
  assumes "guarantees R m" and "\<And>x. guarantees R (f x)"
  shows "guarantees R (try_then m f)"
  unfolding try_then_def using assms
  by (auto intro!: and_then_guarantees ret_guarantees split: sum.split)

lemma if_guarantees:
  "guarantees R t \<Longrightarrow> guarantees R u \<Longrightarrow> guarantees R (if b then t else u)"
  by simp

lemma wait_until_guarantees:
  assumes check: "\<And>k n s x k' s'. check k n s = Inr (x, k', s') \<Longrightarrow> R s s'"
  shows "guarantees R (wait_until check k :: ('s, 'r, 'e, 'a) task)"
proof (rule guaranteesI)
  fix w :: "('s, 'r, 'e) world"
  assume "env_respects R w"
  then show "R (w_state w) (w_state (snd (wait_until check k w))) \<and> env_respects R (snd (wait_until check k w))"
  proof (induction "length (w_script w)" arbitrary: k w)
    case 0
    then show ?case
      using check by (subst (1 2) wait_until.simps)
        (auto simp: rely_refl split: sum.split option.split)
  next
    case (Suc n)
    obtain r dt others rest where sc: "w_script w = (r, dt, others) # rest"
      using Suc.hyps(2) by (metis length_Suc_conv prod_cases3)
    show ?case
    proof (cases "check k (w_now w) (w_state w)")
      case (Inl p)
      with Suc.prems show ?thesis by (subst (1 2) wait_until.simps) (simp add: rely_refl)
    next
      case (Inr y)
      obtain x k' s where y: "y = (x, k', s)" by (metis prod_cases3)
      have R1: "R (w_state w) s" using check Inr y by blast
      show ?thesis
      proof (cases x)
        case None
        let ?w = "w\<lparr>w_now := w_now w + dt, w_state := others s, w_script := rest\<rparr>"
        have "env_respects R ?w" using env_respects_next(2) [OF Suc.prems sc] by (simp add: env_respects_def)
        moreover have "n = length (w_script ?w)" using Suc.hyps(2) sc by simp
        ultimately have "R (others s) (w_state (snd (wait_until check k' ?w)))
            \<and> env_respects R (snd (wait_until check k' ?w))"
          using Suc.hyps(1) [of ?w k'] by simp
        moreover have "R s (others s)" using env_respects_next(1) [OF Suc.prems sc] .
        ultimately show ?thesis
          using Inr y None sc R1 by (subst (1 2) wait_until.simps) (auto intro: rely_trans)
      next
        case (Some v)
        with Inr y R1 Suc.prems show ?thesis by (subst (1 2) wait_until.simps) simp
      qed
    qed
  qed
qed

lemmas task_guarantees = ret_guarantees panics_guarantees emit_guarantees time_now_guarantees
  await_guarantees access_guarantees access_or_panic_guarantees and_then_guarantees
  try_then_guarantees if_guarantees wait_until_guarantees

end

text \<open>Preserving an invariant is such a relation.\<close>

locale kept_invariant =
  fixes I :: "'s \<Rightarrow> bool"

sublocale kept_invariant \<subseteq> rely_guarantee "\<lambda>s t. I s \<longrightarrow> I t"
  by unfold_locales auto

text \<open>
  A safe task, from sound states and beside tasks that keep them sound, neither panics nor
  diverges and leaves a sound state.
\<close>

definition safe_task :: "('s \<Rightarrow> bool) \<Rightarrow> ('s, 'r, 'e, 'a) task \<Rightarrow> bool" where
  "safe_task I t \<longleftrightarrow>
     (\<forall>w. I (w_state w) \<longrightarrow> env_respects (\<lambda>s t. I s \<longrightarrow> I t) w \<longrightarrow>
        (\<forall>p. fst (t w) \<noteq> Panicked p) \<and> fst (t w) \<noteq> Diverged
        \<and> I (w_state (snd (t w))) \<and> env_respects (\<lambda>s t. I s \<longrightarrow> I t) (snd (t w)))"

lemma safe_taskI:
  "(\<And>w. I (w_state w) \<Longrightarrow> env_respects (\<lambda>s t. I s \<longrightarrow> I t) w \<Longrightarrow>
      (\<forall>p. fst (t w) \<noteq> Panicked p) \<and> fst (t w) \<noteq> Diverged
      \<and> I (w_state (snd (t w))) \<and> env_respects (\<lambda>s t. I s \<longrightarrow> I t) (snd (t w)))
     \<Longrightarrow> safe_task I t"
  by (simp add: safe_task_def)

lemma safe_taskD:
  assumes "safe_task I t" and "I (w_state w)" and "env_respects (\<lambda>s t. I s \<longrightarrow> I t) w" and "t w = (r, w')"
  shows "r \<noteq> Panicked p" and "r \<noteq> Diverged" and "I (w_state w')"
    and "env_respects (\<lambda>s t. I s \<longrightarrow> I t) w'"
  using assms unfolding safe_task_def by (metis fst_conv snd_conv)+

lemma safe_ret [intro]: "safe_task I (ret x)"
  by (simp add: safe_task_def ret_def)

lemma safe_emit [intro]: "safe_task I (emit es)"
  by (simp add: safe_task_def emit_def)

lemma safe_time_now [intro]: "safe_task I time_now"
  by (simp add: safe_task_def time_now_def)

lemma safe_await [intro]: "safe_task I (await sel)"
  by (auto simp: safe_task_def await_def env_respects_def split: list.split)

lemma safe_access: "(\<And>n s x s'. I s \<Longrightarrow> f n s = (x, s') \<Longrightarrow> I s') \<Longrightarrow> safe_task I (access f)"
  by (simp add: safe_task_def access_def split: prod.split)

lemma safe_access_or_panic:
  assumes "\<And>n s. I s \<Longrightarrow> \<exists>x s'. f n s = Inr (x, s') \<and> I s'"
  shows "safe_task I (access_or_panic f)"
proof (rule safe_taskI)
  fix w
  assume "I (w_state w)" and "env_respects (\<lambda>s t. I s \<longrightarrow> I t) w"
  moreover obtain x s' where "f (w_now w) (w_state w) = Inr (x, s')" "I s'"
    using assms \<open>I (w_state w)\<close> by blast
  ultimately show "(\<forall>p. fst (access_or_panic f w) \<noteq> Panicked p) \<and> fst (access_or_panic f w) \<noteq> Diverged
      \<and> I (w_state (snd (access_or_panic f w))) \<and> env_respects (\<lambda>s t. I s \<longrightarrow> I t) (snd (access_or_panic f w))"
    by (simp add: access_or_panic_def)
qed

lemma safe_and_then:
  fixes m :: "('s, 'r, 'e, 'a) task"
  assumes "safe_task I m" and "\<And>x. safe_task I (f x)"
  shows "safe_task I (and_then m f)"
proof (rule safe_taskI)
  fix w :: "('s, 'r, 'e) world"
  assume w: "I (w_state w)" "env_respects (\<lambda>s t. I s \<longrightarrow> I t) w"
  obtain r w1 where m: "m w = (r, w1)" by force
  note s1 = safe_taskD [OF assms(1) w m]
  show "(\<forall>p. fst (and_then m f w) \<noteq> Panicked p) \<and> fst (and_then m f w) \<noteq> Diverged
      \<and> I (w_state (snd (and_then m f w))) \<and> env_respects (\<lambda>s t. I s \<longrightarrow> I t) (snd (and_then m f w))"
  proof (cases r)
    case (Done x)
    with assms(2) [of x] s1(3,4) m show ?thesis by (simp add: safe_task_def and_then_def)
  qed (use m s1 in \<open>simp_all add: and_then_def\<close>)
qed

text \<open>
  What a wait on a total check comes to, under an invariant the other tasks keep: it returns
  what the check gave on a sound state, or it still waits because the check gave nothing when
  it last looked. It never panics.
\<close>

context kept_invariant
begin

lemma wait_until_outcome:
  fixes w :: "('s, 'r, 'e) world"
  assumes total: "\<And>k n s. I s \<Longrightarrow> \<exists>x k' s'. check k n s = Inr (x, k', s') \<and> I s'"
    and "env_respects (\<lambda>s t. I s \<longrightarrow> I t) w" and "I (w_state w)"
  shows "case wait_until check k w of
           (Done x, w') \<Rightarrow> I (w_state w') \<and> (\<exists>k n s k'. I s \<and> check k n s = Inr (Some x, k', w_state w'))
         | (Waiting, w') \<Rightarrow> I (w_state w') \<and> w_script w' = []
             \<and> (\<exists>k n s k'. I s \<and> check k n s = Inr (None, k', w_state w'))
         | _ \<Rightarrow> False"
  using assms(2,3)
proof (induction "length (w_script w)" arbitrary: k w)
  case 0
  obtain x k' s' where "check k (w_now w) (w_state w) = Inr (x, k', s')" "I s'"
    using total [OF "0.prems"(2)] by blast
  with 0 show ?case by (subst wait_until.simps) (auto split: option.split)
next
  case (Suc n)
  obtain r dt others rest where sc: "w_script w = (r, dt, others) # rest"
    using Suc.hyps(2) by (metis length_Suc_conv prod_cases3)
  obtain x k' s where ck: "check k (w_now w) (w_state w) = Inr (x, k', s)" "I s"
    using total [OF Suc.prems(2)] by blast
  show ?case
  proof (cases x)
    case None
    let ?w = "w\<lparr>w_now := w_now w + dt, w_state := others s, w_script := rest\<rparr>"
    have "env_respects (\<lambda>s t. I s \<longrightarrow> I t) ?w"
      using env_respects_next(2) [OF Suc.prems(1) sc] by (simp add: env_respects_def)
    moreover have "I (w_state ?w)" using env_respects_next(1) [OF Suc.prems(1) sc, of s] ck(2) by simp
    moreover have "n = length (w_script ?w)" using Suc.hyps(2) sc by simp
    moreover have "wait_until check k w = wait_until check k' ?w"
      using ck None sc by (subst wait_until.simps) simp
    ultimately show ?thesis using Suc.hyps(1) [of ?w k'] by simp
  next
    case (Some v)
    then have "wait_until check k w = (Done v, w\<lparr>w_state := s\<rparr>)"
      using ck by (subst wait_until.simps) simp
    with ck Some Suc.prems show ?thesis by auto
  qed
qed

end

section \<open>What a wait leaves behind\<close>

text \<open>
  A wait makes no calls of its own and takes only script entries from the front, so whatever the
  rest of the script respects it still respects.
\<close>

lemma wait_until_script:
  "\<exists>pre. w_script w = pre @ w_script (snd (wait_until check k w))"
proof (induction "length (w_script w)" arbitrary: k w)
  case 0
  then show ?case by (subst wait_until.simps) (auto split: sum.split option.split)
next
  case (Suc n)
  obtain r dt others rest where sc: "w_script w = (r, dt, others) # rest"
    using Suc.hyps(2) by (metis length_Suc_conv prod_cases3)
  show ?case
  proof (cases "\<exists>k' s. check k (w_now w) (w_state w) = Inr (None, k', s)")
    case True
    then obtain k' s where ck: "check k (w_now w) (w_state w) = Inr (None, k', s)" by blast
    let ?w = "w\<lparr>w_now := w_now w + dt, w_state := others s, w_script := rest\<rparr>"
    obtain pre where "rest = pre @ w_script (snd (wait_until check k' ?w))"
      using Suc.hyps(1) [of ?w k'] Suc.hyps(2) sc by auto
    then show ?thesis using sc ck
      by (intro exI [of _ "(r, dt, others) # pre"]) (subst wait_until.simps, simp)
  next
    case False
    then show ?thesis
      by (subst wait_until.simps) (force split: sum.split option.split)
  qed
qed

lemma wait_until_log [simp]: "w_log (snd (wait_until check k w)) = w_log w"
proof (induction "length (w_script w)" arbitrary: k w)
  case 0
  then show ?case by (subst wait_until.simps) (auto split: sum.split option.split)
next
  case (Suc n)
  obtain r dt others rest where sc: "w_script w = (r, dt, others) # rest"
    using Suc.hyps(2) by (metis length_Suc_conv prod_cases3)
  have "w_log (snd (wait_until check k' (w\<lparr>w_now := w_now w + dt, w_state := others s, w_script := rest\<rparr>))) = w_log w"
    for k' s
    using Suc.hyps(1) [of "w\<lparr>w_now := w_now w + dt, w_state := others s, w_script := rest\<rparr>" k'] Suc.hyps(2) sc
    by simp
  with sc show ?case by (subst wait_until.simps) (auto split: sum.split option.split)
qed

lemma consumes_wait_until [simp]: "consumes (wait_until check k)"
  unfolding consumes_def using wait_until_script by (metis length_append le_add2)

lemma env_respects_mono:
  "env_respects R w \<Longrightarrow> (\<And>s t. R s t \<Longrightarrow> S s t) \<Longrightarrow> env_respects S w"
  by (fastforce simp: env_respects_def)

lemma env_respects_wait_until:
  "env_respects R w \<Longrightarrow> wait_until check k w = (r, w') \<Longrightarrow> env_respects R w'"
  using wait_until_script [of w check k] by (fastforce simp: env_respects_def)

text \<open>A wait that returned has seen its check give that value, and left the state the check left.\<close>

lemma wait_until_Done:
  assumes "wait_until check k w = (Done x, w')"
  shows "\<exists>k n s k'. check k n s = Inr (Some x, k', w_state w')"
  using assms
proof (induction "length (w_script w)" arbitrary: k w)
  case 0
  then show ?case by (subst (asm) wait_until.simps) (force split: sum.splits option.splits)
next
  case (Suc n)
  obtain r dt others rest where sc: "w_script w = (r, dt, others) # rest"
    using Suc.hyps(2) by (metis length_Suc_conv prod_cases3)
  show ?case
  proof (cases "\<exists>k' s. check k (w_now w) (w_state w) = Inr (None, k', s)")
    case True
    then obtain k' s where ck: "check k (w_now w) (w_state w) = Inr (None, k', s)" by blast
    let ?w = "w\<lparr>w_now := w_now w + dt, w_state := others s, w_script := rest\<rparr>"
    have "wait_until check k' ?w = (Done x, w')"
      using Suc.prems sc ck by (subst (asm) wait_until.simps) simp
    with Suc.hyps(1) [of ?w k'] Suc.hyps(2) sc show ?thesis by simp
  next
    case False
    with Suc.prems show ?thesis
      by (subst (asm) wait_until.simps) (force split: sum.splits option.splits)
  qed
qed

text \<open>A wait that still waits looked last at a state where its check gave nothing.\<close>

lemma wait_until_Waiting:
  assumes "wait_until check k w = (Waiting, w')"
  shows "\<exists>k n s k'. check k n s = Inr (None, k', w_state w')"
  using assms
proof (induction "length (w_script w)" arbitrary: k w)
  case 0
  then show ?case by (subst (asm) wait_until.simps) (force split: sum.splits option.splits)
next
  case (Suc n)
  obtain r dt others rest where sc: "w_script w = (r, dt, others) # rest"
    using Suc.hyps(2) by (metis length_Suc_conv prod_cases3)
  from Suc.prems obtain k' s where ck: "check k (w_now w) (w_state w) = Inr (None, k', s)"
    by (subst (asm) wait_until.simps) (auto split: sum.splits option.splits)
  let ?w = "w\<lparr>w_now := w_now w + dt, w_state := others s, w_script := rest\<rparr>"
  have "wait_until check k' ?w = (Waiting, w')"
    using Suc.prems sc ck by (subst (asm) wait_until.simps) simp
  with Suc.hyps(1) [of ?w k'] Suc.hyps(2) sc show ?case by simp
qed

text \<open>
  The rule for closures that carry state: \<open>I k s\<close> relates the closure's variables to the shared
  state, the other tasks keep it, and each look either keeps it or returns with \<open>Q\<close>.
\<close>

lemma wait_until_tracks:
  assumes step: "\<And>k n s. I k s \<Longrightarrow>
      (\<exists>x k' s'. check k n s = Inr (Some x, k', s') \<and> Q x s')
      \<or> (\<exists>k' s'. check k n s = Inr (None, k', s') \<and> I k' s')"
    and "\<And>k. env_respects (\<lambda>s t. I k s \<longrightarrow> I k t) w" and "I k (w_state w)"
  shows "case wait_until check k w of
           (Done x, w') \<Rightarrow> Q x (w_state w')
         | (Waiting, w') \<Rightarrow> \<exists>k. I k (w_state w')
         | _ \<Rightarrow> False"
  using assms(2,3)
proof (induction "length (w_script w)" arbitrary: k w)
  case 0
  from step [OF "0.prems"(2), of "w_now w"] show ?case
    using "0.hyps" by (subst wait_until.simps) auto
next
  case (Suc n)
  obtain r dt others rest where sc: "w_script w = (r, dt, others) # rest"
    using Suc.hyps(2) by (metis length_Suc_conv prod_cases3)
  from step [OF Suc.prems(2), of "w_now w"] show ?case
  proof
    assume "\<exists>x k' s'. check k (w_now w) (w_state w) = Inr (Some x, k', s') \<and> Q x s'"
    then show ?thesis by (subst wait_until.simps) auto
  next
    assume "\<exists>k' s'. check k (w_now w) (w_state w) = Inr (None, k', s') \<and> I k' s'"
    then obtain k' s where ck: "check k (w_now w) (w_state w) = Inr (None, k', s)" "I k' s" by blast
    let ?w = "w\<lparr>w_now := w_now w + dt, w_state := others s, w_script := rest\<rparr>"
    have "env_respects (\<lambda>s t. I i s \<longrightarrow> I i t) ?w" for i
      using env_respects_next(2) [OF Suc.prems(1) sc] by (simp add: env_respects_def)
    note env = this
    have I': "I k' (w_state ?w)" using env_respects_next(1) [OF Suc.prems(1) sc, of k' s] ck(2) by simp
    have len: "n = length (w_script ?w)" using Suc.hyps(2) sc by simp
    have "case wait_until check k' ?w of
           (Done x, w') \<Rightarrow> Q x (w_state w') | (Waiting, w') \<Rightarrow> \<exists>k. I k (w_state w') | _ \<Rightarrow> False"
      by (rule Suc.hyps(1) [OF len env I'])
    moreover have "wait_until check k w = wait_until check k' ?w"
      using ck sc by (subst wait_until.simps) simp
    ultimately show ?thesis by simp
  qed
qed

lemma access_Done:
  "access f w = (Done x, w') \<longleftrightarrow> (\<exists>s. f (w_now w) (w_state w) = (x, s) \<and> w' = w\<lparr>w_state := s\<rparr>)"
  by (auto simp: access_def split: prod.splits)

section \<open>Outcome triples\<close>

text \<open>
  \<open>triple R W P t Q\<close>: started where \<open>P\<close> holds of the shared state and the calls made so far,
  beside tasks that respect \<open>R\<close>, the task \<open>t\<close> neither panics nor diverges; when it returns \<open>x\<close>,
  \<open>Q x\<close> holds; while it waits, \<open>W\<close> holds.
\<close>

definition triple ::
  "('s \<Rightarrow> 's \<Rightarrow> bool) \<Rightarrow> ('s \<Rightarrow> 'e list \<Rightarrow> bool) \<Rightarrow> ('s \<Rightarrow> 'e list \<Rightarrow> bool) \<Rightarrow> ('s, 'r, 'e, 'a) task
     \<Rightarrow> ('a \<Rightarrow> 's \<Rightarrow> 'e list \<Rightarrow> bool) \<Rightarrow> bool" where
  "triple R W P t Q \<longleftrightarrow>
     (\<forall>w. env_respects R w \<longrightarrow> P (w_state w) (w_log w) \<longrightarrow>
        (case t w of
           (Done x, w') \<Rightarrow> Q x (w_state w') (w_log w') \<and> env_respects R w'
         | (Waiting, w') \<Rightarrow> W (w_state w') (w_log w')
         | _ \<Rightarrow> False))"

lemma tripleI:
  fixes t :: "('s, 'r, 'e, 'a) task"
  assumes "\<And>w r w'. env_respects R w \<Longrightarrow> P (w_state w) (w_log w) \<Longrightarrow> t w = (r, w') \<Longrightarrow>
      (case r of Done x \<Rightarrow> Q x (w_state w') (w_log w') \<and> env_respects R w'
       | Waiting \<Rightarrow> W (w_state w') (w_log w') | _ \<Rightarrow> False)"
  shows "triple R W P t Q"
  unfolding triple_def
proof (intro allI impI)
  fix w :: "('s, 'r, 'e) world"
  assume "env_respects R w" "P (w_state w) (w_log w)"
  with assms [of w "fst (t w)" "snd (t w)"]
  show "case t w of (Done x, w') \<Rightarrow> Q x (w_state w') (w_log w') \<and> env_respects R w'
      | (Waiting, w') \<Rightarrow> W (w_state w') (w_log w') | _ \<Rightarrow> False"
    by (cases "t w"; cases "fst (t w)") auto
qed

lemma tripleD:
  assumes "triple R W P t Q" and "env_respects R w" and "P (w_state w) (w_log w)" and "t w = (r, w')"
  shows "r = Done x \<Longrightarrow> Q x (w_state w') (w_log w')" and "r = Done x \<Longrightarrow> env_respects R w'"
    and "r = Waiting \<Longrightarrow> W (w_state w') (w_log w')" and "r \<noteq> Panicked p" and "r \<noteq> Diverged"
  using assms unfolding triple_def by (cases r; fastforce)+

lemma triple_weaken:
  fixes t :: "('s, 'r, 'e, 'a) task"
  assumes "triple R W' P' t Q'" and "\<And>s l. P s l \<Longrightarrow> P' s l" and "\<And>x s l. Q' x s l \<Longrightarrow> Q x s l"
    and "\<And>s l. W' s l \<Longrightarrow> W s l"
  shows "triple R W P t Q"
proof (rule tripleI)
  fix w w' :: "('s, 'r, 'e) world" and r
  assume "env_respects R w" "P (w_state w) (w_log w)" "t w = (r, w')"
  with tripleD [OF assms(1) _ assms(2), of w r w'] assms(3,4)
  show "case r of Done x \<Rightarrow> Q x (w_state w') (w_log w') \<and> env_respects R w'
       | Waiting \<Rightarrow> W (w_state w') (w_log w') | _ \<Rightarrow> False"
    by (cases r) auto
qed

lemma triple_pure: "(b \<Longrightarrow> triple R W P t Q) \<Longrightarrow> triple R W (\<lambda>s l. b \<and> P s l) t Q"
  by (simp add: triple_def)

lemma triple_ret: "(\<And>s l. P s l \<Longrightarrow> Q x s l) \<Longrightarrow> triple R W P (ret x) Q"
  by (simp add: triple_def ret_def)

lemma triple_emit: "(\<And>s l. P s l \<Longrightarrow> Q () s (l @ es)) \<Longrightarrow> triple R W P (emit es) Q"
  by (simp add: triple_def emit_def)

lemma triple_time_now: "(\<And>s l n. P s l \<Longrightarrow> Q n s l) \<Longrightarrow> triple R W P time_now Q"
  by (simp add: triple_def time_now_def)

lemma triple_access:
  "(\<And>n s l x s'. P s l \<Longrightarrow> f n s = (x, s') \<Longrightarrow> Q x s' l) \<Longrightarrow> triple R W P (access f) Q"
  by (simp add: triple_def access_def split: prod.split)

lemma triple_access_or_panic:
  fixes R :: "'s \<Rightarrow> 's \<Rightarrow> bool" and W :: "'s \<Rightarrow> 'e list \<Rightarrow> bool"
  assumes "\<And>n s l. P s l \<Longrightarrow> \<exists>x s'. f n s = Inr (x, s') \<and> Q x s' l"
  shows "triple R W P (access_or_panic f :: ('s, 'r, 'e, 'a) task) Q"
proof (rule tripleI)
  fix w w' :: "('s, 'r, 'e) world" and r
  assume w: "env_respects R w" "P (w_state w) (w_log w)" "access_or_panic f w = (r, w')"
  moreover obtain x s' where "f (w_now w) (w_state w) = Inr (x, s')" "Q x s' (w_log w)"
    using assms [OF w(2)] by blast
  ultimately show "case r of Done x \<Rightarrow> Q x (w_state w') (w_log w') \<and> env_respects R w'
       | Waiting \<Rightarrow> W (w_state w') (w_log w') | _ \<Rightarrow> False"
    by (auto simp: access_or_panic_def)
qed

lemma triple_await:
  fixes R :: "'s \<Rightarrow> 's \<Rightarrow> bool" and W :: "'s \<Rightarrow> 'e list \<Rightarrow> bool" and sel :: "'r \<Rightarrow> 'a"
  assumes "\<And>s l t r. P s l \<Longrightarrow> R s t \<Longrightarrow> Q (sel r) t l" and "\<And>s l. P s l \<Longrightarrow> W s l"
  shows "triple R W P (await sel) Q"
proof (rule tripleI)
  fix w w' :: "('s, 'r, 'e) world" and r
  assume w: "env_respects R w" "P (w_state w) (w_log w)" "await sel w = (r, w')"
  show "case r of Done x \<Rightarrow> Q x (w_state w') (w_log w') \<and> env_respects R w'
       | Waiting \<Rightarrow> W (w_state w') (w_log w') | _ \<Rightarrow> False"
  proof (cases "w_script w")
    case Nil
    with w assms show ?thesis by (auto simp: await_def)
  next
    case (Cons y rest)
    obtain a dt others where y: "y = (a, dt, others)" by (metis prod_cases3)
    with Cons env_respects_next [OF w(1), of a dt others rest] w assms(1) show ?thesis
      by (auto simp: await_def env_respects_def)
  qed
qed

lemma triple_and_then:
  fixes m :: "('s, 'r, 'e, 'a) task"
  assumes "triple R W P m M" and "\<And>x. triple R W (M x) (f x) Q"
  shows "triple R W P (and_then m f) Q"
proof (rule tripleI)
  fix w w' :: "('s, 'r, 'e) world" and r
  assume w: "env_respects R w" "P (w_state w) (w_log w)" "and_then m f w = (r, w')"
  obtain r1 w1 where m: "m w = (r1, w1)" by force
  note m1 = tripleD [OF assms(1) w(1,2) m]
  show "case r of Done x \<Rightarrow> Q x (w_state w') (w_log w') \<and> env_respects R w'
       | Waiting \<Rightarrow> W (w_state w') (w_log w') | _ \<Rightarrow> False"
  proof (cases r1)
    case (Done x)
    with m w(3) have "f x w1 = (r, w')" by (simp add: and_then_def)
    from tripleD [OF assms(2) m1(2) [OF Done] m1(1) [OF Done] this] show ?thesis by (cases r) auto
  qed (use m w(3) m1 in \<open>auto simp: and_then_def\<close>)
qed

lemma triple_try_then:
  assumes "triple R W P m M" and "\<And>e s l. M (Inl e) s l \<Longrightarrow> Q (Inl e) s l"
    and "\<And>x. triple R W (M (Inr x)) (f x) Q"
  shows "triple R W P (try_then m f) Q"
  unfolding try_then_def
  by (rule triple_and_then [OF assms(1)]) (auto intro: assms(3) triple_ret assms(2) split: sum.split)

lemma triple_wait_until:
  fixes R :: "'s \<Rightarrow> 's \<Rightarrow> bool" and W :: "'s \<Rightarrow> 'e list \<Rightarrow> bool"
  assumes step: "\<And>k n s l. I k s l \<Longrightarrow>
      (\<exists>x k' s'. check k n s = Inr (Some x, k', s') \<and> Q x s' l)
      \<or> (\<exists>k' s'. check k n s = Inr (None, k', s') \<and> I k' s' l)"
    and stable: "\<And>k s t l. I k s l \<Longrightarrow> R s t \<Longrightarrow> I k t l"
    and "\<And>s l. P s l \<Longrightarrow> I k s l" and waits: "\<And>k s l. I k s l \<Longrightarrow> W s l"
  shows "triple R W P (wait_until check k :: ('s, 'r, 'e, 'a) task) Q"
proof (rule tripleI)
  fix w w' :: "('s, 'r, 'e) world" and r
  assume w: "env_respects R w" "P (w_state w) (w_log w)" "wait_until check k w = (r, w')"
  have "env_respects (\<lambda>s t. I i s (w_log w) \<longrightarrow> I i t (w_log w)) w" for i
    using w(1) by (rule env_respects_mono) (blast intro: stable)
  moreover have "(\<exists>x k' s'. check i n s = Inr (Some x, k', s') \<and> Q x s' (w_log w))
      \<or> (\<exists>k' s'. check i n s = Inr (None, k', s') \<and> I k' s' (w_log w))" if "I i s (w_log w)" for i n s
    using step that by blast
  ultimately have "case wait_until check k w of
      (Done x, w') \<Rightarrow> Q x (w_state w') (w_log w)
    | (Waiting, w') \<Rightarrow> \<exists>k. I k (w_state w') (w_log w) | _ \<Rightarrow> False"
    using assms(3) [OF w(2)]
    by (intro wait_until_tracks [where I = "\<lambda>k s. I k s (w_log w)" and Q = "\<lambda>x s. Q x s (w_log w)"])
  moreover have "w_log w' = w_log w" using wait_until_log [of check k w] w(3) by simp
  moreover have "env_respects R w'" using env_respects_wait_until [OF w(1,3)] .
  ultimately show "case r of Done x \<Rightarrow> Q x (w_state w') (w_log w') \<and> env_respects R w'
       | Waiting \<Rightarrow> W (w_state w') (w_log w') | _ \<Rightarrow> False"
    using w(3) by (cases r) (auto intro: waits)
qed

section \<open>Loops of awaiting turns\<close>

text \<open>
  A loop whose turn awaits something: the turn says whether to go on, or fails. A turn that went
  on without awaiting would spin; that is the outcome \<open>Diverged\<close>, which \<open>awaits\<close> excludes.
\<close>

function repeat_while :: "('s, 'r, 'e, 'x + bool) task \<Rightarrow> ('s, 'r, 'e, 'x + unit) task" where
  "repeat_while t w =
     (case t w of
        (Done (Inr True), w') \<Rightarrow>
          if length (w_script w') < length (w_script w) then repeat_while t w' else (Diverged, w')
      | (Done (Inr False), w') \<Rightarrow> (Done (Inr ()), w')
      | (Done (Inl e), w') \<Rightarrow> (Done (Inl e), w')
      | (Waiting, w') \<Rightarrow> (Waiting, w')
      | (Panicked p, w') \<Rightarrow> (Panicked p, w')
      | (Diverged, w') \<Rightarrow> (Diverged, w'))"
  by pat_completeness auto
termination
  by (relation "measure (\<lambda>(t, w). length (w_script w))") auto

declare repeat_while.simps [simp del]

definition awaits :: "('s, 'r, 'e, 'a) task \<Rightarrow> bool" where
  "awaits t \<longleftrightarrow> (\<forall>w x w'. t w = (Done x, w') \<longrightarrow> length (w_script w') < length (w_script w))"

lemma awaitsD: "awaits t \<Longrightarrow> t w = (Done x, w') \<Longrightarrow> length (w_script w') < length (w_script w)"
  by (simp add: awaits_def)

lemma awaits_await [simp]: "awaits (await sel)"
  by (auto simp: awaits_def await_def split: list.splits prod.splits)

lemma awaits_first [simp]:
  assumes "awaits m" and "\<And>x. consumes (f x)"
  shows "awaits (and_then m f)"
  unfolding awaits_def
proof (intro allI impI)
  fix w x w'
  assume run: "and_then m f w = (Done x, w')"
  then obtain y w1 where "m w = (Done y, w1)" "f y w1 = (Done x, w')"
    by (auto simp: and_then_def split: prod.splits outcome.splits)
  with assms(1) consumesD [OF assms(2)] show "length (w_script w') < length (w_script w)"
    by (fastforce simp: awaits_def)
qed

lemma awaits_then [simp]:
  assumes "consumes m" and "\<And>x. awaits (f x)"
  shows "awaits (and_then m f)"
  unfolding awaits_def
proof (intro allI impI)
  fix w x w'
  assume run: "and_then m f w = (Done x, w')"
  then obtain y w1 where "m w = (Done y, w1)" "f y w1 = (Done x, w')"
    by (auto simp: and_then_def split: prod.splits outcome.splits)
  with assms(2) consumesD [OF assms(1)] show "length (w_script w') < length (w_script w)"
    by (fastforce simp: awaits_def)
qed

lemma consumes_try_then [simp]:
  "consumes m \<Longrightarrow> (\<And>x. consumes (f x)) \<Longrightarrow> consumes (try_then m f)"
  unfolding try_then_def by (rule consumes_and_then) (auto split: sum.split)

lemma triple_repeat_while:
  fixes t :: "('s, 'r, 'e, 'x + bool) task"
  assumes turn: "triple R W I t (\<lambda>r s l. case r of Inr True \<Rightarrow> I s l | Inr False \<Rightarrow> Q (Inr ()) s l | Inl e \<Rightarrow> Q (Inl e) s l)"
    and goes_on: "\<And>w w'. t w = (Done (Inr True), w') \<Longrightarrow> length (w_script w') < length (w_script w)"
  shows "triple R W I (repeat_while t) Q"
proof (rule tripleI)
  fix w w' :: "('s, 'r, 'e) world" and r
  assume "env_respects R w" "I (w_state w) (w_log w)" "repeat_while t w = (r, w')"
  then show "case r of Done x \<Rightarrow> Q x (w_state w') (w_log w') \<and> env_respects R w'
       | Waiting \<Rightarrow> W (w_state w') (w_log w') | _ \<Rightarrow> False"
  proof (induction "length (w_script w)" arbitrary: w rule: less_induct)
    case less
    obtain r1 w1 where t: "t w = (r1, w1)" by force
    note t1 = tripleD [OF turn less.prems(1,2) t]
    show ?case
    proof (cases "r1 = Done (Inr True)")
      case True
      then have "repeat_while t w1 = (r, w')"
        using less.prems(3) t goes_on [of w w1] by (subst (asm) repeat_while.simps) simp
      moreover have "I (w_state w1) (w_log w1)" "env_respects R w1"
        using t1(1,2) [OF True] by auto
      ultimately show ?thesis
        using less.hyps [of w1] goes_on [of w w1] t True by blast
    next
      case False
      with less.prems(3) t t1 show ?thesis
        by (subst (asm) repeat_while.simps) (cases r1, auto split: sum.splits bool.splits)
    qed
  qed
qed

section \<open>Tasks under a stronger rely\<close>

text \<open>A task takes its answers from the front of the script, whatever the others do meanwhile.\<close>

definition in_order :: "('s, 'r, 'e, 'a) task \<Rightarrow> bool" where
  "in_order t \<longleftrightarrow> (\<forall>w. \<exists>pre. w_script w = pre @ w_script (snd (t w)))"

lemma in_order_basic [simp]:
  "in_order (ret x)" "in_order (emit es)" "in_order (access f)" "in_order (access_or_panic g)" "in_order time_now"
  by (simp_all add: in_order_def ret_def emit_def access_def access_or_panic_def time_now_def split: prod.split sum.split)

lemma in_order_await [simp]: "in_order (await sel)"
  by (auto simp: in_order_def await_def split: list.split)

lemma in_order_wait_until [simp]: "in_order (wait_until check k)"
  by (simp add: in_order_def wait_until_script)

lemma in_order_and_then [simp]:
  assumes "in_order m" and "\<And>x. in_order (f x)"
  shows "in_order (and_then m f)"
proof -
  have "\<exists>pre. w_script w = pre @ w_script (snd (and_then m f w))" for w
  proof (cases "m w")
    case (Pair r w1)
    obtain p1 where p1: "w_script w = p1 @ w_script w1"
      using assms(1) Pair unfolding in_order_def by (metis snd_conv)
    show ?thesis
    proof (cases r)
      case (Done x)
      obtain p2 where "w_script w1 = p2 @ w_script (snd (f x w1))"
        using assms(2) unfolding in_order_def by blast
      with p1 Done Pair show ?thesis by (simp add: and_then_def)
    qed (use p1 Pair in \<open>simp_all add: and_then_def\<close>)
  qed
  then show ?thesis by (simp add: in_order_def)
qed

lemma in_order_try_then [simp]: "in_order m \<Longrightarrow> (\<And>x. in_order (f x)) \<Longrightarrow> in_order (try_then m f)"
  unfolding try_then_def by (rule in_order_and_then) (auto split: sum.split)

lemma in_order_cases:
  "in_order t \<Longrightarrow> (\<And>x. in_order (f x)) \<Longrightarrow> in_order (case opt of None \<Rightarrow> t | Some x \<Rightarrow> f x)"
  "(\<And>e. in_order (g e)) \<Longrightarrow> (\<And>x. in_order (f x)) \<Longrightarrow> in_order (case r of Inl e \<Rightarrow> g e | Inr x \<Rightarrow> f x)"
  by (simp_all split: option.split sum.split)

lemma triple_rely:
  fixes t :: "('s, 'r, 'e, 'a) task"
  assumes "triple R W P t Q" and "in_order t" and "\<And>s s'. R' s s' \<Longrightarrow> R s s'"
  shows "triple R' W P t Q"
proof (rule tripleI)
  fix w w' :: "('s, 'r, 'e) world" and r
  assume w: "env_respects R' w" "P (w_state w) (w_log w)" "t w = (r, w')"
  obtain pre where "w_script w = pre @ w_script w'" using assms(2) w(3) unfolding in_order_def by (metis snd_conv)
  then have "env_respects R' w'" using w(1) by (simp add: env_respects_def)
  with tripleD [OF assms(1) env_respects_mono [OF w(1) assms(3)] w(2,3)]
  show "case r of Done x \<Rightarrow> Q x (w_state w') (w_log w') \<and> env_respects R' w'
       | Waiting \<Rightarrow> W (w_state w') (w_log w') | _ \<Rightarrow> False"
    by (cases r) auto
qed

lemma triple_conj:
  fixes t :: "('s, 'r, 'e, 'a) task"
  assumes "triple R W P t Q" and "triple R W' P' t Q'"
  shows "triple R W (\<lambda>s l. P s l \<and> P' s l) t (\<lambda>x s l. Q x s l \<and> Q' x s l)"
proof (rule tripleI)
  fix w w' :: "('s, 'r, 'e) world" and r
  assume w: "env_respects R w" "P (w_state w) (w_log w) \<and> P' (w_state w) (w_log w)" "t w = (r, w')"
  from tripleD [OF assms(1) w(1) conjunct1 [OF w(2)] w(3)] tripleD [OF assms(2) w(1) conjunct2 [OF w(2)] w(3)]
  show "case r of Done x \<Rightarrow> (Q x (w_state w') (w_log w') \<and> Q' x (w_state w') (w_log w')) \<and> env_respects R w'
       | Waiting \<Rightarrow> W (w_state w') (w_log w') | _ \<Rightarrow> False"
    by (cases r) auto
qed

text \<open>A wait that returns either slept, or its check succeeded at once.\<close>

lemma wait_until_first:
  assumes "wait_until check k w = (Done x, w')"
  shows "length (w_script w') < length (w_script w)
     \<or> w_script w' = w_script w \<and> (\<exists>k'. check k (w_now w) (w_state w) = Inr (Some x, k', w_state w'))"
proof (cases "check k (w_now w) (w_state w)")
  case (Inr v)
  obtain y k' s where v: "v = (y, k', s)" by (metis prod_cases3)
  show ?thesis
  proof (cases y)
    case None
    then obtain r dt others rest where sc: "w_script w = (r, dt, others) # rest"
      using assms Inr v by (cases "w_script w") (auto simp: wait_until.simps [of check k w])
    then have "wait_until check k' (w\<lparr>w_now := w_now w + dt, w_state := others s, w_script := rest\<rparr>) = (Done x, w')"
      using assms Inr v None by (simp add: wait_until.simps [of check k w])
    from consumesD [OF consumes_wait_until this] sc show ?thesis by simp
  qed (use assms Inr v in \<open>auto simp: wait_until.simps [of check k w]\<close>)
qed (use assms in \<open>simp add: wait_until.simps [of check k w]\<close>)

end
