(* ===== verification/Webrtc.thy ===== *)
theory Webrtc
  imports Endpoint_State Async
begin

text \<open>
  Model of \<open>endpoint/src/webrtc.rs\<close>: the channel wire, the signaling messages, and the two
  signaling sessions (\<open>dial\<close> under \<open>upgrade\<close>, and \<open>answer\<close>) as tasks over the shared endpoint
  state. The peer connection and its channels are imported resources: their asynchronous
  calls are awaits answered by the script, their synchronous effects are logged. The JSON
  codec is an argument.
\<close>

section \<open>Definitions\<close>

subsection \<open>The channel wire\<close>

datatype channel_message = ChannelBinary bytes | ChannelString string

record channel_wire =
  cw_inbox :: "channel_message sresult list"
  cw_send_error :: "nat \<Rightarrow> string option"
  cw_sends :: nat
  cw_sent :: "channel_message list"
  cw_channel_closed :: bool
  cw_peer_closed :: bool

definition channel_wire_receive :: "channel_wire \<Rightarrow> bytes option sresult async \<times> channel_wire" where
  "channel_wire_receive cw =
     (case cw_inbox cw of
        [] \<Rightarrow> (Parked, cw)
      | Inr (ChannelBinary datagram) # rest \<Rightarrow> (Returned (Inr (Some datagram)), cw\<lparr>cw_inbox := rest\<rparr>)
      | Inr (ChannelString _) # rest \<Rightarrow> (Returned (Inr None), cw\<lparr>cw_inbox := rest\<rparr>)
      | Inl e # rest \<Rightarrow> (Returned (Inl (''data channel: '' @ e)), cw\<lparr>cw_inbox := rest\<rparr>))"

definition channel_wire_send :: "bytes \<Rightarrow> channel_wire \<Rightarrow> unit sresult \<times> channel_wire" where
  "channel_wire_send data cw =
     (case cw_send_error cw (cw_sends cw) of
        Some e \<Rightarrow> (Inl (''data channel: '' @ e), cw\<lparr>cw_sends := Suc (cw_sends cw)\<rparr>)
      | None \<Rightarrow> (Inr (), cw\<lparr>cw_sends := Suc (cw_sends cw), cw_sent := cw_sent cw @ [ChannelBinary data]\<rparr>))"

definition channel_wire_close :: "channel_wire \<Rightarrow> channel_wire" where
  "channel_wire_close cw = cw\<lparr>cw_channel_closed := True, cw_peer_closed := True\<rparr>"

subsection \<open>Signals and the host's answers\<close>

record ice_candidate =
  candidate :: string
  sdp_mid :: "string option"
  sdp_mline_index :: "u16 option"

datatype signal =
    Offer string
  | Answer string
  | Candidate string "string option" "u16 option"
  | EndOfCandidates
  | SignalDone

datatype sdp_type = SdpOffer | SdpAnswer

datatype data_channel_state = ChannelConnecting | ChannelOpen | ChannelClosing | ChannelClosed

record data_channel_options =
  dc_label :: string
  dc_ordered :: bool
  dc_max_retransmits :: "u16 option"

text \<open>
  A stream read gives whether the stream has ended (\<open>Dropped\<close> or \<open>Cancelled\<close>) and its batch.
\<close>

record rtc_answer =
  ra_unit :: "unit sresult"
  ra_sdp :: "string sresult"
  ra_candidates :: "bool \<times> ice_candidate list"
  ra_states :: "bool \<times> data_channel_state list"
  ra_channels :: "wire_ref list"

datatype rtc_effect =
    CreateDataChannel data_channel_options
  | SetLocalDescription sdp_type string
  | SetRemoteDescription sdp_type string
  | AddIceCandidate ice_candidate
  | CloseWire wire_ref

record json_codec =
  to_json :: "signal \<Rightarrow> bytes sresult"
  from_json :: "bytes \<Rightarrow> signal option"

definition SIGNAL_PREFIX :: u8 where
  "SIGNAL_PREFIX = 0"

definition SIGNAL_DEADLINE :: nat where
  "SIGNAL_DEADLINE = 30000000000"

definition quic_channel_options :: data_channel_options where
  "quic_channel_options = \<lparr>dc_label = ''quic'', dc_ordered = False, dc_max_retransmits = Some 0\<rparr>"

type_synonym ('n, 'c, 'a) rtc_task = "(('n, 'c) state, rtc_answer, rtc_effect, 'a) task"

definition rtc :: "string \<Rightarrow> error" where
  "rtc e = ConnectFailed (''webrtc: '' @ e)"

definition rtc_await :: "(rtc_answer \<Rightarrow> 'a sresult) \<Rightarrow> ('n, 'c, 'a result) rtc_task" where
  "rtc_await sel = and_then (await sel) (\<lambda>r. ret (map_err rtc r))"

text \<open>A call with an effect on the peer connection, awaited.\<close>

definition host_call :: "rtc_effect \<Rightarrow> (rtc_answer \<Rightarrow> 'a sresult) \<Rightarrow> ('n, 'c, 'a result) rtc_task" where
  "host_call eff sel = and_then (emit [eff]) (\<lambda>_. rtc_await sel)"

lemma host_call_awaits:
  "host_call eff sel w = (Done r, w') \<Longrightarrow> length (w_script w') < length (w_script w)"
  by (auto simp: host_call_def rtc_await_def and_then_def emit_def await_def ret_def split: list.splits)

subsection \<open>Publishing and consuming signals\<close>

definition publish_in ::
  "json_codec \<Rightarrow> endpoint_id \<Rightarrow> signal \<Rightarrow> ('n, 'c) state \<Rightarrow> unit result \<times> ('n, 'c) state" where
  "publish_in J peer signal s =
     (case to_json J signal of
        Inl e \<Rightarrow> (Inl (Other (''encode signal: '' @ e)), s)
      | Inr json \<Rightarrow>
          (case signaling_relay peer s of
             None \<Rightarrow> (Inl (Other ''signal outside a session''), s)
           | Some relay \<Rightarrow> (Inr (), push_signal_outbound relay peer (SIGNAL_PREFIX # json) s)))"

definition publish :: "json_codec \<Rightarrow> endpoint_id \<Rightarrow> signal \<Rightarrow> ('n, 'c, unit result) rtc_task" where
  "publish J peer signal = access (\<lambda>_. publish_in J peer signal)"

definition inbox_length :: "endpoint_id \<Rightarrow> ('n, 'c) state \<Rightarrow> nat" where
  "inbox_length peer s = (case st_signal_inboxes s peer of None \<Rightarrow> 0 | Some q \<Rightarrow> length q)"

lemma pop_shortens:
  "pop_signal_inbox peer s = (Some m, s') \<Longrightarrow> inbox_length peer s' < inbox_length peer s"
  by (auto simp: pop_signal_inbox_def inbox_length_def split: option.splits list.splits)

function next_signal ::
  "json_codec \<Rightarrow> endpoint_id \<Rightarrow> nat \<Rightarrow> ('n, 'c, signal option result) rtc_task" where
  "next_signal J peer started w =
     (if is_closed_or_dead (w_state w) then (Done (Inl Closed), w)
      else
        (case pop_signal_inbox peer (w_state w) of
           (None, s) \<Rightarrow>
             (if SIGNAL_DEADLINE < w_now w - started
              then (Done (Inl (ConnectFailed ''webrtc signaling timed out'')), w\<lparr>w_state := s\<rparr>)
              else
                (case w_script w of
                   [] \<Rightarrow> (Waiting, w\<lparr>w_state := s\<rparr>)
                 | (r, dt, others) # rest \<Rightarrow>
                     next_signal J peer started
                       (w\<lparr>w_now := w_now w + dt, w_state := others s, w_script := rest\<rparr>)))
         | (Some json, s) \<Rightarrow>
             (case from_json J json of
                None \<Rightarrow> next_signal J peer started (w\<lparr>w_state := s\<rparr>)
              | Some SignalDone \<Rightarrow> (Done (Inr None), w\<lparr>w_state := s\<rparr>)
              | Some other \<Rightarrow> (Done (Inr (Some other)), w\<lparr>w_state := s\<rparr>))))"
  by pat_completeness auto
termination
  by (relation "inv_image (less_than <*lex*> less_than)
        (\<lambda>(J, peer, started, w). (length (w_script w), inbox_length peer (w_state w)))")
     (auto dest: pop_shortens [OF sym])

declare next_signal.simps [simp del]

text \<open>Reading the stream of local candidates to its end, then publishing them.\<close>

function gather_candidates :: "ice_candidate list \<Rightarrow> ('n, 'c, ice_candidate list) rtc_task" where
  "gather_candidates acc w =
     (case w_script w of
        [] \<Rightarrow> (Waiting, w)
      | (r, dt, others) # rest \<Rightarrow>
          (let w' = w\<lparr>w_now := w_now w + dt, w_state := others (w_state w), w_script := rest\<rparr>;
               acc' = acc @ snd (ra_candidates r)
           in if fst (ra_candidates r) then (Done acc', w') else gather_candidates acc' w'))"
  by pat_completeness auto
termination
  by (relation "measure (\<lambda>(acc, w). length (w_script w))") auto

declare gather_candidates.simps [simp del]

primrec publish_all ::
  "json_codec \<Rightarrow> endpoint_id \<Rightarrow> ice_candidate list \<Rightarrow> ('n, 'c, unit result) rtc_task" where
  "publish_all J peer [] = ret (Inr ())"
| "publish_all J peer (c # cs) =
     try_then (publish J peer (Candidate (candidate c) (sdp_mid c) (sdp_mline_index c)))
       (\<lambda>_. publish_all J peer cs)"

definition publish_candidates :: "json_codec \<Rightarrow> endpoint_id \<Rightarrow> ('n, 'c, unit result) rtc_task" where
  "publish_candidates J peer =
     and_then (gather_candidates []) (\<lambda>candidates.
     try_then (publish_all J peer candidates) (\<lambda>_.
       publish J peer EndOfCandidates))"

lemma next_signal_progress:
  assumes "next_signal J peer started w = (Done (Inr (Some sig)), w')"
  shows "length (w_script w') < length (w_script w)
     \<or> w_script w' = w_script w \<and> inbox_length peer (w_state w') < inbox_length peer (w_state w)"
  using assms
proof (induction J peer started w rule: next_signal.induct)
  case (1 J peer started w)
  show ?case
  proof (cases "is_closed_or_dead (w_state w)")
    case True
    with "1.prems" show ?thesis by (subst (asm) next_signal.simps) simp
  next
    case open_state: False
    obtain m s where pop: "pop_signal_inbox peer (w_state w) = (m, s)" by force
    show ?thesis
    proof (cases m)
      case None
      with "1.prems" open_state pop obtain r dt others rest where
        sc: "w_script w = (r, dt, others) # rest" and "\<not> SIGNAL_DEADLINE < w_now w - started"
        and "next_signal J peer started
               (w\<lparr>w_now := w_now w + dt, w_state := others s, w_script := rest\<rparr>)
             = (Done (Inr (Some sig)), w')"
        by (subst (asm) next_signal.simps) (auto split: list.splits if_splits)
      from "1.IH"(1) [OF open_state pop [symmetric] None this(2) sc refl refl this(3)] sc
      show ?thesis by auto
    next
      case (Some json)
      note less = pop_shortens [OF pop [unfolded Some]]
      show ?thesis
      proof (cases "from_json J json")
        case None
        with "1.prems" open_state pop Some
        have "next_signal J peer started (w\<lparr>w_state := s\<rparr>) = (Done (Inr (Some sig)), w')"
          by (subst (asm) next_signal.simps) simp
        from "1.IH"(2) [OF open_state pop [symmetric] Some None this] less show ?thesis by auto
      next
        case (Some sg)
        with "1.prems" open_state pop \<open>m = Some json\<close> less show ?thesis
          by (subst (asm) next_signal.simps) (auto split: signal.splits)
      qed
    qed
  qed
qed

function consume_signaling :: "json_codec \<Rightarrow> endpoint_id \<Rightarrow> nat \<Rightarrow> ('n, 'c, unit result) rtc_task" where
  "consume_signaling J peer started w =
     (case next_signal J peer started w of
        (Done (Inr (Some (Answer sdp))), w1) \<Rightarrow>
          (case host_call (SetRemoteDescription SdpAnswer sdp) ra_unit w1 of
             (Done (Inr _), w2) \<Rightarrow> consume_signaling J peer started w2
           | (other, w2) \<Rightarrow> (other, w2))
      | (Done (Inr (Some (Offer _))), w1) \<Rightarrow>
          (Done (Inl (ConnectFailed ''unexpected second offer'')), w1)
      | (Done (Inr (Some (Candidate c m i))), w1) \<Rightarrow>
          (case host_call (AddIceCandidate \<lparr>candidate = c, sdp_mid = m, sdp_mline_index = i\<rparr>) ra_unit w1 of
             (Done (Inr _), w2) \<Rightarrow> consume_signaling J peer started w2
           | (other, w2) \<Rightarrow> (other, w2))
      | (Done (Inr (Some EndOfCandidates)), w1) \<Rightarrow> consume_signaling J peer started w1
      | (Done (Inr (Some SignalDone)), w1) \<Rightarrow>
          (Panicked (ExpectFailed ''next_signal maps done to none''), w1)
      | (Done (Inr None), w1) \<Rightarrow> (Done (Inr ()), w1)
      | (Done (Inl e), w1) \<Rightarrow> (Done (Inl e), w1)
      | (Waiting, w1) \<Rightarrow> (Waiting, w1)
      | (Panicked p, w1) \<Rightarrow> (Panicked p, w1)
      | (Diverged, w1) \<Rightarrow> (Diverged, w1))"
  by pat_completeness auto
termination
  by (relation "inv_image (less_than <*lex*> less_than)
        (\<lambda>(J, peer, started, w). (length (w_script w), inbox_length peer (w_state w)))")
     (auto dest!: next_signal_progress [OF sym] host_call_awaits [OF sym])

declare consume_signaling.simps [simp del]

subsection \<open>The offerer\<close>

text \<open>\<open>SessionGuard\<close>: its drop at the end of the scope releases the slot, however the scope ends. A panic is no end of
  the scope: on the target of the component it aborts without unwinding, and no drop runs.\<close>

definition with_guard :: "endpoint_id \<Rightarrow> ('n, 'c, 'a) rtc_task \<Rightarrow> ('n, 'c, 'a) rtc_task" where
  "with_guard peer t = and_then t (\<lambda>r. and_then (access (\<lambda>_ s. ((), end_signaling peer s))) (\<lambda>_. ret r))"

function wait_open :: "nat \<Rightarrow> ('n, 'c, unit result) rtc_task" where
  "wait_open started w =
     (case w_script w of
        [] \<Rightarrow> (Waiting, w)
      | (r, dt, others) # rest \<Rightarrow>
          (let w' = w\<lparr>w_now := w_now w + dt, w_state := others (w_state w), w_script := rest\<rparr>;
               ended = fst (ra_states r); batch = snd (ra_states r)
           in if ChannelOpen \<in> set batch then (Done (Inr ()), w')
              else if ChannelClosed \<in> set batch \<or> ended then
                (Done (Inl (ConnectFailed ''webrtc channel closed before opening'')), w')
              else if SIGNAL_DEADLINE < w_now w' - started then
                (Done (Inl (ConnectFailed ''webrtc channel open timed out'')), w')
              else wait_open started w'))"
  by pat_completeness auto
termination
  by (relation "measure (\<lambda>(started, w). length (w_script w))") auto

declare wait_open.simps [simp del]

text \<open>
  The synchronous \<open>create_data_channel\<close> gives the wire's reference, or an error: it is the
  argument \<open>create\<close>.
\<close>

definition dial_session ::
  "json_codec \<Rightarrow> (data_channel_options \<Rightarrow> wire_ref sresult) \<Rightarrow> endpoint_id \<Rightarrow> ('n, 'c, wire_ref result) rtc_task" where
  "dial_session J create peer =
     and_then time_now (\<lambda>started.
       case create quic_channel_options of
         Inl e \<Rightarrow> ret (Inl (rtc e))
       | Inr wire \<Rightarrow>
           and_then (emit [CreateDataChannel quic_channel_options]) (\<lambda>_.
           try_then (rtc_await ra_sdp) (\<lambda>offer_sdp.
           try_then (host_call (SetLocalDescription SdpOffer offer_sdp) ra_unit) (\<lambda>_.
           try_then (publish J peer (Offer offer_sdp)) (\<lambda>_.
           try_then (publish_candidates J peer) (\<lambda>_.
           try_then (publish J peer SignalDone) (\<lambda>_.
           try_then (consume_signaling J peer started) (\<lambda>_.
           try_then (rtc_await ra_unit) (\<lambda>_.
           try_then (wait_open started) (\<lambda>_.
             ret (Inr wire)))))))))))"

definition dial ::
  "json_codec \<Rightarrow> (data_channel_options \<Rightarrow> wire_ref sresult) \<Rightarrow> endpoint_id \<Rightarrow> u32
     \<Rightarrow> ('n, 'c, wire_ref result) rtc_task" where
  "dial J create peer via =
     try_then (access (\<lambda>_. begin_signaling peer via)) (\<lambda>_. with_guard peer (dial_session J create peer))"

definition register_wire :: "endpoint_id \<Rightarrow> wire_ref \<Rightarrow> ('n, 'c, unit result) rtc_task" where
  "register_wire peer wire =
     and_then (access (\<lambda>_ s. case register_channel peer wire s of (r, refused, s') \<Rightarrow> ((r, refused), s')))
       (\<lambda>(r, refused). and_then (emit (map CloseWire refused)) (\<lambda>_. ret r))"

definition upgrade ::
  "json_codec \<Rightarrow> (data_channel_options \<Rightarrow> wire_ref sresult) \<Rightarrow> endpoint_id \<Rightarrow> u32 \<Rightarrow> ('n, 'c, unit) rtc_task" where
  "upgrade J create peer via =
     and_then (dial J create peer via) (\<lambda>r.
       case r of
         Inl _ \<Rightarrow> ret ()
       | Inr wire \<Rightarrow> and_then (register_wire peer wire) (\<lambda>_. ret ()))"

subsection \<open>The answerer\<close>

definition answer_session :: "json_codec \<Rightarrow> endpoint_id \<Rightarrow> ('n, 'c, wire_ref result) rtc_task" where
  "answer_session J peer =
     and_then time_now (\<lambda>started.
     try_then (next_signal J peer started) (\<lambda>sig.
       case sig of
         Some (Offer offer) \<Rightarrow>
           try_then (host_call (SetRemoteDescription SdpOffer offer) ra_unit) (\<lambda>_.
           try_then (rtc_await ra_sdp) (\<lambda>answer_sdp.
           try_then (host_call (SetLocalDescription SdpAnswer answer_sdp) ra_unit) (\<lambda>_.
           try_then (publish J peer (Answer answer_sdp)) (\<lambda>_.
           try_then (publish_candidates J peer) (\<lambda>_.
           try_then (publish J peer SignalDone) (\<lambda>_.
           try_then (consume_signaling J peer started) (\<lambda>_.
           try_then (rtc_await ra_unit) (\<lambda>_.
           and_then (await ra_channels) (\<lambda>batch.
             case batch of
               [] \<Rightarrow> ret (Inl (Other ''no incoming data channel''))
             | wire # _ \<Rightarrow> ret (Inr wire))))))))))
       | _ \<Rightarrow> ret (Inl (Other ''expected an offer''))))"

definition answer_inner :: "json_codec \<Rightarrow> endpoint_id \<Rightarrow> ('n, 'c, unit result) rtc_task" where
  "answer_inner J peer = try_then (answer_session J peer) (\<lambda>wire. register_wire peer wire)"

definition answer :: "json_codec \<Rightarrow> endpoint_id \<Rightarrow> ('n, 'c, unit) rtc_task" where
  "answer J peer = and_then (with_guard peer (answer_inner J peer)) (\<lambda>_. ret ())"

section \<open>Lemmas\<close>

subsection \<open>What the sessions guarantee\<close>

text \<open>
  The contract a relation on states has to meet so that the signaling dance of \<open>peer\<close>
  guarantees it: popping a signal and queueing one respect it.
\<close>

locale session_guarantee = rely_guarantee R
  for R :: "('n, 'c) state \<Rightarrow> ('n, 'c) state \<Rightarrow> bool" +
  fixes peer :: endpoint_id
  assumes pop_respects: "pop_signal_inbox peer s = (m, s') \<Longrightarrow> R s s'"
    and push_respects: "R s (push_signal_outbound relay peer data s)"
begin

lemma env_step:
  assumes "env_respects R w" and "w_script w = (r, dt, others) # rest"
  shows "R s (others s)"
    and "env_respects R (w\<lparr>w_now := n, w_state := s', w_script := rest\<rparr>)"
  using assms by (auto simp: env_respects_def)

lemma next_signal_run:
  fixes w :: "(('n, 'c) state, rtc_answer, rtc_effect) world"
  shows "p = peer \<Longrightarrow> env_respects R w \<Longrightarrow>
    R (w_state w) (w_state (snd (next_signal J p started w))) \<and> env_respects R (snd (next_signal J p started w))"
proof (induction J p started w rule: next_signal.induct)
  case (1 J p started w)
  obtain m s where pop: "pop_signal_inbox p (w_state w) = (m, s)" by force
  have R1: "R (w_state w) s" using pop pop_respects "1.prems"(1) by blast
  show ?case
  proof (cases "is_closed_or_dead (w_state w)")
    case True
    with "1.prems" show ?thesis by (subst (1 2) next_signal.simps) (simp add: rely_refl)
  next
    case live: False
    show ?thesis
    proof (cases m)
      case None
      show ?thesis
      proof (cases "SIGNAL_DEADLINE < w_now w - started \<or> w_script w = []")
        case True
        with live pop None R1 "1.prems" show ?thesis by (subst (1 2) next_signal.simps) auto
      next
        case False
        then obtain r dt others rest where sc: "w_script w = (r, dt, others) # rest"
          by (cases "w_script w") auto
        let ?w = "w\<lparr>w_now := w_now w + dt, w_state := others s, w_script := rest\<rparr>"
        have "next_signal J p started w = next_signal J p started ?w"
          using live pop None sc False by (subst next_signal.simps) simp
        moreover have "R (others s) (w_state (snd (next_signal J p started ?w)))
            \<and> env_respects R (snd (next_signal J p started ?w))"
          using "1.IH"(1) [OF live pop [symmetric] None _ sc refl refl "1.prems"(1)
              env_step(2) [OF "1.prems"(2) sc]] False by simp
        ultimately show ?thesis
          using R1 env_step(1) [OF "1.prems"(2) sc, of s] by (auto intro: rely_trans)
      qed
    next
      case (Some json)
      show ?thesis
      proof (cases "from_json J json")
        case None
        then have "next_signal J p started w = next_signal J p started (w\<lparr>w_state := s\<rparr>)"
          using live pop Some by (subst next_signal.simps) simp
        with "1.IH"(2) [OF live pop [symmetric] Some None "1.prems"(1)] "1.prems"(2) R1 show ?thesis
          by (auto intro: rely_trans)
      next
        case (Some sg)
        with live pop \<open>m = Some json\<close> R1 "1.prems" show ?thesis
          by (subst (1 2) next_signal.simps) (cases sg; simp)
      qed
    qed
  qed
qed

lemma next_signal_guarantees:
  "guarantees R (next_signal J peer started :: ('n, 'c, signal option result) rtc_task)"
  by (rule guaranteesI) (rule next_signal_run [OF refl])

lemma gather_candidates_guarantees:
  "guarantees R (gather_candidates acc :: ('n, 'c, ice_candidate list) rtc_task)"
proof (rule guaranteesI)
  fix w :: "(('n, 'c) state, rtc_answer, rtc_effect) world"
  assume "env_respects R w"
  then show "R (w_state w) (w_state (snd (gather_candidates acc w))) \<and> env_respects R (snd (gather_candidates acc w))"
  proof (induction acc w rule: gather_candidates.induct)
    case (1 acc w)
    show ?case
    proof (cases "w_script w")
      case Nil
      with "1.prems" show ?thesis by (subst (1 2) gather_candidates.simps) (simp add: rely_refl)
    next
      case (Cons x rest)
      obtain r dt others where x: "x = (r, dt, others)" by (metis prod_cases3)
      note env = env_step [OF "1.prems" Cons [unfolded x]]
      show ?thesis
        using "1.IH" [OF Cons x [symmetric] refl refl refl] Cons x env
        by (subst (1 2) gather_candidates.simps) (auto simp: Let_def intro: rely_trans)
    qed
  qed
qed

lemma wait_open_guarantees: "guarantees R (wait_open started :: ('n, 'c, unit result) rtc_task)"
proof (rule guaranteesI)
  fix w :: "(('n, 'c) state, rtc_answer, rtc_effect) world"
  assume "env_respects R w"
  then show "R (w_state w) (w_state (snd (wait_open started w))) \<and> env_respects R (snd (wait_open started w))"
  proof (induction started w rule: wait_open.induct)
    case (1 started w)
    show ?case
    proof (cases "w_script w")
      case Nil
      with "1.prems" show ?thesis by (subst (1 2) wait_open.simps) (simp add: rely_refl)
    next
      case (Cons x rest)
      obtain r dt others where x: "x = (r, dt, others)" by (metis prod_cases3)
      note env = env_step [OF "1.prems" Cons [unfolded x]]
      show ?thesis
        using "1.IH" [OF Cons x [symmetric] refl refl refl refl] Cons x env
        by (subst (1 2) wait_open.simps) (auto simp: Let_def intro: rely_trans)
    qed
  qed
qed

lemma publish_guarantees: "guarantees R (publish J peer sig :: ('n, 'c, unit result) rtc_task)"
  unfolding publish_def
  by (rule access_guarantees)
     (auto simp: publish_in_def rely_refl push_respects split: sum.splits option.splits)

lemma rtc_await_guarantees: "guarantees R (rtc_await sel :: ('n, 'c, 'a result) rtc_task)"
  unfolding rtc_await_def by (intro and_then_guarantees await_guarantees ret_guarantees)

lemma host_call_guarantees: "guarantees R (host_call eff sel :: ('n, 'c, 'a result) rtc_task)"
  unfolding host_call_def by (intro and_then_guarantees emit_guarantees rtc_await_guarantees)

lemma publish_candidates_guarantees:
  "guarantees R (publish_candidates J peer :: ('n, 'c, unit result) rtc_task)"
proof -
  have "guarantees R (publish_all J peer cs :: ('n, 'c, unit result) rtc_task)" for cs
    by (induction cs) (auto intro: try_then_guarantees publish_guarantees ret_guarantees)
  then show ?thesis
    unfolding publish_candidates_def
    by (intro and_then_guarantees try_then_guarantees gather_candidates_guarantees publish_guarantees)
qed

lemma consume_signaling_run:
  fixes w :: "(('n, 'c) state, rtc_answer, rtc_effect) world"
  shows "p = peer \<Longrightarrow> env_respects R w \<Longrightarrow>
    R (w_state w) (w_state (snd (consume_signaling J p started w)))
    \<and> env_respects R (snd (consume_signaling J p started w))"
proof (induction J p started w rule: consume_signaling.induct)
  case (1 J p started w)
  let ?ok = "\<lambda>(v :: (('n, 'c) state, rtc_answer, rtc_effect) world) v'. R (w_state v) (w_state v') \<and> env_respects R v'"
  have chain: "?ok v x \<Longrightarrow> ?ok x y \<Longrightarrow> ?ok v y" for v x y by (blast intro: rely_trans)
  obtain r w1 where ns: "next_signal J p started w = (r, w1)" by force
  have ok1: "?ok w w1" using next_signal_run [OF "1.prems", of J started] ns by simp
  have call: "?ok w1 w2" if "host_call eff ra_unit w1 = (r2, w2)" for eff and r2 :: "unit result outcome" and w2
    using host_call_guarantees ok1 that unfolding guarantees_def by (metis snd_conv)
  have IH1: "?ok w2 (snd (consume_signaling J p started w2))"
    if "r = Done (Inr (Some (Answer sdp)))" "host_call (SetRemoteDescription SdpAnswer sdp) ra_unit w1 = (Done (Inr u), w2)"
    for sdp u w2
    using "1.IH"(1) ns that call [OF that(2)] "1.prems"(1) by auto
  have IH2: "?ok w2 (snd (consume_signaling J p started w2))"
    if "r = Done (Inr (Some (Candidate c m i)))"
      "host_call (AddIceCandidate \<lparr>candidate = c, sdp_mid = m, sdp_mline_index = i\<rparr>) ra_unit w1 = (Done (Inr u), w2)"
    for c m i u w2
    using "1.IH"(2) ns that call [OF that(2)] "1.prems"(1) by auto
  have IH3: "?ok w1 (snd (consume_signaling J p started w1))" if "r = Done (Inr (Some EndOfCandidates))"
    using "1.IH"(3) ns that ok1 "1.prems"(1) by auto
  show ?case
    using ok1 chain [OF ok1 IH3] chain [OF chain [OF ok1 call] IH1] chain [OF chain [OF ok1 call] IH2]
      chain [OF ok1 call]
    by (subst (1 2) consume_signaling.simps)
       (auto simp: ns split: outcome.splits sum.splits option.splits signal.splits prod.splits)
qed

lemma consume_signaling_guarantees:
  "guarantees R (consume_signaling J peer started :: ('n, 'c, unit result) rtc_task)"
  by (rule guaranteesI) (rule consume_signaling_run [OF refl])

lemmas dance_guarantees = next_signal_guarantees wait_open_guarantees publish_guarantees
  rtc_await_guarantees host_call_guarantees publish_candidates_guarantees consume_signaling_guarantees
  time_now_guarantees emit_guarantees await_guarantees ret_guarantees

lemma dial_session_guarantees:
  "guarantees R (dial_session J create peer :: ('n, 'c, wire_ref result) rtc_task)"
  unfolding dial_session_def
  by (auto split: sum.split intro!: and_then_guarantees try_then_guarantees dance_guarantees)

lemma answer_session_guarantees:
  "guarantees R (answer_session J peer :: ('n, 'c, wire_ref result) rtc_task)"
  unfolding answer_session_def
  by (auto split: option.split signal.split list.split
      intro!: and_then_guarantees try_then_guarantees dance_guarantees)

end

text \<open>With the slot operations and the registration too, whole sessions guarantee the relation.\<close>

locale session_lifecycle = session_guarantee +
  assumes begin_respects: "begin_signaling peer via s = (r, s') \<Longrightarrow> R s s'"
    and end_respects: "R s (end_signaling peer s)"
    and register_respects: "register_channel peer wire s = (r', refused, s') \<Longrightarrow> R s s'"
begin

lemma register_wire_guarantees: "guarantees R (register_wire peer wire :: ('a, 'b, unit result) rtc_task)"
  unfolding register_wire_def
  by (rule and_then_guarantees)
     (auto split: prod.splits intro!: access_guarantees and_then_guarantees emit_guarantees ret_guarantees
       dest: register_respects)

lemma with_guard_guarantees:
  "guarantees R t \<Longrightarrow> guarantees R (with_guard peer t :: ('a, 'b, 'x) rtc_task)"
  unfolding with_guard_def
  by (rule and_then_guarantees)
     (auto intro!: and_then_guarantees access_guarantees ret_guarantees end_respects)

lemma dial_guarantees: "guarantees R (dial J create peer via :: ('a, 'b, wire_ref result) rtc_task)"
  unfolding dial_def
  by (intro try_then_guarantees with_guard_guarantees dial_session_guarantees access_guarantees)
     (rule begin_respects)

lemma upgrade_guarantees: "guarantees R (upgrade J create peer via :: ('a, 'b, unit) rtc_task)"
  unfolding upgrade_def
  by (auto split: sum.split intro!: and_then_guarantees dial_guarantees register_wire_guarantees ret_guarantees)

lemma answer_guarantees: "guarantees R (answer J peer :: ('a, 'b, unit) rtc_task)"
  unfolding answer_def answer_inner_def
  by (intro and_then_guarantees try_then_guarantees with_guard_guarantees answer_session_guarantees
      register_wire_guarantees ret_guarantees)

end

subsection \<open>The endpoint invariant\<close>

definition rtc_inv :: "('n, 'c) state \<Rightarrow> bool" where
  "rtc_inv s \<longleftrightarrow> state_inv s \<and> st_webrtc_enabled s"

lemma webrtc_enabled_addr: "addr_for_peer p via s = (a, s') \<Longrightarrow> st_webrtc_enabled s' = st_webrtc_enabled s"
  by (cases rule: addr_for_peer_cases) auto

lemma webrtc_enabled_pop [simp]: "st_webrtc_enabled (snd (pop_signal_inbox p s)) = st_webrtc_enabled s"
  by (simp add: pop_signal_inbox_def split: option.split list.split)

lemma webrtc_enabled_handle [simp]:
  "st_webrtc_enabled (snd (handle_signal via p m s)) = st_webrtc_enabled s"
  by (simp add: handle_signal_def Let_def)

lemma webrtc_enabled_slots [simp]:
  "st_webrtc_enabled (snd (begin_signaling p via s)) = st_webrtc_enabled s"
  "st_webrtc_enabled (push_signal_outbound relay p d s) = st_webrtc_enabled s"
  "st_webrtc_enabled (end_signaling p s) = st_webrtc_enabled s"
  by (simp_all add: begin_signaling_def push_signal_outbound_def end_signaling_def)

lemma webrtc_enabled_register [simp]:
  "st_webrtc_enabled (snd (snd (register_channel p w s))) = st_webrtc_enabled s"
  by (simp add: register_channel_def Let_def split: prod.split) (auto dest: webrtc_enabled_addr)

interpretation rtc_kept: session_lifecycle "\<lambda>s t. rtc_inv s \<longrightarrow> rtc_inv t" peer for peer
proof
  fix s s' :: "('n, 'c) state" and m r refused via wire relay data
  show "rtc_inv s \<longrightarrow> rtc_inv s'" if "pop_signal_inbox peer s = (m, s')"
    using state_inv_pop_signal_inbox [of s peer] webrtc_enabled_pop [of peer s] that
    by (simp add: rtc_inv_def)
  show "rtc_inv s \<longrightarrow> rtc_inv s'" if "begin_signaling peer via s = (r, s')"
    using state_inv_begin_signaling [of s peer via] webrtc_enabled_slots(1) [of peer via s] that
    by (simp add: rtc_inv_def)
  show "rtc_inv s \<longrightarrow> rtc_inv s'" if "register_channel peer wire s = (r, refused, s')"
    using state_inv_register_channel [of s peer wire] webrtc_enabled_register [of peer wire s] that
    by (simp add: rtc_inv_def)
  show "rtc_inv s \<longrightarrow> rtc_inv (push_signal_outbound relay peer data s)"
    by (simp add: rtc_inv_def state_inv_push_signal_outbound)
  show "rtc_inv s \<longrightarrow> rtc_inv (end_signaling peer s)"
    by (simp add: rtc_inv_def state_inv_end_signaling)
qed auto

text \<open>C17. Both signaling sessions keep the endpoint invariant whatever the host answers, the
  peer sends and the other tasks do, as long as those keep it.\<close>

theorem sessions_keep_invariant:
  assumes "rtc_inv (w_state w)" and "env_respects (\<lambda>s t. rtc_inv s \<longrightarrow> rtc_inv t) w"
  shows "rtc_inv (w_state (snd (upgrade J create peer via w))) \<and> rtc_inv (w_state (snd (answer J peer w)))"
  using assms guaranteesD [OF rtc_kept.upgrade_guarantees assms(2)]
    guaranteesD [OF rtc_kept.answer_guarantees assms(2)] by blast

subsection \<open>Session slots\<close>

lemma try_then_Done:
  "try_then m f w = (Done (Inr y), w') \<longleftrightarrow>
     (\<exists>x w1. m w = (Done (Inr x), w1) \<and> f x w1 = (Done (Inr y), w'))"
  by (auto simp: try_then_def and_then_def ret_def split: prod.splits outcome.splits sum.splits)

lemma and_then_Done:
  "and_then m f w = (Done y, w') \<longleftrightarrow> (\<exists>x w1. m w = (Done x, w1) \<and> f x w1 = (Done y, w'))"
  by (auto simp: and_then_def split: prod.splits outcome.splits)

lemma with_guard_Done:
  "with_guard peer t w = (Done r, w') \<longleftrightarrow>
     (\<exists>w1. t w = (Done r, w1) \<and> w' = w1\<lparr>w_state := end_signaling peer (w_state w1)\<rparr>)"
  by (auto simp: with_guard_def and_then_Done access_def ret_def)

lemma dial_frees_slot:
  assumes "dial J create peer via w = (Done r, w')" and "st_signaling (w_state w) peer = None"
  shows "st_signaling (w_state w') peer = None" and "st_signal_inboxes (w_state w') peer = None"
proof -
  obtain w1 where "with_guard peer (dial_session J create peer) w1 = (Done r, w')"
    using assms
    by (auto simp: dial_def try_then_def and_then_Done access_def begin_signaling_def split: sum.splits)
  then show "st_signaling (w_state w') peer = None" and "st_signal_inboxes (w_state w') peer = None"
    by (auto simp: with_guard_Done end_signaling_def)
qed

lemma dial_slot_taken:
  "st_signaling (w_state w) peer \<noteq> None \<Longrightarrow>
     dial J create peer via w
       = (Done (Inl (ConnectFailed ''a webrtc signaling session with this peer is already active'')), w)"
  by (auto simp: dial_def try_then_def and_then_def access_def begin_signaling_def ret_def)

text \<open>C18. A dial finds the slot of its peer free or fails at once without touching the state,
  and a dial that claimed the slot has released it, with the unread signals, when it ends, on
  every path.\<close>

theorem dial_owns_slot:
  assumes "dial J create peer via w = (Done r, w')"
  shows "if st_signaling (w_state w) peer = None
         then st_signaling (w_state w') peer = None \<and> st_signal_inboxes (w_state w') peer = None
         else w' = w \<and> r = Inl (ConnectFailed ''a webrtc signaling session with this peer is already active'')"
  using dial_frees_slot [OF assms] dial_slot_taken [of w peer J create via] assms by auto

text \<open>The offerer registers its channel after its session slot was released, so the channel
  falls back to the home relay, whichever relay the session was signaled through.\<close>

theorem upgrade_falls_back_home:
  assumes "dial J create peer via w = (Done (Inr wire), w1)" and "\<not> is_closed_or_dead (w_state w1)"
    and "cid = st_next_channel_id (w_state w1) + 1"
  shows "\<exists>w'. upgrade J create peer via w = (Done (), w')
           \<and> map_of (st_channels (w_state w')) cid
               = Some \<lparr>ch_wire = wire, ch_peer = peer, ch_fallback_relay = HOME_RELAY\<rparr>"
proof -
  have "st_signaling (w_state w1) peer = None"
    using dial_frees_slot(1) [OF assms(1)] dial_slot_taken [of w peer J create via] assms(1) by auto
  moreover obtain a s2 where "addr_for_peer peer 0 ((w_state w1)\<lparr>st_next_channel_id := cid,
      st_channels := AList.update cid \<lparr>ch_wire = wire, ch_peer = peer, ch_fallback_relay = 0\<rparr> (st_channels (w_state w1)),
      st_new_channels := st_new_channels (w_state w1) @ [(cid, wire)]\<rparr>) = (a, s2)"
    by force
  moreover from this have "st_channels s2
      = AList.update cid \<lparr>ch_wire = wire, ch_peer = peer, ch_fallback_relay = 0\<rparr> (st_channels (w_state w1))"
    by (cases rule: addr_for_peer_cases) auto
  ultimately show ?thesis
    using assms
    by (simp add: upgrade_def and_then_def register_wire_def access_def register_channel_def
        signaling_relay_def emit_def ret_def update_conv')
qed

text \<open>Nobody but its holder gives up a slot or moves it to another relay.\<close>

definition slot_kept :: "endpoint_id \<Rightarrow> ('n, 'c) state \<Rightarrow> ('n, 'c) state \<Rightarrow> bool" where
  "slot_kept peer s t \<longleftrightarrow> (st_signaling s peer \<noteq> None \<longrightarrow> st_signaling t peer = st_signaling s peer)"

interpretation slot: session_guarantee "slot_kept peer" peer for peer
  by unfold_locales
     (auto simp: slot_kept_def pop_signal_inbox_def push_signal_outbound_def split: option.splits list.splits)

lemma register_wire_Done:
  assumes "register_wire peer wire w = (Done (Inr ()), w')" and "st_signaling (w_state w) peer = Some r"
  shows "\<exists>a. map_of (st_channels (w_state w')) (st_next_channel_id (w_state w) + 1)
             = Some \<lparr>ch_wire = wire, ch_peer = peer, ch_fallback_relay = r\<rparr>
           \<and> st_peer_to_addr (w_state w') peer = Some a
           \<and> st_routes (w_state w') a = Some (Channel (st_next_channel_id (w_state w) + 1))"
proof -
  let ?s = "w_state w"
  let ?cid = "st_next_channel_id ?s + 1"
  let ?s1 = "?s\<lparr>st_next_channel_id := ?cid,
      st_channels := AList.update ?cid \<lparr>ch_wire = wire, ch_peer = peer, ch_fallback_relay = r\<rparr> (st_channels ?s),
      st_new_channels := st_new_channels ?s @ [(?cid, wire)]\<rparr>"
  obtain a s2 where ap: "addr_for_peer peer r ?s1 = (a, s2)" by force
  have "\<not> is_closed_or_dead ?s"
    using assms(1) by (auto simp: register_wire_def and_then_def access_def register_channel_def emit_def ret_def)
  then have "w_state w' = s2\<lparr>st_routes := (st_routes s2)(a \<mapsto> Channel ?cid)\<rparr>"
    using assms ap
    by (auto simp: register_wire_def and_then_def access_def register_channel_def signaling_relay_def
        emit_def ret_def)
  moreover have "st_channels s2 = st_channels ?s1" using ap by (cases rule: addr_for_peer_cases) auto
  ultimately show ?thesis using addr_for_peer_assigned [OF ap] by (simp add: update_conv')
qed

text \<open>C19. An answerer that succeeds has moved its peer's route onto the negotiated channel, and
  the channel's fallback is the relay the session was opened through.\<close>

theorem answer_registers_session_relay:
  assumes "answer_inner J peer w = (Done (Inr ()), w')" and "st_signaling (w_state w) peer = Some r"
    and "env_respects (slot_kept peer) w"
  shows "\<exists>cid wire a. map_of (st_channels (w_state w')) cid
             = Some \<lparr>ch_wire = wire, ch_peer = peer, ch_fallback_relay = r\<rparr>
           \<and> st_peer_to_addr (w_state w') peer = Some a \<and> st_routes (w_state w') a = Some (Channel cid)"
proof -
  obtain wire w1 where run: "answer_session J peer w = (Done (Inr wire), w1)"
    and reg: "register_wire peer wire w1 = (Done (Inr ()), w')"
    using assms(1) by (auto simp: answer_inner_def try_then_Done)
  have "slot_kept peer (w_state w) (w_state w1)"
    using guaranteesD [OF slot.answer_session_guarantees assms(3), of J] run by simp
  then have "st_signaling (w_state w1) peer = Some r" using assms(2) by (simp add: slot_kept_def)
  with register_wire_Done [OF reg] show ?thesis by blast
qed

subsection \<open>Reading signals\<close>

text \<open>C20. A session that still waits for a signal is within its deadline and its endpoint is
  open: a silent peer or a closed endpoint ends the wait.\<close>

theorem next_signal_waits_within_deadline:
  assumes "next_signal J peer started w = (Waiting, w')"
  shows "w_now w' - started \<le> SIGNAL_DEADLINE \<and> \<not> is_closed_or_dead (w_state w')
       \<and> fst (pop_signal_inbox peer (w_state w')) = None"
  using assms
proof (induction J peer started w rule: next_signal.induct)
  case (1 J peer started w)
  have live: "\<not> is_closed_or_dead (w_state w)"
    using "1.prems" by (subst (asm) next_signal.simps) (auto split: if_splits)
  obtain m s where pop: "pop_signal_inbox peer (w_state w) = (m, s)" by force
  show ?case
  proof (cases m)
    case None
    then have s: "s = w_state w" using pop by (auto simp: pop_signal_inbox_def split: option.splits list.splits)
    show ?thesis
    proof (cases "w_script w")
      case Nil
      with "1.prems" live pop None s show ?thesis
        by (subst (asm) next_signal.simps) (auto split: if_splits)
    next
      case (Cons x rest)
      obtain r dt others where x: "x = (r, dt, others)" by (metis prod_cases3)
      with "1.prems" live pop None Cons have "\<not> SIGNAL_DEADLINE < w_now w - started"
        and "next_signal J peer started
               (w\<lparr>w_now := w_now w + dt, w_state := others s, w_script := rest\<rparr>) = (Waiting, w')"
        by (auto simp: next_signal.simps [of J peer started w] split: if_splits)
      with "1.IH"(1) [OF live pop [symmetric] None _ Cons x [symmetric] refl] show ?thesis by simp
    qed
  next
    case (Some json)
    with "1.prems" live pop have "from_json J json = None"
      and "next_signal J peer started (w\<lparr>w_state := s\<rparr>) = (Waiting, w')"
      by (auto simp: next_signal.simps [of J peer started w] split: option.splits signal.splits)
    with "1.IH"(2) [OF live pop [symmetric] Some] show ?thesis by simp
  qed
qed

lemma next_signal_decodes:
  assumes "\<not> is_closed_or_dead (w_state w)" and "st_signal_inboxes (w_state w) peer = Some (bad @ m # rest)"
    and "\<forall>b\<in>set bad. from_json J b = None" and "from_json J m = Some sig"
  shows "next_signal J peer started w =
           (Done (Inr (if sig = SignalDone then None else Some sig)),
            w\<lparr>w_state := (w_state w)\<lparr>st_signal_inboxes := (st_signal_inboxes (w_state w))(peer \<mapsto> rest)\<rparr>\<rparr>)"
  using assms
proof (induction bad arbitrary: w)
  case Nil
  then show ?case
    by (subst next_signal.simps) (auto simp: pop_signal_inbox_def split: signal.split)
next
  case (Cons b bad)
  let ?s = "(w_state w)\<lparr>st_signal_inboxes := (st_signal_inboxes (w_state w))(peer \<mapsto> bad @ m # rest)\<rparr>"
  have "next_signal J peer started w = next_signal J peer started (w\<lparr>w_state := ?s\<rparr>)"
    using Cons.prems by (subst next_signal.simps) (simp add: pop_signal_inbox_def)
  moreover have "\<not> is_closed_or_dead ?s" using Cons.prems(1) by (simp add: is_closed_or_dead_def)
  ultimately show ?case using Cons.IH [of "w\<lparr>w_state := ?s\<rparr>"] Cons.prems
    by (simp add: fun_upd_same del: fun_upd_apply)
qed

text \<open>An offer that arrives for a peer whose session is already consuming signals is filed
  in the inbox, not dropped, and it aborts that session.\<close>

theorem second_offer_aborts_session:
  assumes "st_webrtc_enabled s" and "\<not> is_closed_or_dead s" and "st_signaling s peer = Some relay"
    and "st_signal_inboxes s peer \<in> {None, Some []}" and "from_json J m = Some (Offer sdp)"
    and "handle_signal via peer m s = (spawned, s')" and "w_state w = s'"
  shows "\<not> spawned \<and> st_signal_inboxes s' peer = Some [m]
       \<and> fst (consume_signaling J peer started w) = Done (Inl (ConnectFailed ''unexpected second offer''))"
proof -
  have s': "\<not> spawned" "st_signal_inboxes s' peer = Some [m]" "\<not> is_closed_or_dead s'"
    using assms(1-4,6)
    by (auto simp: handle_signal_def Let_def INBOX_CAP_def is_closed_or_dead_def)
  have "next_signal J peer started w = (Done (Inr (Some (Offer sdp))),
      w\<lparr>w_state := (w_state w)\<lparr>st_signal_inboxes := (st_signal_inboxes (w_state w))(peer \<mapsto> [])\<rparr>\<rparr>)"
    using next_signal_decodes [of w peer "[]" m "[]" J "Offer sdp" started] s' assms(5,7) by simp
  with s' show ?thesis by (subst consume_signaling.simps) simp
qed

subsection \<open>Witnesses\<close>

definition toy_json :: json_codec where
  "toy_json =
     \<lparr>to_json = (\<lambda>sig. Inr [case sig of Offer _ \<Rightarrow> 1 | Answer _ \<Rightarrow> 2 | Candidate _ _ _ \<Rightarrow> 3
                           | EndOfCandidates \<Rightarrow> 4 | SignalDone \<Rightarrow> 5]),
      from_json = (\<lambda>m. if m = [1] then Some (Offer []) else if m = [2] then Some (Answer [])
                       else if m = [4] then Some EndOfCandidates
                       else if m = [5] then Some SignalDone else None)\<rparr>"

definition toy_rtc :: rtc_answer where
  "toy_rtc = \<lparr>ra_unit = Inr (), ra_sdp = Inr [], ra_candidates = (True, []),
              ra_states = (False, [ChannelOpen]), ra_channels = [7]\<rparr>"

text \<open>Five awaits; during the third the peer's \<open>done\<close> arrives.\<close>

definition toy_world ::
  "(nat, toy_conn) state \<Rightarrow> ((nat, toy_conn) state, rtc_answer, rtc_effect) world" where
  "toy_world s =
     \<lparr>w_now = 0, w_state = s,
      w_script = [(toy_rtc, 1, id), (toy_rtc, 1, id), (toy_rtc, 1, \<lambda>s. snd (handle_signal 3 [9] [5] s)),
                  (toy_rtc, 1, id), (toy_rtc, 1, id), (toy_rtc, 1, id)],
      w_log = []\<rparr>"

lemmas run_defs = and_then_def try_then_def ret_def access_def emit_def await_def time_now_def
  rtc_await_def host_call_def publish_def publish_in_def publish_candidates_def register_wire_def
  gather_candidates.simps next_signal.simps consume_signaling.simps wait_open.simps
  handle_signal_def pop_signal_inbox_def push_signal_outbound_def signaling_relay_def
  is_closed_or_dead_def INBOX_CAP_def SIGNAL_DEADLINE_def map_err_def

lemma toy_dial:
  "\<exists>w1. dial toy_json (\<lambda>_. Inr 7) [9] 3 (toy_world (toy_state True)) = (Done (Inr 7), w1)
     \<and> \<not> is_closed_or_dead (w_state w1)"
  by (simp add: toy_world_def toy_json_def toy_rtc_def dial_def dial_session_def with_guard_def
      begin_signaling_def end_signaling_def run_defs)

theorem dial_owns_slot_witness:
  "\<exists>w1. dial toy_json (\<lambda>_. Inr 7) [9] 3 (toy_world (toy_state True)) = (Done (Inr 7), w1)
     \<and> st_signaling (w_state w1) [9] = None \<and> st_signal_inboxes (w_state w1) [9] = None"
proof -
  obtain w1 where run: "dial toy_json (\<lambda>_. Inr 7) [9] 3 (toy_world (toy_state True)) = (Done (Inr 7), w1)"
    using toy_dial by blast
  moreover have "st_signaling (w_state (toy_world (toy_state True))) [9] = None"
    by (simp add: toy_world_def)
  ultimately show ?thesis using dial_owns_slot [OF run] by simp
qed

theorem upgrade_falls_back_home_witness:
  "\<exists>w' cid. upgrade toy_json (\<lambda>_. Inr 7) [9] 3 (toy_world (toy_state True)) = (Done (), w')
     \<and> map_of (st_channels (w_state w')) cid = Some \<lparr>ch_wire = 7, ch_peer = [9], ch_fallback_relay = 0\<rparr>"
proof -
  obtain w1 where run: "dial toy_json (\<lambda>_. Inr 7) [9] 3 (toy_world (toy_state True)) = (Done (Inr 7), w1)"
    and live: "\<not> is_closed_or_dead (w_state w1)" using toy_dial by blast
  from upgrade_falls_back_home [OF run live refl] show ?thesis by auto
qed

definition toy_answering :: "((nat, toy_conn) state, rtc_answer, rtc_effect) world" where
  "toy_answering = toy_world (snd (handle_signal 3 [9] [1] (toy_state True)))"

lemma toy_answer:
  "\<exists>w'. answer_inner toy_json [9] toy_answering = (Done (Inr ()), w')"
  by (simp add: toy_answering_def toy_world_def toy_json_def toy_rtc_def answer_inner_def answer_session_def
      run_defs register_channel_def addr_for_peer_def Let_def)

lemma handle_signal_keeps_slots: "slot_kept p s (snd (handle_signal via q m s))"
  by (auto simp: slot_kept_def handle_signal_def Let_def)

lemma toy_env_slot: "env_respects (slot_kept p) (toy_world s)"
  by (auto simp: env_respects_def toy_world_def handle_signal_keeps_slots slot.rely_refl)

theorem answer_registers_session_relay_witness:
  "\<exists>w' cid wire. answer_inner toy_json [9] toy_answering = (Done (Inr ()), w')
     \<and> map_of (st_channels (w_state w')) cid = Some \<lparr>ch_wire = wire, ch_peer = [9], ch_fallback_relay = 3\<rparr>"
proof -
  obtain w' where run: "answer_inner toy_json [9] toy_answering = (Done (Inr ()), w')"
    using toy_answer by blast
  have "st_signaling (w_state toy_answering) [9] = Some 3"
    by (simp add: toy_answering_def toy_world_def handle_signal_def is_closed_or_dead_def Let_def)
  from answer_registers_session_relay [OF run this] toy_env_slot run show ?thesis
    by (auto simp: toy_answering_def)
qed

theorem sessions_keep_invariant_witness:
  "rtc_inv (w_state (toy_world (toy_state True)))
   \<and> rtc_inv (w_state (snd (upgrade toy_json (\<lambda>_. Inr 7) [9] 3 (toy_world (toy_state True)))))"
proof -
  have inv: "rtc_inv (w_state (toy_world (toy_state True)))"
    by (simp add: toy_world_def rtc_inv_def toy_state_inv)
  have "rtc_inv (snd (handle_signal via p m s))" if "rtc_inv s"
    for via p m and s :: "(nat, toy_conn) state"
    using that state_inv_handle_signal [of s via p m] webrtc_enabled_handle [of via p m s]
    by (simp add: rtc_inv_def)
  then have "env_respects (\<lambda>s t. rtc_inv s \<longrightarrow> rtc_inv t) (toy_world (toy_state True))"
    by (auto simp: env_respects_def toy_world_def)
  from inv sessions_keep_invariant [OF inv this] show ?thesis by blast
qed

theorem next_signal_waits_within_deadline_witness:
  "\<exists>w'. next_signal toy_json [8] 0 (toy_world (toy_state True)) = (Waiting, w') \<and> w_now w' \<le> 30000000000"
proof -
  obtain w' where run: "next_signal toy_json [8] 0 (toy_world (toy_state True)) = (Waiting, w')"
    by (simp add: toy_world_def run_defs Let_def)
  from run next_signal_waits_within_deadline [OF run] show ?thesis by (simp add: SIGNAL_DEADLINE_def)
qed

theorem second_offer_aborts_session_witness:
  "\<exists>spawned s'. handle_signal 4 [9] [1] (snd (begin_signaling [9] 3 (toy_state True))) = (spawned, s')
     \<and> \<not> spawned
     \<and> fst (consume_signaling toy_json [9] 0 (toy_world s')) = Done (Inl (ConnectFailed ''unexpected second offer''))"
proof -
  let ?s = "snd (begin_signaling [9] 3 (toy_state True))"
  obtain spawned s' where h: "handle_signal 4 [9] [1] ?s = (spawned, s')" by force
  have "\<not> spawned \<and> st_signal_inboxes s' [9] = Some [[1]]
      \<and> fst (consume_signaling toy_json [9] 0 (toy_world s')) = Done (Inl (ConnectFailed ''unexpected second offer''))"
    by (rule second_offer_aborts_session [OF _ _ _ _ _ h, of 3 _ "[]"])
       (simp_all add: begin_signaling_def is_closed_or_dead_def toy_json_def toy_world_def)
  with h show ?thesis by blast
qed

end
