(* ===== verification/Pump.thy ===== *)
theory Pump
  imports Endpoint_Drain Webrtc Relay
begin

text \<open>
  Model of the pump of \<open>endpoint/src/endpoint_impl.rs\<close>: the one I/O task of a bound endpoint,
  with its flushes, the arming of receives, the exit condition, the select over the armed
  futures, and the teardown. It is a task over the shared state: every send and every select
  is an await, during which the other tasks (resource methods and signaling sessions) may
  change the state. What it asks of the wires is logged.
\<close>

section \<open>Definitions\<close>

definition LINGER :: nat where
  "LINGER = 500000000"

text \<open>
  Which of the pinned futures the select found ready: a relay or channel receive by its
  position among the armed ones, the UDP receive, or the tick.
\<close>

datatype select_event =
    RelayReady nat "datagram sresult"
  | UdpReady "(bytes \<times> socket_addr) sresult"
  | ChannelReady nat "bytes option sresult"
  | TickReady

record pump_answer =
  pa_send :: "unit sresult"
  pa_select :: select_event

datatype pump_effect =
    SendRelay relay_ref endpoint_id bytes
  | SendUdp socket_addr bytes
  | SendChannel wire_ref bytes
  | SpawnUpgrade endpoint_id u32
  | SpawnAnswer endpoint_id
  | CloseRelay relay_ref
  | CloseChannel wire_ref
  | SelfWake

text \<open>The task's own variables: is there a socket, and which receives are in flight.\<close>

record pump_local =
  pl_udp :: bool
  pl_udp_armed :: bool
  pl_relays :: "(u32 \<times> relay_ref) list"
  pl_channels :: "(u32 \<times> wire_ref) list"

type_synonym ('n, 'c, 'a) pump_task = "(('n, 'c) state, pump_answer, pump_effect, 'a) task"

definition drain_task :: "('n, 'c, 'i, 'ce, 'ee, 'z) noq_scheme \<Rightarrow> ('n, 'c, unit) pump_task" where
  "drain_task N w =
     (case drain N (w_now w) (w_state w) of
        None \<Rightarrow> (Diverged, w)
      | Some (Inl p) \<Rightarrow> (Panicked p, w)
      | Some (Inr s) \<Rightarrow> (Done (), w\<lparr>w_state := s\<rparr>))"

subsection \<open>Flushing the outbound queues\<close>

text \<open>The result says whether the pump breaks off because the home relay failed.\<close>

function flush_relay :: "('n, 'c, bool) pump_task" where
  "flush_relay w =
     (case st_relay_outbound (w_state w) of
        [] \<Rightarrow> (Done False, w)
      | (key, peer, datagram) # rest \<Rightarrow>
          (let s = (w_state w)\<lparr>st_relay_outbound := rest\<rparr>
           in case map_of (st_relay_pool s) key of
                None \<Rightarrow> flush_relay (w\<lparr>w_state := s\<rparr>)
              | Some conn \<Rightarrow>
                  (case w_script w of
                     [] \<Rightarrow> (Waiting, w\<lparr>w_state := s, w_log := w_log w @ [SendRelay conn peer datagram]\<rparr>)
                   | (r, dt, others) # script \<Rightarrow>
                       (let w' = w\<lparr>w_now := w_now w + dt, w_state := others s, w_script := script,
                                   w_log := w_log w @ [SendRelay conn peer datagram]\<rparr>
                        in if pa_send r \<noteq> Inr () \<and> key = HOME_RELAY
                           then (Done True, w'\<lparr>w_state := mark_dead ''relay send failed'' (w_state w')\<rparr>)
                           else flush_relay w'))))"
  by pat_completeness auto
termination
  by (relation "inv_image (less_than <*lex*> less_than)
        (\<lambda>w. (length (w_script w), length (st_relay_outbound (w_state w))))") auto

declare flush_relay.simps [simp del]

function flush_udp :: "bool \<Rightarrow> ('n, 'c, unit) pump_task" where
  "flush_udp udp w =
     (case st_udp_outbound (w_state w) of
        [] \<Rightarrow> (Done (), w)
      | (remote, datagram) # rest \<Rightarrow>
          (let s = (w_state w)\<lparr>st_udp_outbound := rest\<rparr>
           in if \<not> udp then flush_udp udp (w\<lparr>w_state := s\<rparr>)
              else
                (case w_script w of
                   [] \<Rightarrow> (Waiting, w\<lparr>w_state := s, w_log := w_log w @ [SendUdp remote datagram]\<rparr>)
                 | (r, dt, others) # script \<Rightarrow>
                     flush_udp udp
                       (w\<lparr>w_now := w_now w + dt, w_state := others s, w_script := script,
                          w_log := w_log w @ [SendUdp remote datagram]\<rparr>))))"
  by pat_completeness auto
termination
  by (relation "inv_image (less_than <*lex*> less_than)
        (\<lambda>(udp, w). (length (w_script w), length (st_udp_outbound (w_state w))))") auto

declare flush_udp.simps [simp del]

function flush_channel :: "('n, 'c, unit) pump_task" where
  "flush_channel w =
     (case st_channel_outbound (w_state w) of
        [] \<Rightarrow> (Done (), w)
      | (cid, datagram) # rest \<Rightarrow>
          (let s = (w_state w)\<lparr>st_channel_outbound := rest\<rparr>
           in case map_of (st_channels s) cid of
                None \<Rightarrow> flush_channel (w\<lparr>w_state := s\<rparr>)
              | Some entry \<Rightarrow>
                  (case w_script w of
                     [] \<Rightarrow> (Waiting, w\<lparr>w_state := s, w_log := w_log w @ [SendChannel (ch_wire entry) datagram]\<rparr>)
                   | (r, dt, others) # script \<Rightarrow>
                       flush_channel
                         (w\<lparr>w_now := w_now w + dt, w_state := others s, w_script := script,
                            w_log := w_log w @ [SendChannel (ch_wire entry) datagram]\<rparr>))))"
  by pat_completeness auto
termination
  by (relation "inv_image (less_than <*lex*> less_than)
        (\<lambda>w. (length (w_script w), length (st_channel_outbound (w_state w))))") auto

declare flush_channel.simps [simp del]

subsection \<open>Arming, the exit condition and the select\<close>

definition arm_receives :: "pump_local \<Rightarrow> ('n, 'c) state \<Rightarrow> (pump_local \<times> pump_effect list) \<times> ('n, 'c) state" where
  "arm_receives l s =
     ((l\<lparr>pl_relays := pl_relays l @ st_new_relays s, pl_channels := pl_channels l @ st_new_channels s\<rparr>,
       map (\<lambda>(peer, relay). SpawnUpgrade peer relay) (st_pending_upgrades s)),
      s\<lparr>st_new_relays := [], st_new_channels := [], st_pending_upgrades := []\<rparr>)"

definition pump_exits :: "nat \<Rightarrow> ('n, 'c) state \<Rightarrow> bool" where
  "pump_exits now s \<longleftrightarrow>
     st_dead s \<noteq> None
     \<or> (st_closed s
        \<and> (list_all (\<lambda>(_, e). ce_drained e \<or> ce_error e \<noteq> None) (st_conns s)
           \<or> (case st_closed_at s of Some at \<Rightarrow> LINGER \<le> now - at | None \<Rightarrow> True)))"

definition remove_nth :: "nat \<Rightarrow> 'a list \<Rightarrow> 'a list" where
  "remove_nth i xs = take i xs @ drop (Suc i) xs"

text \<open>Only an armed future can be ready.\<close>

definition is_armed :: "pump_local \<Rightarrow> select_event \<Rightarrow> bool" where
  "is_armed l ev =
     (case ev of
        RelayReady i _ \<Rightarrow> i < length (pl_relays l)
      | UdpReady _ \<Rightarrow> pl_udp l \<and> pl_udp_armed l
      | ChannelReady i _ \<Rightarrow> i < length (pl_channels l)
      | TickReady \<Rightarrow> True)"

text \<open>
  What the arms of the select do; the result is whether the pump breaks off, its variables,
  and the sessions it spawns.
\<close>

definition on_relay_ready ::
  "('n, 'c, 'i, 'ce, 'ee, 'z) noq_scheme \<Rightarrow> nat \<Rightarrow> nat \<Rightarrow> datagram sresult \<Rightarrow> pump_local \<Rightarrow> ('n, 'c) state
     \<Rightarrow> panic + (bool \<times> pump_local \<times> pump_effect list) \<times> ('n, 'c) state" where
  "on_relay_ready N now i result l s =
     (let key = fst (pl_relays l ! i); rest = remove_nth i (pl_relays l)
      in case result of
           Inr datagram \<Rightarrow>
             (let armed = (case map_of (st_relay_pool s) key of
                             Some conn \<Rightarrow> rest @ [(key, conn)] | None \<Rightarrow> rest);
                  l' = l\<lparr>pl_relays := armed\<rparr>
              in case payload datagram of
                   b # signal \<Rightarrow>
                     (if b = SIGNAL_PREFIX then
                        (case handle_signal key (source datagram) signal s of
                           (spawn_answerer, s') \<Rightarrow>
                             Inr ((False, l', if spawn_answerer then [SpawnAnswer (source datagram)] else []), s'))
                      else
                        map_sum id (\<lambda>s'. ((False, l', []), s'))
                          (handle_relay_datagram N now key (source datagram) (payload datagram) s))
                 | [] \<Rightarrow>
                     map_sum id (\<lambda>s'. ((False, l', []), s'))
                       (handle_relay_datagram N now key (source datagram) (payload datagram) s))
         | Inl err \<Rightarrow>
             (if key = HOME_RELAY
              then Inr ((True, l\<lparr>pl_relays := rest\<rparr>, []), mark_dead err s)
              else Inr ((False, l\<lparr>pl_relays := rest\<rparr>, []),
                        s\<lparr>st_relay_pool := AList.delete key (st_relay_pool s)\<rparr>)))"

definition on_udp_ready ::
  "('n, 'c, 'i, 'ce, 'ee, 'z) noq_scheme \<Rightarrow> nat \<Rightarrow> (bytes \<times> socket_addr) sresult \<Rightarrow> pump_local \<Rightarrow> ('n, 'c) state
     \<Rightarrow> panic + (bool \<times> pump_local \<times> pump_effect list) \<times> ('n, 'c) state" where
  "on_udp_ready N now received l s =
     (case received of
        Inr (data, remote) \<Rightarrow>
          map_sum id (\<lambda>s'. ((False, l, []), s')) (handle_udp_datagram N now remote data s)
      | Inl _ \<Rightarrow> Inr ((False, l\<lparr>pl_udp_armed := False\<rparr>, []), s))"

definition on_channel_ready ::
  "('n, 'c, 'i, 'ce, 'ee, 'z) noq_scheme \<Rightarrow> nat \<Rightarrow> nat \<Rightarrow> bytes option sresult \<Rightarrow> pump_local \<Rightarrow> ('n, 'c) state
     \<Rightarrow> panic + (bool \<times> pump_local \<times> pump_effect list) \<times> ('n, 'c) state" where
  "on_channel_ready N now i result l s =
     (let cid = fst (pl_channels l ! i); rest = remove_nth i (pl_channels l)
      in case result of
           Inr received \<Rightarrow>
             (let armed = (case map_of (st_channels s) cid of
                             Some entry \<Rightarrow> rest @ [(cid, ch_wire entry)] | None \<Rightarrow> rest);
                  l' = l\<lparr>pl_channels := armed\<rparr>
              in case received of
                   Some datagram \<Rightarrow>
                     map_sum id (\<lambda>s'. ((False, l', []), s')) (handle_channel_datagram N now cid datagram s)
                 | None \<Rightarrow> Inr ((False, l', []), s))
         | Inl _ \<Rightarrow> Inr ((False, l\<lparr>pl_channels := rest\<rparr>, []), retire_channel cid s))"

definition on_select ::
  "('n, 'c, 'i, 'ce, 'ee, 'z) noq_scheme \<Rightarrow> select_event \<Rightarrow> pump_local \<Rightarrow> nat \<Rightarrow> ('n, 'c) state
     \<Rightarrow> panic + (bool \<times> pump_local \<times> pump_effect list) \<times> ('n, 'c) state" where
  "on_select N ev l now s =
     (case ev of
        RelayReady i r \<Rightarrow> on_relay_ready N now i r l s
      | UdpReady r \<Rightarrow> on_udp_ready N now r l s
      | ChannelReady i r \<Rightarrow> on_channel_ready N now i r l s
      | TickReady \<Rightarrow> Inr ((False, l, []), handle_timeouts N now s))"

text \<open>The select waits until an armed future is ready.\<close>

function next_event :: "pump_local \<Rightarrow> ('n, 'c, select_event) pump_task" where
  "next_event l w =
     (case w_script w of
        [] \<Rightarrow> (Waiting, w)
      | (r, dt, others) # script \<Rightarrow>
          (let w' = w\<lparr>w_now := w_now w + dt, w_state := others (w_state w), w_script := script\<rparr>
           in if is_armed l (pa_select r) then (Done (pa_select r), w') else next_event l w'))"
  by pat_completeness auto
termination
  by (relation "measure (\<lambda>(l, w). length (w_script w))") auto

declare next_event.simps [simp del]

subsection \<open>One turn\<close>

definition select_turn :: "('n, 'c, 'i, 'ce, 'ee, 'z) noq_scheme \<Rightarrow> pump_local \<Rightarrow> ('n, 'c, bool \<times> pump_local) pump_task" where
  "select_turn N l =
     and_then (next_event l) (\<lambda>ev.
     and_then (access_or_panic (on_select N ev l)) (\<lambda>(broke, l', effects).
     and_then (emit effects) (\<lambda>_. ret (broke, l'))))"

definition pump_turn :: "('n, 'c, 'i, 'ce, 'ee, 'z) noq_scheme \<Rightarrow> pump_local \<Rightarrow> ('n, 'c, bool \<times> pump_local) pump_task" where
  "pump_turn N l =
     and_then (drain_task N) (\<lambda>_.
     and_then flush_relay (\<lambda>broke.
       if broke then ret (True, l)
       else
         and_then (flush_udp (pl_udp l)) (\<lambda>_.
         and_then flush_channel (\<lambda>_.
         and_then (access (\<lambda>_. arm_receives l)) (\<lambda>(l1, spawned).
         and_then (emit spawned) (\<lambda>_.
         and_then (access (\<lambda>now s. (pump_exits now s, s))) (\<lambda>stop.
           if stop then ret (True, l1) else select_turn N l1)))))))"

subsection \<open>Teardown and the whole task\<close>

text \<open>Awaiting \<open>n\<close> pending receives.\<close>

primrec await_all :: "nat \<Rightarrow> ('n, 'c, unit) pump_task" where
  "await_all 0 = ret ()"
| "await_all (Suc n) = and_then (await (\<lambda>_. ())) (\<lambda>_. await_all n)"

definition teardown :: "pump_local \<Rightarrow> ('n, 'c, unit) pump_task" where
  "teardown l =
     and_then (access (\<lambda>_ s. (map snd (st_relay_pool s), s))) (\<lambda>relays.
     and_then (emit (map CloseRelay relays)) (\<lambda>_.
     and_then (if pl_udp l then and_then (emit [SelfWake]) (\<lambda>_. await (\<lambda>_. ())) else ret ()) (\<lambda>_.
     and_then (access (\<lambda>_ s. (map (\<lambda>(_, entry). ch_wire entry) (st_channels s), s))) (\<lambda>wires.
     and_then (emit (map CloseChannel wires)) (\<lambda>_.
     and_then (await_all (length (pl_relays l))) (\<lambda>_.
     and_then (if pl_udp l \<and> pl_udp_armed l then await (\<lambda>_. ()) else ret ()) (\<lambda>_.
     and_then (await_all (length (pl_channels l))) (\<lambda>_.
       await (\<lambda>_. ())))))))))"

lemma next_event_awaits:
  "next_event l w = (Done ev, w') \<Longrightarrow> length (w_script w') < length (w_script w)"
  by (induction l w rule: next_event.induct)
     (subst (asm) (2) next_event.simps, fastforce simp: Let_def split: list.splits if_splits prod.splits)

lemma consumes_drain_task [simp]: "consumes (drain_task N)"
  by (simp add: consumes_def drain_task_def split: option.split sum.split)

lemma flush_relay_script: "length (w_script (snd (flush_relay w))) \<le> length (w_script w)"
proof (induction w rule: flush_relay.induct)
  case (1 w)
  show ?case
    by (subst flush_relay.simps)
       (use 1 in \<open>fastforce simp: Let_def split: list.split option.split prod.split\<close>)
qed

lemma consumes_flush_relay [simp]: "consumes flush_relay"
  by (simp add: consumes_def flush_relay_script)

lemma flush_udp_script: "length (w_script (snd (flush_udp udp w))) \<le> length (w_script w)"
proof (induction udp w rule: flush_udp.induct)
  case (1 udp w)
  show ?case
    by (subst flush_udp.simps)
       (use 1 in \<open>fastforce simp: Let_def split: list.split option.split prod.split\<close>)
qed

lemma consumes_flush_udp [simp]: "consumes (flush_udp udp)"
  by (simp add: consumes_def flush_udp_script)

lemma flush_channel_script: "length (w_script (snd (flush_channel w))) \<le> length (w_script w)"
proof (induction w rule: flush_channel.induct)
  case (1 w)
  show ?case
    by (subst flush_channel.simps)
       (use 1 in \<open>fastforce simp: Let_def split: list.split option.split prod.split\<close>)
qed

lemma consumes_flush_channel [simp]: "consumes flush_channel"
  by (simp add: consumes_def flush_channel_script)

lemma select_turn_awaits:
  assumes "select_turn N l w = (Done r, w')"
  shows "length (w_script w') < length (w_script w)"
proof -
  let ?rest = "\<lambda>ev. and_then (access_or_panic (on_select N ev l)) (\<lambda>(broke, l', effects).
     and_then (emit effects) (\<lambda>_. ret (broke, l')))"
  obtain ev w1 where n: "next_event l w = (Done ev, w1)" and r: "?rest ev w1 = (Done r, w')"
    using assms unfolding select_turn_def and_then_Done [of "next_event l"] by blast
  have "consumes (?rest ev)" by (rule consumes_and_then) (auto split: prod.split)
  from consumesD [OF this r] next_event_awaits [OF n] show ?thesis by simp
qed

lemma pump_turn_awaits:
  assumes "pump_turn N l w = (Done (False, l'), w')"
  shows "length (w_script w') < length (w_script w)"
proof -
  obtain w1 w2 where a: "drain_task N w = (Done (), w1)" "flush_relay w1 = (Done False, w2)"
    and rest: "and_then (flush_udp (pl_udp l)) (\<lambda>_. and_then flush_channel (\<lambda>_.
         and_then (access (\<lambda>_. arm_receives l)) (\<lambda>(l1, spawned).
         and_then (emit spawned) (\<lambda>_.
         and_then (access (\<lambda>now s. (pump_exits now s, s))) (\<lambda>stop.
           if stop then ret (True, l1) else select_turn N l1))))) w2 = (Done (False, l'), w')"
    using assms unfolding pump_turn_def
    by (auto simp: and_then_Done [of "drain_task N"] and_then_Done [of flush_relay] ret_def split: if_splits)
  then obtain w3 w4 l1 spawned w5 where b: "flush_udp (pl_udp l) w2 = (Done (), w3)"
    "flush_channel w3 = (Done (), w4)"
    and "and_then (emit spawned) (\<lambda>_.
         and_then (access (\<lambda>now s. (pump_exits now s, s))) (\<lambda>stop.
           if stop then ret (True, l1) else select_turn N l1)) w5 = (Done (False, l'), w')"
    and w5: "w_script w5 = w_script w4"
    by (auto simp: and_then_Done [of "flush_udp _"] and_then_Done [of flush_channel]
        and_then_Done [of "access _"] access_def arm_receives_def)
  then have "\<exists>w6. w_script w6 = w_script w5 \<and> select_turn N l1 w6 = (Done (False, l'), w')"
    by (auto simp: and_then_def emit_def access_def ret_def split: if_splits
        intro!: exI [of _ "w5\<lparr>w_log := w_log w5 @ spawned\<rparr>"])
  then obtain w6 where "w_script w6 = w_script w5" "select_turn N l1 w6 = (Done (False, l'), w')" by blast
  from this(1) select_turn_awaits [OF this(2)] w5
    consumesD [OF consumes_drain_task a(1)] consumesD [OF consumes_flush_relay a(2)]
    consumesD [OF consumes_flush_udp b(1)] consumesD [OF consumes_flush_channel b(2)]
  show ?thesis by simp
qed

text \<open>A turn that does not break off has awaited the select, so the loop follows the script.\<close>

function pump :: "('n, 'c, 'i, 'ce, 'ee, 'z) noq_scheme \<Rightarrow> pump_local \<Rightarrow> ('n, 'c, unit) pump_task" where
  "pump N l w =
     (case pump_turn N l w of
        (Done (broke, l'), w') \<Rightarrow> if broke then teardown l' w' else pump N l' w'
      | (Waiting, w') \<Rightarrow> (Waiting, w')
      | (Panicked p, w') \<Rightarrow> (Panicked p, w')
      | (Diverged, w') \<Rightarrow> (Diverged, w'))"
  by pat_completeness auto
termination
  by (relation "measure (\<lambda>(N, l, w). length (w_script w))") (auto dest: pump_turn_awaits [OF sym])

declare pump.simps [simp del]

definition pump_start :: "bool \<Rightarrow> pump_local" where
  "pump_start udp = \<lparr>pl_udp = udp, pl_udp_armed = udp, pl_relays = [], pl_channels = []\<rparr>"

section \<open>Lemmas\<close>

subsection \<open>The pump is safe\<close>

lemma safe_drain_task:
  assumes "noq_finite_backlog N rank fed closing" and "noq_sizes N"
  shows "safe_task state_inv (drain_task N)"
proof (rule safe_taskI)
  fix w :: "(('a, 'b) state, pump_answer, pump_effect) world"
  assume inv: "state_inv (w_state w)" and env: "env_respects (\<lambda>s t. state_inv s \<longrightarrow> state_inv t) w"
  have "dom (st_routes (w_state w)) \<subseteq> dom (st_addr_to_peer (w_state w))"
    using inv by (simp add: state_inv_def book_ok_def)
  then obtain s' where s': "drain N (w_now w) (w_state w) = Some (Inr s')"
    unfolding drain_def using drain_handles_total [OF assms] by blast
  then have "state_inv s'" using drain_inv.inv_rtranclp [OF drain_steps inv] by blast
  with s' env show "(\<forall>p. fst (drain_task N w) \<noteq> Panicked p) \<and> fst (drain_task N w) \<noteq> Diverged
      \<and> state_inv (w_state (snd (drain_task N w)))
      \<and> env_respects (\<lambda>s t. state_inv s \<longrightarrow> state_inv t) (snd (drain_task N w))"
    by (simp add: drain_task_def)
qed

text \<open>
  The contract a relation on states has to meet so that the flushes guarantee it.
\<close>

locale flush_guarantee = rely_guarantee R
  for R :: "('n, 'c) state \<Rightarrow> ('n, 'c) state \<Rightarrow> bool" +
  assumes pop_relay: "R s (s\<lparr>st_relay_outbound := rq\<rparr>)"
    and pop_udp: "R s (s\<lparr>st_udp_outbound := uq\<rparr>)"
    and pop_channel: "R s (s\<lparr>st_channel_outbound := cq\<rparr>)"
    and dying: "R s (mark_dead reason s)"
begin

lemma respects_step:
  fixes v w :: "(('n, 'c) state, pump_answer, pump_effect) world"
  assumes "env_respects R w" and "w_script w = (r, dt, others) # rest"
  shows "R s (others s)" and "w_script v = rest \<Longrightarrow> env_respects R v"
  using assms by (auto simp: env_respects_def)

lemma flush_relay_guarantees: "guarantees R (flush_relay :: ('n, 'c, bool) pump_task)"
proof (rule guaranteesI)
  fix w :: "(('n, 'c) state, pump_answer, pump_effect) world"
  assume "env_respects R w"
  then show "R (w_state w) (w_state (snd (flush_relay w))) \<and> env_respects R (snd (flush_relay w))"
  proof (induction w rule: flush_relay.induct)
    case (1 w)
    show ?case
    proof (cases "st_relay_outbound (w_state w)")
      case Nil
      with "1.prems" show ?thesis by (subst (1 2) flush_relay.simps) (simp add: rely_refl)
    next
      case (Cons item rest)
      obtain key p d where item: "item = (key, p, d)" by (metis prod_cases3)
      let ?s = "(w_state w)\<lparr>st_relay_outbound := rest\<rparr>"
      note R1 = pop_relay [of "w_state w" rest]
      show ?thesis
      proof (cases "map_of (st_relay_pool ?s) key")
        case None
        then have eq: "flush_relay w = flush_relay (w\<lparr>w_state := ?s\<rparr>)"
          using Cons item by (subst flush_relay.simps) simp
        from "1.IH"(1) [OF Cons item [symmetric] refl refl None] "1.prems" show ?thesis
          unfolding eq by (auto intro: rely_trans [OF R1])
      next
        case (Some conn)
        show ?thesis
        proof (cases "w_script w")
          case Nil
          with Cons item Some R1 "1.prems" show ?thesis by (subst (1 2) flush_relay.simps) simp
        next
          case sc: (Cons x script)
          obtain r dt others where x: "x = (r, dt, others)" by (metis prod_cases3)
          note step = respects_step [OF "1.prems" sc [unfolded x]]
          have R2: "R (w_state w) (others ?s)" using R1 step(1) by (rule rely_trans)
          let ?w = "w\<lparr>w_now := w_now w + dt, w_state := others ?s, w_script := script,
                     w_log := w_log w @ [SendRelay conn p d]\<rparr>"
          show ?thesis
          proof (cases "pa_send r \<noteq> Inr () \<and> key = HOME_RELAY")
            case True
            then have "flush_relay w
                = (Done True, ?w\<lparr>w_state := mark_dead ''relay send failed'' (others ?s)\<rparr>)"
              using Cons item Some sc x by (subst flush_relay.simps) simp
            with step(2) rely_trans [OF R2 dying] show ?thesis by simp
          next
            case False
            then have "flush_relay w = flush_relay ?w"
              using Cons item Some sc x by (subst flush_relay.simps) (auto simp: Let_def)
            with "1.IH"(2) [OF Cons item [symmetric] refl refl Some sc x [symmetric] refl refl False] step(2)
            show ?thesis by (auto intro: rely_trans [OF R2])
          qed
        qed
      qed
    qed
  qed
qed

lemma flush_udp_guarantees: "guarantees R (flush_udp udp :: ('n, 'c, unit) pump_task)"
proof (rule guaranteesI)
  fix w :: "(('n, 'c) state, pump_answer, pump_effect) world"
  assume "env_respects R w"
  then show "R (w_state w) (w_state (snd (flush_udp udp w))) \<and> env_respects R (snd (flush_udp udp w))"
  proof (induction udp w rule: flush_udp.induct)
    case (1 udp w)
    show ?case
    proof (cases "st_udp_outbound (w_state w)")
      case Nil
      with "1.prems" show ?thesis by (subst (1 2) flush_udp.simps) (simp add: rely_refl)
    next
      case (Cons item rest)
      obtain a d where item: "item = (a, d)" by force
      let ?s = "(w_state w)\<lparr>st_udp_outbound := rest\<rparr>"
      note R1 = pop_udp [of "w_state w" rest]
      note IH1 = "1.IH"(1) [OF Cons item [symmetric] refl]
      note IH2 = "1.IH"(2) [OF Cons item [symmetric] refl]
      show ?thesis
      proof (cases "udp \<and> w_script w \<noteq> []")
        case True
        then obtain r dt others script where sc: "w_script w = (r, dt, others) # script"
          by (cases "w_script w") auto
        note step = respects_step [OF "1.prems" sc]
        from True IH2 [OF _ sc refl refl] Cons item sc step(2) rely_trans [OF R1 step(1)] show ?thesis
          by (subst (1 2) flush_udp.simps) (auto intro: rely_trans)
      next
        case False
        with IH1 Cons item R1 "1.prems" show ?thesis
          by (subst (1 2) flush_udp.simps) (cases "w_script w"; auto simp: Let_def intro: rely_trans)
      qed
    qed
  qed
qed

lemma flush_channel_guarantees: "guarantees R (flush_channel :: ('n, 'c, unit) pump_task)"
proof (rule guaranteesI)
  fix w :: "(('n, 'c) state, pump_answer, pump_effect) world"
  assume "env_respects R w"
  then show "R (w_state w) (w_state (snd (flush_channel w))) \<and> env_respects R (snd (flush_channel w))"
  proof (induction w rule: flush_channel.induct)
    case (1 w)
    show ?case
    proof (cases "st_channel_outbound (w_state w)")
      case Nil
      with "1.prems" show ?thesis by (subst (1 2) flush_channel.simps) (simp add: rely_refl)
    next
      case (Cons item rest)
      obtain cid d where item: "item = (cid, d)" by force
      let ?s = "(w_state w)\<lparr>st_channel_outbound := rest\<rparr>"
      note R1 = pop_channel [of "w_state w" rest]
      show ?thesis
      proof (cases "map_of (st_channels ?s) cid")
        case None
        with "1.IH"(1) [OF Cons item [symmetric] refl None] Cons item R1 "1.prems" show ?thesis
          by (subst (1 2) flush_channel.simps) (auto intro: rely_trans)
      next
        case (Some entry)
        show ?thesis
        proof (cases "w_script w")
          case Nil
          with Cons item Some R1 "1.prems" show ?thesis by (subst (1 2) flush_channel.simps) simp
        next
          case sc: (Cons x script)
          obtain r dt others where x: "x = (r, dt, others)" by (metis prod_cases3)
          note step = respects_step [OF "1.prems" sc [unfolded x]]
          from "1.IH"(2) [OF Cons item [symmetric] refl Some sc x [symmetric] refl] Cons item Some sc x
            step(2) rely_trans [OF R1 step(1)]
          show ?thesis by (subst (1 2) flush_channel.simps) (auto intro: rely_trans)
        qed
      qed
    qed
  qed
qed

lemma next_event_guarantees: "guarantees R (next_event l :: ('n, 'c, select_event) pump_task)"
proof (rule guaranteesI)
  fix w :: "(('n, 'c) state, pump_answer, pump_effect) world"
  assume "env_respects R w"
  then show "R (w_state w) (w_state (snd (next_event l w))) \<and> env_respects R (snd (next_event l w))"
  proof (induction l w rule: next_event.induct)
    case (1 l w)
    show ?case
    proof (cases "w_script w")
      case Nil
      with "1.prems" show ?thesis by (subst (1 2) next_event.simps) (simp add: rely_refl)
    next
      case (Cons x script)
      obtain r dt others where x: "x = (r, dt, others)" by (metis prod_cases3)
      note step = respects_step [OF "1.prems" Cons [unfolded x]]
      from "1.IH" [OF Cons x [symmetric] refl refl] Cons x step show ?thesis
        by (subst (1 2) next_event.simps) (auto simp: Let_def intro: rely_trans)
    qed
  qed
qed

end

text \<open>A task that never panics nor diverges, whatever the state.\<close>

definition calm :: "('s, 'r, 'e, 'a) task \<Rightarrow> bool" where
  "calm t \<longleftrightarrow> (\<forall>w. (\<forall>p. fst (t w) \<noteq> Panicked p) \<and> fst (t w) \<noteq> Diverged)"

lemma calm_safe: "calm t \<Longrightarrow> guarantees (\<lambda>s t. I s \<longrightarrow> I t) t \<Longrightarrow> safe_task I t"
  by (simp add: calm_def guarantees_def safe_task_def)

lemma calm_flush_relay: "calm flush_relay"
proof -
  have "(\<forall>p. fst (flush_relay w) \<noteq> Panicked p) \<and> fst (flush_relay w) \<noteq> Diverged" for w :: "(('n, 'c) state, pump_answer, pump_effect) world"
  proof (induction w rule: flush_relay.induct)
    case (1 w)
    then show ?case
      by (subst (1 2) flush_relay.simps) (auto simp: Let_def split: list.split option.split)
  qed
  then show ?thesis unfolding calm_def by blast
qed

lemma calm_flush_udp: "calm (flush_udp udp)"
proof -
  have "(\<forall>p. fst (flush_udp udp w) \<noteq> Panicked p) \<and> fst (flush_udp udp w) \<noteq> Diverged" for w :: "(('n, 'c) state, pump_answer, pump_effect) world"
  proof (induction udp w rule: flush_udp.induct)
    case (1 udp w)
    then show ?case
      by (subst (1 2) flush_udp.simps) (auto simp: Let_def split: list.split option.split)
  qed
  then show ?thesis unfolding calm_def by blast
qed

lemma calm_flush_channel: "calm flush_channel"
proof -
  have "(\<forall>p. fst (flush_channel w) \<noteq> Panicked p) \<and> fst (flush_channel w) \<noteq> Diverged" for w :: "(('n, 'c) state, pump_answer, pump_effect) world"
  proof (induction w rule: flush_channel.induct)
    case (1 w)
    then show ?case
      by (subst (1 2) flush_channel.simps) (auto simp: Let_def split: list.split option.split)
  qed
  then show ?thesis unfolding calm_def by blast
qed

lemma calm_next_event: "calm (next_event l)"
proof -
  have "(\<forall>p. fst (next_event l w) \<noteq> Panicked p) \<and> fst (next_event l w) \<noteq> Diverged" for w :: "(('n, 'c) state, pump_answer, pump_effect) world"
  proof (induction l w rule: next_event.induct)
    case (1 l w)
    then show ?case
      by (subst (1 2) next_event.simps) (auto simp: Let_def split: list.split)
  qed
  then show ?thesis unfolding calm_def by blast
qed

interpretation inv_flush: flush_guarantee "\<lambda>s t. state_inv s \<longrightarrow> state_inv t"
  by unfold_locales (auto intro: state_inv_mark_dead)

lemmas safe_flush_relay = calm_safe [OF calm_flush_relay inv_flush.flush_relay_guarantees]
lemmas safe_flush_udp = calm_safe [OF calm_flush_udp inv_flush.flush_udp_guarantees]
lemmas safe_flush_channel = calm_safe [OF calm_flush_channel inv_flush.flush_channel_guarantees]
lemmas safe_next_event = calm_safe [OF calm_next_event inv_flush.next_event_guarantees]

lemma state_inv_drop_relay:
  "state_inv s \<Longrightarrow> key \<noteq> HOME_RELAY \<Longrightarrow>
     state_inv (s\<lparr>st_relay_pool := AList.delete key (st_relay_pool s)\<rparr>)"
  by (auto simp: inv_defs delete_conv')

lemma on_select_sound:
  assumes sizes: "noq_sizes N" and inv: "state_inv s"
  shows "\<exists>x s'. on_select N ev l now s = Inr (x, s') \<and> state_inv s'"
proof -
  have dgram: "\<exists>x s'. map_sum id (\<lambda>s'. (y, s')) r = Inr (x, s') \<and> state_inv s'"
    if "\<exists>s'. r = Inr s' \<and> state_inv s'" for y :: "bool \<times> pump_local \<times> pump_effect list" and r :: "panic + ('a, 'b) state"
    using that by (elim exE conjE) (intro exI [of _ y], simp)
  have relay: "\<exists>s'. handle_relay_datagram N now key src d s = Inr s' \<and> state_inv s'" for key src d
  proof -
    obtain a s1 where "addr_for_peer src key s = (a, s1)" by force
    then obtain s' where "handle_relay_datagram N now key src d s = Inr s'"
      using handle_datagram_total [OF sizes, of now a "Some src" d s1] by (auto simp: handle_relay_datagram_def)
    with state_inv_handle_relay_datagram [OF inv] show ?thesis by blast
  qed
  have udp: "\<exists>s'. handle_udp_datagram N now a d s = Inr s' \<and> state_inv s'" for a d
    using handle_datagram_total [OF sizes] state_inv_handle_udp_datagram [OF inv]
    unfolding handle_udp_datagram_def by blast
  have channel: "\<exists>s'. handle_channel_datagram N now cid d s = Inr s' \<and> state_inv s'" for cid d
  proof (cases "map_of (st_channels s) cid")
    case None
    with inv show ?thesis by (simp add: handle_channel_datagram_def)
  next
    case (Some e)
    obtain a s1 where "addr_for_peer (ch_peer e) (ch_fallback_relay e) s = (a, s1)" by force
    then obtain s' where "handle_channel_datagram N now cid d s = Inr s'"
      using handle_datagram_total [OF sizes, of now a "Some (ch_peer e)" d s1] Some
      by (auto simp: handle_channel_datagram_def)
    with state_inv_handle_channel_datagram [OF inv] show ?thesis by blast
  qed
  show ?thesis
  proof (cases ev)
    case (RelayReady i r)
    show ?thesis
    proof (cases r)
      case (Inl e)
      with RelayReady inv show ?thesis
        using state_inv_mark_dead [OF inv] state_inv_drop_relay [OF inv]
        by (auto simp: on_select_def on_relay_ready_def Let_def)
    next
      case (Inr d)
      with RelayReady show ?thesis
        using dgram [OF relay] state_inv_handle_signal [OF inv]
        by (simp add: on_select_def on_relay_ready_def Let_def split: list.split prod.split) (metis snd_conv)
    qed
  next
    case (UdpReady r)
    then show ?thesis
      using dgram [OF udp] inv by (cases r) (auto simp: on_select_def on_udp_ready_def split: prod.split)
  next
    case (ChannelReady i r)
    then show ?thesis
      using dgram [OF channel] inv state_inv_retire_channel [OF inv]
      by (cases r) (auto simp: on_select_def on_channel_ready_def Let_def split: option.split)
  next
    case TickReady
    then show ?thesis using inv by (auto simp: on_select_def state_inv_handle_timeouts)
  qed
qed

lemma state_inv_no_upgrades: "state_inv s \<Longrightarrow> state_inv (s\<lparr>st_pending_upgrades := []\<rparr>)"
  by (simp add: inv_defs)

lemma state_inv_arm: "state_inv s \<Longrightarrow> arm_receives l s = (r, s') \<Longrightarrow> state_inv s'"
  by (auto simp: arm_receives_def state_inv_no_upgrades)

lemma safe_pump_turn:
  assumes "noq_finite_backlog N rank fed closing" and "noq_sizes N"
  shows "safe_task state_inv (pump_turn N l)"
proof -
  have sel: "safe_task state_inv (select_turn N l)" for l
    unfolding select_turn_def
    by (intro safe_and_then safe_next_event safe_access_or_panic on_select_sound [OF assms(2)])
       (auto intro: safe_and_then split: prod.split)
  show ?thesis
    unfolding pump_turn_def
    by (auto intro!: safe_and_then safe_drain_task [OF assms] safe_flush_relay safe_flush_udp
        safe_flush_channel safe_access sel safe_ret safe_emit intro: state_inv_arm split: prod.splits)
qed

lemma safe_await_all: "safe_task I (await_all n)"
  by (induction n) (auto intro: safe_and_then)

lemma safe_teardown: "safe_task I (teardown l)"
  unfolding teardown_def by (auto intro!: safe_and_then safe_access safe_await_all)

lemma safe_pump:
  assumes "noq_finite_backlog N rank fed closing" and "noq_sizes N"
  shows "safe_task state_inv (pump N l)"
proof (rule safe_taskI)
  fix w :: "(('a, 'b) state, pump_answer, pump_effect) world"
  assume "state_inv (w_state w)" and "env_respects (\<lambda>s t. state_inv s \<longrightarrow> state_inv t) w"
  with assms show "(\<forall>p. fst (pump N l w) \<noteq> Panicked p) \<and> fst (pump N l w) \<noteq> Diverged
      \<and> state_inv (w_state (snd (pump N l w)))
      \<and> env_respects (\<lambda>s t. state_inv s \<longrightarrow> state_inv t) (snd (pump N l w))"
  proof (induction N l w rule: pump.induct)
    case (1 N l w)
    obtain r w1 where turn: "pump_turn N l w = (r, w1)" by force
    note safe = safe_taskD [OF safe_pump_turn [OF "1.prems"(1,2)] "1.prems"(3,4) turn]
    show ?case
    proof (cases r)
      case (Done x)
      obtain broke l' where x: "x = (broke, l')" by force
      show ?thesis
      proof (cases broke)
        case True
        obtain r2 w2 where "teardown l' w1 = (r2, w2)" by force
        with safe_taskD [OF safe_teardown safe(3,4) this] True Done turn x show ?thesis
          by (subst (1 2 3 4) pump.simps) simp
      next
        case False
        with "1.IH" [OF turn [symmetric] Done x [symmetric] False "1.prems"(1,2)] safe Done turn x show ?thesis
          by (subst (1 2 3 4) pump.simps) simp
      qed
    qed (use safe turn in \<open>subst (1 2 3 4) pump.simps, simp\<close>)+
  qed
qed

text \<open>C11. The pump is safe: from a sound state, with other tasks that keep it sound, and for
  every behaviour of the wires and the clock, it never panics and never loops, and the state
  is sound whenever it waits and when it ends.\<close>

theorem pump_safe:
  assumes "noq_finite_backlog N rank fed closing" and "noq_sizes N"
    and "state_inv (w_state w)" and "env_respects (\<lambda>s t. state_inv s \<longrightarrow> state_inv t) w"
    and "pump N l w = (outcome, w')"
  shows "outcome \<in> {Waiting, Done ()} \<and> state_inv (w_state w')"
  using safe_taskD [OF safe_pump [OF assms(1,2)] assms(3,4,5)] by (cases outcome) auto

subsection \<open>Deaths of relays\<close>

lemma mark_dead_errors:
  "(h, e) \<in> set (st_conns (mark_dead reason s)) \<Longrightarrow> ce_error e \<noteq> None"
  by (auto simp: mark_dead_def map_entries_def split: if_splits)

text \<open>C15. A failed receive on the home relay marks the endpoint dead with that reason, puts an
  error on every connection and stops the pump; a failed receive on a foreign relay only takes
  that relay out of the pool and the pump goes on.\<close>

theorem relay_death_scope:
  assumes "i < length (pl_relays l)" and "key = fst (pl_relays l ! i)"
  shows "\<exists>broke l' s'. on_select N (RelayReady i (Inl err)) l now s = Inr ((broke, l', []), s')
     \<and> (if key = HOME_RELAY
        then broke \<and> st_dead s' = Some err \<and> (\<forall>(h, e)\<in>set (st_conns s'). ce_error e \<noteq> None)
        else \<not> broke \<and> map_of (st_relay_pool s') = (map_of (st_relay_pool s))(key := None)
             \<and> s' = s\<lparr>st_relay_pool := st_relay_pool s'\<rparr>)"
  using assms mark_dead_errors [of _ _ err s]
  by (auto simp: on_select_def on_relay_ready_def Let_def delete_conv' mark_dead_def map_entries_def)

subsection \<open>No wire goes deaf\<close>

text \<open>Every relay of the pool and every channel has a receive in flight or about to be armed.\<close>

definition listening :: "pump_local \<Rightarrow> ('n, 'c) state \<Rightarrow> bool" where
  "listening l s \<longleftrightarrow>
     fst ` set (st_relay_pool s) \<subseteq> fst ` set (pl_relays l) \<union> fst ` set (st_new_relays s)
     \<and> fst ` set (st_channels s) \<subseteq> fst ` set (pl_channels l) \<union> fst ` set (st_new_channels s)"

definition wires_kept :: "('n, 'c) state \<Rightarrow> ('n, 'c) state \<Rightarrow> bool" where
  "wires_kept s t \<longleftrightarrow> (\<forall>l. listening l s \<longrightarrow> listening l t)"

definition same_wires :: "('n, 'c) state \<Rightarrow> ('n, 'c) state \<Rightarrow> bool" where
  "same_wires s t \<longleftrightarrow>
     st_relay_pool t = st_relay_pool s \<and> st_new_relays t = st_new_relays s
     \<and> st_channels t = st_channels s \<and> st_new_channels t = st_new_channels s"

lemma same_wires_listening: "same_wires s t \<Longrightarrow> listening l t = listening l s"
  by (simp add: same_wires_def listening_def)

lemma same_wires_kept: "same_wires s t \<Longrightarrow> wires_kept s t"
  by (simp add: wires_kept_def same_wires_listening)

interpretation deaf: flush_guarantee wires_kept
  by unfold_locales
     (auto simp: wires_kept_def listening_def mark_dead_def map_entries_def)

interpretation same_wires_step: latched "conn_step N now" "same_wires s0" for N now s0
proof
  fix s t
  assume s: "same_wires s0 s" and "conn_step N now s t"
  from this(2) show "same_wires s0 t"
  proof (cases rule: conn_step_cases)
    case (transmits h e tx buf c s')
    with s show ?thesis
      by (auto simp: same_wires_def put_entry_def route_transmit_def
          split: sum.splits option.splits route_wire.splits)
  qed (use s in \<open>simp_all add: same_wires_def put_entry_def\<close>)
qed

lemma drain_task_wires: "guarantees wires_kept (drain_task N)"
proof (rule guaranteesI)
  fix w :: "(('a, 'b) state, pump_answer, pump_effect) world"
  assume env: "env_respects wires_kept w"
  have "same_wires (w_state w) s'" if "drain N (w_now w) (w_state w) = Some (Inr s')" for s'
    by (rule same_wires_step.latch_forever [OF drain_steps [OF that]]) (simp add: same_wires_def)
  with env show "wires_kept (w_state w) (w_state (snd (drain_task N w))) \<and> env_respects wires_kept (snd (drain_task N w))"
    by (auto simp: drain_task_def same_wires_kept deaf.rely_refl split: option.split sum.split)
qed

lemma addr_for_peer_wires: "addr_for_peer p via s = (a, s') \<Longrightarrow> same_wires s s'"
  by (cases rule: addr_for_peer_cases) (auto simp: same_wires_def)

lemma same_wires_trans: "same_wires s t \<Longrightarrow> same_wires t u \<Longrightarrow> same_wires s u"
  by (simp add: same_wires_def)

lemma handle_datagram_wires: "handle_datagram N now a src d s = Inr s' \<Longrightarrow> same_wires s s'"
  by (auto simp: handle_datagram_def respond_def push_response_def same_wires_def Let_def
      split: prod.splits option.splits datagram_event.splits sum.splits if_splits route_wire.splits)

lemma handle_relay_datagram_wires: "handle_relay_datagram N now via src d s = Inr s' \<Longrightarrow> same_wires s s'"
  by (auto simp: handle_relay_datagram_def split: prod.splits
      intro: same_wires_trans dest: addr_for_peer_wires handle_datagram_wires)

lemma handle_channel_datagram_wires: "handle_channel_datagram N now cid d s = Inr s' \<Longrightarrow> same_wires s s'"
  by (auto simp: handle_channel_datagram_def split: prod.splits option.splits
      intro: same_wires_trans dest: addr_for_peer_wires handle_datagram_wires)
     (simp add: same_wires_def)

lemma handle_signal_wires: "same_wires s (snd (handle_signal via src m s))"
  by (simp add: handle_signal_def same_wires_def Let_def)

lemma handle_timeouts_wires: "same_wires s (handle_timeouts N now s)"
  by (simp add: handle_timeouts_def map_entries_def same_wires_def)

lemma keys_remove_nth:
  assumes "i < length xs"
  shows "fst ` set xs = insert (fst (xs ! i)) (fst ` set (remove_nth i xs))"
proof -
  have "set xs = set (take i xs @ xs ! i # drop (Suc i) xs)"
    using id_take_nth_drop [OF assms] by simp
  then show ?thesis by (auto simp: remove_nth_def)
qed

lemma drop_key: "A \<subseteq> insert k K \<union> B \<Longrightarrow> k \<notin> A \<Longrightarrow> A \<subseteq> K \<union> B"
  by blast

lemma drop_minus: "A \<subseteq> insert k K \<union> B \<Longrightarrow> A - {k} \<subseteq> K \<union> B"
  by blast

lemma keys_delete: "fst ` set (AList.delete k xs) = fst ` set xs - {k}"
  by (auto simp: AList.delete_eq)

lemma rearm_keys:
  assumes "fst ` set pool \<subseteq> fst ` set armed \<union> B" and "i < length armed" and "k = fst (armed ! i)"
  shows "fst ` set pool \<subseteq>
     fst ` set (case map_of pool k of Some c \<Rightarrow> remove_nth i armed @ [(k, f c)] | None \<Rightarrow> remove_nth i armed) \<union> B"
proof (cases "map_of pool k")
  case None
  then have "k \<notin> fst ` set pool" by (simp add: map_of_eq_None_iff)
  with drop_key assms(1) keys_remove_nth [OF assms(2)] assms(3) None show ?thesis by simp
next
  case (Some c)
  with assms(1) keys_remove_nth [OF assms(2)] assms(3) show ?thesis by simp
qed

lemma rearm_listening:
  "listening l s \<Longrightarrow> i < length (pl_relays l) \<Longrightarrow> key = fst (pl_relays l ! i) \<Longrightarrow>
   listening (l\<lparr>pl_relays := (case map_of (st_relay_pool s) key of
       Some conn \<Rightarrow> remove_nth i (pl_relays l) @ [(key, conn)] | None \<Rightarrow> remove_nth i (pl_relays l))\<rparr>) s"
  using rearm_keys [of "st_relay_pool s" "pl_relays l" _ i key "\<lambda>c. c"] by (simp add: listening_def)

lemma rearm_channel_listening:
  "listening l s \<Longrightarrow> i < length (pl_channels l) \<Longrightarrow> cid = fst (pl_channels l ! i) \<Longrightarrow>
   listening (l\<lparr>pl_channels := (case map_of (st_channels s) cid of
       Some entry \<Rightarrow> remove_nth i (pl_channels l) @ [(cid, ch_wire entry)]
     | None \<Rightarrow> remove_nth i (pl_channels l))\<rparr>) s"
  using rearm_keys [of "st_channels s" "pl_channels l" _ i cid ch_wire] by (simp add: listening_def)

lemma drop_relay_listening:
  assumes "listening l s" and "i < length (pl_relays l)" and "key = fst (pl_relays l ! i)"
  shows "listening (l\<lparr>pl_relays := remove_nth i (pl_relays l)\<rparr>)
           (s\<lparr>st_relay_pool := AList.delete key (st_relay_pool s)\<rparr>)"
proof -
  have "fst ` set (st_relay_pool s) - {key}
      \<subseteq> fst ` set (remove_nth i (pl_relays l)) \<union> fst ` set (st_new_relays s)"
    by (rule drop_minus)
       (use assms(1) in \<open>simp only: listening_def keys_remove_nth [OF assms(2)] assms(3) conj_imp_eq_imp_imp\<close>)
  with assms(1) show ?thesis by (simp add: listening_def keys_delete)
qed

lemma retire_channel_wires:
  "st_relay_pool (retire_channel cid s) = st_relay_pool s \<and> st_new_relays (retire_channel cid s) = st_new_relays s
   \<and> st_new_channels (retire_channel cid s) = st_new_channels s
   \<and> fst ` set (st_channels (retire_channel cid s)) = fst ` set (st_channels s) - {cid}"
proof (cases "map_of (st_channels s) cid")
  case None
  then have "cid \<notin> fst ` set (st_channels s)" by (simp add: map_of_eq_None_iff)
  with None show ?thesis by (simp add: retire_channel_def)
next
  case (Some e)
  then show ?thesis
    by (simp add: retire_channel_def Let_def keys_delete split: option.split)
qed

lemma retire_listening:
  assumes "listening l s" and "i < length (pl_channels l)" and "cid = fst (pl_channels l ! i)"
  shows "listening (l\<lparr>pl_channels := remove_nth i (pl_channels l)\<rparr>) (retire_channel cid s)"
proof -
  have "fst ` set (st_channels s) - {cid}
      \<subseteq> fst ` set (remove_nth i (pl_channels l)) \<union> fst ` set (st_new_channels s)"
    by (rule drop_minus)
       (use assms(1) in \<open>simp only: listening_def keys_remove_nth [OF assms(2)] assms(3) conj_imp_eq_imp_imp\<close>)
  with assms(1) retire_channel_wires [of cid s] show ?thesis by (simp add: listening_def)
qed

lemma on_select_listening:
  assumes "listening l s" and "is_armed l ev" and run: "on_select N ev l now s = Inr ((False, l', effs), s')"
  shows "listening l' s'"
proof (cases ev)
  case (RelayReady i r)
  let ?key = "fst (pl_relays l ! i)"
  have i: "i < length (pl_relays l)" using assms(2) RelayReady by (simp add: is_armed_def)
  show ?thesis
  proof (cases r)
    case (Inl e)
    with RelayReady run drop_relay_listening [OF assms(1) i refl] show ?thesis
      by (auto simp: on_select_def on_relay_ready_def Let_def split: if_splits)
  next
    case (Inr d)
    let ?l = "l\<lparr>pl_relays := (case map_of (st_relay_pool s) ?key of
        Some conn \<Rightarrow> remove_nth i (pl_relays l) @ [(?key, conn)] | None \<Rightarrow> remove_nth i (pl_relays l))\<rparr>"
    have "l' = ?l \<and> same_wires s s'"
    proof (cases "handle_signal ?key (source d) (tl (payload d)) s")
      case (Pair spawned s2)
      with RelayReady Inr run handle_signal_wires [of s ?key "source d" "tl (payload d)"] show ?thesis
        by (auto simp: on_select_def on_relay_ready_def Let_def map_sum_def
            split: list.splits if_splits sum.splits dest: handle_relay_datagram_wires)
    qed
    with rearm_listening [OF assms(1) i refl] same_wires_listening [of s s'] show ?thesis by simp
  qed
next
  case (UdpReady r)
  with run assms(1) show ?thesis
    by (auto simp: on_select_def on_udp_ready_def handle_udp_datagram_def map_sum_def same_wires_listening
        split: sum.splits prod.splits dest!: handle_datagram_wires)
       (simp add: listening_def)
next
  case (ChannelReady i r)
  have i: "i < length (pl_channels l)" using assms(2) ChannelReady by (simp add: is_armed_def)
  show ?thesis
  proof (cases r)
    case (Inl e)
    with ChannelReady run retire_listening [OF assms(1) i refl] show ?thesis
      by (auto simp: on_select_def on_channel_ready_def Let_def)
  next
    case (Inr m)
    with ChannelReady run rearm_channel_listening [OF assms(1) i refl] show ?thesis
      by (auto simp: on_select_def on_channel_ready_def Let_def map_sum_def same_wires_listening
          split: option.splits sum.splits dest!: handle_channel_datagram_wires)
  qed
next
  case TickReady
  with run assms(1) show ?thesis
    using same_wires_listening [OF handle_timeouts_wires] by (auto simp: on_select_def)
qed

lemma arm_listening: "listening l s \<Longrightarrow> arm_receives l s = ((l', effs), s') \<Longrightarrow> listening l' s'"
  unfolding listening_def arm_receives_def by (clarsimp simp: image_Un)

lemma next_event_armed: "next_event l w = (Done ev, w') \<Longrightarrow> is_armed l ev"
  by (induction l w rule: next_event.induct)
     (subst (asm) (2) next_event.simps, fastforce simp: Let_def split: list.splits if_splits prod.splits)

lemma guarantees_run:
  assumes "guarantees R t" and "env_respects R w" and "t w = (r, w')"
  shows "R (w_state w) (w_state w')" and "env_respects R w'"
  using assms unfolding guarantees_def by (metis snd_conv)+

lemma select_turn_listening:
  assumes "select_turn N l w = (Done (False, l'), w')" and "listening l (w_state w)"
    and "env_respects wires_kept w"
  shows "listening l' (w_state w')"
proof -
  obtain ev w1 where n: "next_event l w = (Done ev, w1)"
    and r: "and_then (access_or_panic (on_select N ev l)) (\<lambda>(broke, l', effects).
     and_then (emit effects) (\<lambda>_. ret (broke, l'))) w1 = (Done (False, l'), w')"
    using assms(1) unfolding select_turn_def and_then_Done [of "next_event l"] by blast
  have "wires_kept (w_state w) (w_state w1)"
    using guarantees_run(1) [OF deaf.next_event_guarantees assms(3) n] .
  then have l1: "listening l (w_state w1)" using assms(2) by (simp add: wires_kept_def)
  obtain effs s' where sel: "on_select N ev l (w_now w1) (w_state w1) = Inr ((False, l', effs), s')"
    and "w_state w' = s'"
    using r by (auto simp: and_then_def access_or_panic_def emit_def ret_def split: sum.splits prod.splits)
  with on_select_listening [OF l1 next_event_armed [OF n] sel] show ?thesis by simp
qed

text \<open>C14. No wire goes deaf while the pump runs: after every turn that goes on, each relay of the
  pool and each channel still has a receive in flight or waiting to be armed, if that was so
  before and the other tasks enlist what they add.\<close>

theorem pump_keeps_listening:
  assumes "pump_turn N l w = (Done (False, l'), w')" and "listening l (w_state w)"
    and "env_respects wires_kept w"
  shows "listening l' (w_state w')"
proof -
  obtain w1 w2 where a: "drain_task N w = (Done (), w1)" "flush_relay w1 = (Done False, w2)"
    and rest: "and_then (flush_udp (pl_udp l)) (\<lambda>_. and_then flush_channel (\<lambda>_.
         and_then (access (\<lambda>_. arm_receives l)) (\<lambda>(l1, spawned).
         and_then (emit spawned) (\<lambda>_.
         and_then (access (\<lambda>now s. (pump_exits now s, s))) (\<lambda>stop.
           if stop then ret (True, l1) else select_turn N l1))))) w2 = (Done (False, l'), w')"
    using assms(1) unfolding pump_turn_def
    by (auto simp: and_then_Done [of "drain_task N"] and_then_Done [of flush_relay] ret_def split: if_splits)
  then obtain w3 w4 where b: "flush_udp (pl_udp l) w2 = (Done (), w3)" "flush_channel w3 = (Done (), w4)"
    and rest2: "and_then (access (\<lambda>_. arm_receives l)) (\<lambda>(l1, spawned).
         and_then (emit spawned) (\<lambda>_.
         and_then (access (\<lambda>now s. (pump_exits now s, s))) (\<lambda>stop.
           if stop then ret (True, l1) else select_turn N l1))) w4 = (Done (False, l'), w')"
    by (auto simp: and_then_Done [of "flush_udp _"] and_then_Done [of flush_channel])
  note g1 = guarantees_run [OF drain_task_wires assms(3) a(1)]
  note g2 = guarantees_run [OF deaf.flush_relay_guarantees g1(2) a(2)]
  note g3 = guarantees_run [OF deaf.flush_udp_guarantees g2(2) b(1)]
  note g4 = guarantees_run [OF deaf.flush_channel_guarantees g3(2) b(2)]
  have l4: "listening l (w_state w4)"
    using g1(1) g2(1) g3(1) g4(1) assms(2) by (simp add: wires_kept_def)
  obtain l1 spawned s5 where arm: "arm_receives l (w_state w4) = ((l1, spawned), s5)" by (metis prod.exhaust)
  let ?w5 = "w4\<lparr>w_state := s5, w_log := w_log w4 @ spawned\<rparr>"
  have "select_turn N l1 ?w5 = (Done (False, l'), w')"
    using rest2 arm by (auto simp: and_then_def access_def emit_def ret_def split: if_splits)
  then show ?thesis
    by (rule select_turn_listening) (use arm_listening [OF l4 arm] g4(2) in simp_all)
qed

subsection \<open>Teardown\<close>

lemma await_Done:
  "await sel w = (Done x, w') \<Longrightarrow> length (w_script w) = Suc (length (w_script w')) \<and> w_log w' = w_log w"
  by (auto simp: await_def split: list.splits)

lemma await_all_Done:
  "await_all n w = (Done (), w') \<Longrightarrow>
     length (w_script w) = n + length (w_script w') \<and> w_log w' = w_log w"
proof (induction n arbitrary: w)
  case (Suc n)
  then obtain w1 where "await (\<lambda>_. ()) w = (Done (), w1)" "await_all n w1 = (Done (), w')"
    by (auto simp: and_then_Done)
  with Suc.IH await_Done show ?case by fastforce
qed (simp add: ret_def)

text \<open>The shared state once the next answer of the script came, with what the other tasks did meanwhile.\<close>

definition after_next :: "('s, 'r, 'e) world \<Rightarrow> 's" where
  "after_next w = (case w_script w of [] \<Rightarrow> w_state w | (_, _, others) # _ \<Rightarrow> others (w_state w))"

text \<open>C16. A pump that ends has closed every relay of the pool, has woken its own socket if it has one, then has closed
  every channel there is (with a socket, those registered during the wake-up too), and has awaited every receive in
  flight and the tick: it never leaves a pending import behind.\<close>

theorem teardown_resolves_all:
  assumes "teardown l w = (Done (), w')"
  shows "w_log w' = w_log w @ map (CloseRelay \<circ> snd) (st_relay_pool (w_state w))
             @ (if pl_udp l then [SelfWake] else [])
             @ map (CloseChannel \<circ> ch_wire \<circ> snd) (st_channels (if pl_udp l then after_next w else w_state w))
     \<and> length (w_script w) = length (w_script w') + length (pl_relays l) + length (pl_channels l)
         + (if pl_udp l then 1 else 0) + (if pl_udp l \<and> pl_udp_armed l then 1 else 0) + 1"
proof -
  let ?w1 = "w\<lparr>w_log := w_log w @ map CloseRelay (map snd (st_relay_pool (w_state w)))\<rparr>"
  obtain u w2 where t2: "(if pl_udp l then and_then (emit [SelfWake]) (\<lambda>_. await (\<lambda>_. ())) else ret ()) ?w1 = (Done u, w2)"
    and rest: "and_then (access (\<lambda>_ s. (map (\<lambda>(_, entry). ch_wire entry) (st_channels s), s))) (\<lambda>wires.
     and_then (emit (map CloseChannel wires)) (\<lambda>_.
     and_then (await_all (length (pl_relays l))) (\<lambda>_.
     and_then (if pl_udp l \<and> pl_udp_armed l then await (\<lambda>_. ()) else ret ()) (\<lambda>_.
     and_then (await_all (length (pl_channels l))) (\<lambda>_. await (\<lambda>_. ())))))) w2 = (Done (), w')"
    using assms unfolding teardown_def and_then_Done by (auto simp: access_def emit_def)
  let ?wires = "map (\<lambda>(_, entry). ch_wire entry) (st_channels (w_state w2))"
  let ?w3 = "w2\<lparr>w_log := w_log w2 @ map CloseChannel ?wires\<rparr>"
  obtain w4 w5 w6 where t4: "await_all (length (pl_relays l)) ?w3 = (Done (), w4)"
    and t5: "(if pl_udp l \<and> pl_udp_armed l then await (\<lambda>_. ()) else ret ()) w4 = (Done (), w5)"
    and t6: "await_all (length (pl_channels l)) w5 = (Done (), w6)"
    and t7: "await (\<lambda>_. ()) w6 = (Done (), w')"
    using rest unfolding and_then_Done by (auto simp: access_def emit_def)
  have s2: "length (w_script w) = length (w_script w2) + (if pl_udp l then 1 else 0)"
    "w_log w2 = w_log ?w1 @ (if pl_udp l then [SelfWake] else [])"
    "w_state w2 = (if pl_udp l then after_next w else w_state w)"
    using t2 by (auto simp: and_then_Done emit_def ret_def await_def after_next_def split: if_splits list.splits)
  have s5: "length (w_script w4) = length (w_script w5) + (if pl_udp l \<and> pl_udp_armed l then 1 else 0)"
    "w_log w5 = w_log w4"
    using t5 by (auto simp: ret_def dest: await_Done split: if_splits)
  have "w_log w' = w_log w2 @ map CloseChannel ?wires"
    using await_all_Done [OF t4] s5(2) await_all_Done [OF t6] await_Done [OF t7] by simp
  moreover have "length (w_script w) = length (w_script w') + length (pl_relays l) + length (pl_channels l)
      + (if pl_udp l then 1 else 0) + (if pl_udp l \<and> pl_udp_armed l then 1 else 0) + 1"
    using s2(1) await_all_Done [OF t4] s5(1) await_all_Done [OF t6] await_Done [OF t7] by simp
  ultimately show ?thesis
    using s2(2,3) by (auto simp: comp_def split_beta)
qed

subsection \<open>Witnesses\<close>

definition toy_pump_world :: "((nat, toy_conn) state, pump_answer, pump_effect) world" where
  "toy_pump_world =
     \<lparr>w_now = 0, w_state = toy_state True,
      w_script = [(\<lparr>pa_send = Inr (), pa_select = RelayReady 0 (Inr \<lparr>source = [9], payload = [4]\<rparr>)\<rparr>, 1, id),
                  (\<lparr>pa_send = Inr (), pa_select = RelayReady 0 (Inl ''gone'')\<rparr>, 1, id),
                  (\<lparr>pa_send = Inr (), pa_select = TickReady\<rparr>, 1, id)],
      w_log = []\<rparr>"

lemma toy_env: "env_respects R toy_pump_world \<longleftrightarrow> (\<forall>s. R s s)"
  by (simp add: env_respects_def toy_pump_world_def)

theorem pump_safe_witness:
  "\<exists>r w'. pump toy_noq (pump_start False) toy_pump_world = (r, w') \<and> r \<in> {Waiting, Done ()} \<and> state_inv (w_state w')"
proof -
  obtain r w' where run: "pump toy_noq (pump_start False) toy_pump_world = (r, w')" by force
  have "state_inv (w_state toy_pump_world)" by (simp add: toy_pump_world_def toy_state_inv)
  with pump_safe [OF toy_finite_backlog toy_noq_sizes _ _ run] run toy_env show ?thesis by blast
qed

theorem relay_death_scope_witness:
  "\<exists>l' s'. on_select toy_noq (RelayReady 0 (Inl ''gone'')) (pump_start False\<lparr>pl_relays := [(0, 7)]\<rparr>) 0 (toy_state True)
     = Inr ((True, l', []), s') \<and> st_dead s' = Some ''gone''"
  using relay_death_scope [of 0 "pump_start False\<lparr>pl_relays := [(0, 7)]\<rparr>" 0 toy_noq "''gone''" 0 "toy_state True"]
  by auto

lemma toy_pool: "st_relay_pool (toy_state w) = [(0, 0)]" "st_new_relays (toy_state w) = [(0, 0)]"
  "st_new_channels (toy_state w) = []" "st_relay_outbound (toy_state w) = []" "st_udp_outbound (toy_state w) = []"
  "st_channel_outbound (toy_state w) = []" "st_pending_upgrades (toy_state w) = []"
  by (simp_all add: toy_state_def register_relay_def state_new_def Let_def)

lemma toy_turn:
  "\<exists>l' w'. pump_turn toy_noq (pump_start False) toy_pump_world = (Done (False, l'), w')"
  by (simp add: pump_turn_def toy_pump_world_def drain_task_def drain_def and_then_def toy_pool
      flush_relay.simps flush_udp.simps flush_channel.simps access_def arm_receives_def emit_def ret_def
      pump_start_def pump_exits_def select_turn_def next_event.simps is_armed_def access_or_panic_def
      on_select_def on_relay_ready_def remove_nth_def Let_def handle_relay_datagram_def addr_for_peer_def
      handle_datagram_def SIGNAL_PREFIX_def toy_noq_def)

theorem pump_keeps_listening_witness:
  "\<exists>l' w'. pump_turn toy_noq (pump_start False) toy_pump_world = (Done (False, l'), w')
     \<and> listening l' (w_state w')"
proof -
  obtain l' w' where run: "pump_turn toy_noq (pump_start False) toy_pump_world = (Done (False, l'), w')"
    using toy_turn by blast
  have "listening (pump_start False) (w_state toy_pump_world)"
    by (simp add: listening_def toy_pump_world_def toy_pool)
  from run pump_keeps_listening [OF run this] show ?thesis by (simp add: toy_env deaf.rely_refl)
qed

text \<open>A teardown with a socket, during whose wake-up a session still registers a channel.\<close>

definition toy_teardown_world :: "((nat, toy_conn) state, pump_answer, pump_effect) world" where
  "toy_teardown_world =
     toy_pump_world\<lparr>w_script :=
       (\<lparr>pa_send = Inr (), pa_select = TickReady\<rparr>, 1,
        \<lambda>s. s\<lparr>st_channels := [(3, \<lparr>ch_wire = 8, ch_peer = [9], ch_fallback_relay = 0\<rparr>)]\<rparr>)
       # replicate 4 (\<lparr>pa_send = Inr (), pa_select = TickReady\<rparr>, 1, id)\<rparr>"

theorem teardown_resolves_all_witness:
  "\<exists>w'. teardown (pump_start True\<lparr>pl_relays := [(0, 0)]\<rparr>) toy_teardown_world = (Done (), w')
     \<and> w_log w' = [CloseRelay 0, SelfWake, CloseChannel 8]"
proof -
  obtain w' where run: "teardown (pump_start True\<lparr>pl_relays := [(0, 0)]\<rparr>) toy_teardown_world = (Done (), w')"
    by (simp add: teardown_def and_then_def access_def emit_def ret_def await_def pump_start_def toy_teardown_world_def
        numeral_eq_Suc)
  from run teardown_resolves_all [OF run] show ?thesis
    by (auto simp: pump_start_def toy_teardown_world_def toy_pump_world_def toy_pool after_next_def)
qed

end
