(* ===== verification/Endpoint_Api.thy ===== *)
theory Endpoint_Api
  imports Pump
begin

text \<open>
  Model of the exported endpoint and connection resources of \<open>endpoint/src/endpoint_impl.rs\<close>:
  options, \<open>bind\<close>, \<open>ensure_relay\<close>, \<open>connect\<close>, \<open>accept\<close>, \<open>close\<close> and the methods of a
  connection. Methods that wait are tasks; the closures they poll are the \<open>check_\<close> functions.
  The TLS configuration builders and the further operations of noq are arguments.
\<close>

section \<open>Definitions\<close>

subsection \<open>Interface types\<close>

datatype transport_addr = TRelay string | TIp string | TWebrtc string | TCustom u64 bytes

record endpoint_addr =
  ea_endpoint_id :: bytes
  ea_addrs :: "transport_addr list"

datatype connection_state = StateConnecting | StateOpen | StateClosed

datatype path_kind = PathRelay | PathIp | PathWebrtc

datatype send_datagram_error = TooLarge | UnsupportedByPeer | OtherSend string

text \<open>The transport profile: fixed MTU, no discovery.\<close>

record quic_transport =
  qt_initial_mtu :: nat
  qt_mtu_discovery :: bool

definition transport_config :: quic_transport where
  "transport_config = \<lparr>qt_initial_mtu = 1200, qt_mtu_discovery = False\<rparr>"

record ('n, 'c, 'i, 'ce, 'ee, 'cfg) noq_api = "('n, 'c, 'i, 'ce, 'ee) noq" +
  nq_connect :: "nat \<Rightarrow> 'cfg \<Rightarrow> quic_transport \<Rightarrow> socket_addr \<Rightarrow> string \<Rightarrow> 'n \<Rightarrow> (string + nat \<times> 'c) \<times> 'n"
  nc_streams_open :: "dir \<Rightarrow> 'c \<Rightarrow> nat option \<times> 'c"
  nc_network_path :: "'c \<Rightarrow> socket_addr option"
  nc_datagrams_max_size :: "'c \<Rightarrow> nat option"
  nc_datagrams_send :: "bytes \<Rightarrow> 'c \<Rightarrow> (send_datagram_error + unit) \<times> 'c"
  nc_datagrams_recv :: "'c \<Rightarrow> bytes option \<times> 'c"

text \<open>
  What the awaits of the methods give: a relay connection, a read of the caller's byte stream
  (whether it ended, and the bytes), the part of a write that the reader did not take. The log
  keeps the relays opened, the bytes read from the caller and the bytes written to a reader.
\<close>

record api_answer =
  aa_relay :: "relay_ref sresult"
  aa_stream_read :: "bool \<times> bytes"
  aa_stream_remaining :: bytes

datatype api_effect = OpenRelay string | TookIn bytes | WriteOut bytes

type_synonym ('n, 'c, 'a) api_task = "(('n, 'c) state, api_answer, api_effect, 'a) task"

subsection \<open>Options and bind\<close>

record options_state =
  os_identity :: identity
  os_alpns :: "bytes list"
  os_relay_url :: "string option"
  os_udp_bind_addr :: "string option"
  os_webrtc :: bool

definition options_new :: "identity_res \<Rightarrow> options_state" where
  "options_new i =
     \<lparr>os_identity = inner i, os_alpns = [], os_relay_url = None, os_udp_bind_addr = None, os_webrtc = False\<rparr>"

definition add_alpn :: "bytes \<Rightarrow> options_state \<Rightarrow> options_state" where
  "add_alpn alpn opts = opts\<lparr>os_alpns := os_alpns opts @ [alpn]\<rparr>"

definition set_relay_url :: "string \<Rightarrow> options_state \<Rightarrow> options_state" where
  "set_relay_url url opts = opts\<lparr>os_relay_url := Some url\<rparr>"

definition set_udp_bind_addr :: "string \<Rightarrow> options_state \<Rightarrow> options_state" where
  "set_udp_bind_addr addr opts = opts\<lparr>os_udp_bind_addr := Some addr\<rparr>"

definition set_webrtc :: "bool \<Rightarrow> options_state \<Rightarrow> options_state" where
  "set_webrtc enabled opts = opts\<lparr>os_webrtc := enabled\<rparr>"

record endpoint_res =
  er_identity :: identity
  er_udp :: "udp_wire option"

text \<open>
  The calls of \<open>bind\<close>: the home relay's connect, two draws of random bytes, the TLS and QUIC
  server configurations, the construction of the noq endpoint, and the socket host.
\<close>

record ('n, 'rpk, 'tls, 'quic) bind_deps =
  bd_relay_connect :: "string \<Rightarrow> identity \<Rightarrow> relay_ref sresult async"
  bd_reset_key :: "bytes sresult"
  bd_token_master :: "bytes sresult"
  bd_external :: "webcrypto_ed25519 \<Rightarrow> 'rpk sresult"
  bd_rpk_server_config :: "'rpk \<Rightarrow> bytes list \<Rightarrow> 'tls sresult"
  bd_quic_server :: "'tls \<Rightarrow> 'quic sresult"
  bd_noq_new :: "'quic \<Rightarrow> bytes \<Rightarrow> quic_transport \<Rightarrow> bytes \<Rightarrow> 'n"
  bd_udp_host :: udp_host

text \<open>The endpoint up to the socket: everything that can fail before the state exists.\<close>

definition bind_noq ::
  "('n, 'rpk, 'tls, 'quic) bind_deps \<Rightarrow> identity \<Rightarrow> bytes list \<Rightarrow> 'n result" where
  "bind_noq D i alpns =
     (case bd_reset_key D of
        Inl e \<Rightarrow> Inl (Other e)
      | Inr reset_key \<Rightarrow>
          (case bd_token_master D of
             Inl e \<Rightarrow> Inl (Other e)
           | Inr token_master \<Rightarrow>
               (case server_config (bd_external D) (bd_rpk_server_config D) i alpns of
                  Inl e \<Rightarrow> Inl (Other e)
                | Inr server_tls \<Rightarrow>
                    (case bd_quic_server D server_tls of
                       Inl e \<Rightarrow> Inl (Other (''server quic config: '' @ e))
                     | Inr quic \<Rightarrow> Inr (bd_noq_new D quic token_master transport_config reset_key)))))"

definition bind_udp :: "udp_host \<Rightarrow> string option \<Rightarrow> udp_wire option result" where
  "bind_udp H bind_addr =
     (case bind_addr of
        None \<Rightarrow> Inr None
      | Some addr \<Rightarrow>
          (case udp_bind H addr of
             Inl e \<Rightarrow> Inl (InvalidArgument e)
           | Inr wire \<Rightarrow> Inr (Some wire)))"

definition bind ::
  "('n, 'rpk, 'tls, 'quic) bind_deps \<Rightarrow> options_state
     \<Rightarrow> (endpoint_res \<times> ('n, 'c) state \<times> pump_local) result async" where
  "bind D opts =
     (case os_relay_url opts of
        None \<Rightarrow> Returned (Inl (InvalidArgument
                  ''bind requires a relay-url (the relay wire is the only path yet)''))
      | Some url \<Rightarrow>
          if os_alpns opts = [] then
            Returned (Inl (InvalidArgument ''bind requires at least one alpn''))
          else
            (case bd_relay_connect D url (os_identity opts) of
               Parked \<Rightarrow> Parked
             | Returned (Inl e) \<Rightarrow> Returned (Inl (ConnectFailed e))
             | Returned (Inr relay) \<Rightarrow>
                 (case bind_noq D (os_identity opts) (os_alpns opts) of
                    Inl e \<Rightarrow> Returned (Inl e)
                  | Inr noq \<Rightarrow>
                      (case bind_udp (bd_udp_host D) (os_udp_bind_addr opts) of
                         Inl e \<Rightarrow> Returned (Inl e)
                       | Inr udp \<Rightarrow>
                           Returned (Inr (\<lparr>er_identity = os_identity opts, er_udp = udp\<rparr>,
                                          snd (register_relay url relay (state_new noq (os_webrtc opts))),
                                          pump_start (udp \<noteq> None)))))))"

definition endpoint_res_id :: "endpoint_res \<Rightarrow> bytes" where
  "endpoint_res_id r = endpoint_id (er_identity r)"

definition direct_addr :: "(socket_addr \<Rightarrow> string) \<Rightarrow> endpoint_res \<Rightarrow> string option" where
  "direct_addr to_text r = map_option (\<lambda>wire. to_text (local_addr wire)) (er_udp r)"

subsection \<open>Opening relays\<close>

datatype relay_claim = RelayKnown u32 | RelayRefused | RelayClaimed | RelayTaken

definition claim_relay :: "string \<Rightarrow> ('n, 'c) state \<Rightarrow> relay_claim \<times> ('n, 'c) state" where
  "claim_relay normalized s =
     (case st_relay_keys s normalized of
        Some key \<Rightarrow> (RelayKnown key, s)
      | None \<Rightarrow>
          if is_closed_or_dead s then (RelayRefused, s)
          else (if normalized \<in> st_relay_opening s then RelayTaken else RelayClaimed,
                s\<lparr>st_relay_opening := insert normalized (st_relay_opening s)\<rparr>))"

definition finish_open :: "string \<Rightarrow> relay_ref sresult \<Rightarrow> ('n, 'c) state \<Rightarrow> u32 result \<times> ('n, 'c) state" where
  "finish_open url opened s =
     (let s1 = s\<lparr>st_relay_opening := st_relay_opening s - {normalize_relay_url url}\<rparr>
      in case opened of
           Inr conn \<Rightarrow> (case register_relay url conn s1 of (key, s2) \<Rightarrow> (Inr key, s2))
         | Inl e \<Rightarrow> (Inl (ConnectFailed (''relay '' @ url @ '': '' @ e)), s1))"

definition check_opened ::
  "string \<Rightarrow> nat \<Rightarrow> unit \<Rightarrow> nat \<Rightarrow> ('n, 'c) state \<Rightarrow> panic + u32 result option \<times> unit \<times> ('n, 'c) state" where
  "check_opened normalized started k now s =
     Inr (case st_relay_keys s normalized of
            Some key \<Rightarrow> Some (Inr key)
          | None \<Rightarrow>
              if normalized \<notin> st_relay_opening s then
                Some (Inl (ConnectFailed ''a concurrent open of this relay failed''))
              else if is_closed_or_dead s then Some (Inl Closed)
              else if 30000000000 < now - started then
                Some (Inl (ConnectFailed ''relay open timed out''))
              else None, k, s)"

definition ensure_relay :: "string \<Rightarrow> ('n, 'c, u32 result) api_task" where
  "ensure_relay url =
     and_then (access (\<lambda>_. claim_relay (normalize_relay_url url))) (\<lambda>claim.
       case claim of
         RelayKnown key \<Rightarrow> ret (Inr key)
       | RelayRefused \<Rightarrow> ret (Inl Closed)
       | RelayClaimed \<Rightarrow>
           and_then (emit [OpenRelay url]) (\<lambda>_.
           and_then (await aa_relay) (\<lambda>opened.
             access (\<lambda>_. finish_open url opened)))
       | RelayTaken \<Rightarrow>
           and_then time_now (\<lambda>started.
             wait_until (check_opened (normalize_relay_url url) started) ()))"

subsection \<open>Connecting\<close>

record dial_path =
  dp_direct :: "socket_addr option"
  dp_relay :: "string option"
  dp_webrtc :: "string option"

definition choose_entry ::
  "(string \<Rightarrow> socket_addr sresult) \<Rightarrow> bool \<Rightarrow> bool \<Rightarrow> transport_addr \<Rightarrow> dial_path \<Rightarrow> dial_path" where
  "choose_entry parse udp webrtc_enabled entry p =
     (case entry of
        TRelay url \<Rightarrow> (if dp_relay p = None then p\<lparr>dp_relay := Some url\<rparr> else p)
      | TIp text \<Rightarrow>
          (if dp_direct p = None \<and> udp
           then p\<lparr>dp_direct := (case parse text of Inr a \<Rightarrow> Some a | Inl _ \<Rightarrow> None)\<rparr> else p)
      | TWebrtc url \<Rightarrow>
          (if webrtc_enabled \<and> dp_webrtc p = None then p\<lparr>dp_webrtc := Some url\<rparr> else p)
      | TCustom _ _ \<Rightarrow> p)"

definition choose_path ::
  "(string \<Rightarrow> socket_addr sresult) \<Rightarrow> bool \<Rightarrow> bool \<Rightarrow> transport_addr list \<Rightarrow> dial_path" where
  "choose_path parse udp webrtc_enabled addrs =
     fold (choose_entry parse udp webrtc_enabled) addrs \<lparr>dp_direct = None, dp_relay = None, dp_webrtc = None\<rparr>"

text \<open>The address dialed: a direct one, or the peer's standin, whose relay route follows the dial.\<close>

definition dial_target :: "endpoint_id \<Rightarrow> socket_addr option \<Rightarrow> u32 \<Rightarrow> ('n, 'c) state \<Rightarrow> socket_addr \<times> ('n, 'c) state" where
  "dial_target peer direct dial_key s =
     (case direct of
        Some real \<Rightarrow> (real, s)
      | None \<Rightarrow>
          (case addr_for_peer peer dial_key s of
             (standin, s1) \<Rightarrow>
               (standin,
                case st_routes s1 standin of
                  Some (Relay _) \<Rightarrow> s1\<lparr>st_routes := (st_routes s1)(standin \<mapsto> Relay dial_key)\<rparr>
                | _ \<Rightarrow> s1)))"

definition start_connection ::
  "('n, 'c, 'i, 'ce, 'ee, 'cfg, 'z) noq_api_scheme \<Rightarrow> endpoint_id \<Rightarrow> socket_addr option \<Rightarrow> u32 \<Rightarrow> u32 option
     \<Rightarrow> 'cfg \<Rightarrow> nat \<Rightarrow> ('n, 'c) state \<Rightarrow> nat result \<times> ('n, 'c) state" where
  "start_connection N peer direct dial_key upgrade_key config now s =
     (if st_dead s \<noteq> None \<or> st_closed s then (Inl Closed, s)
      else
        (case dial_target peer direct dial_key s of
           (remote, s1) \<Rightarrow>
             (case nq_connect N now config transport_config remote SERVER_NAME (st_noq s1) of
                (Inl e, n) \<Rightarrow> (Inl (ConnectFailed e), s1\<lparr>st_noq := n\<rparr>)
              | (Inr (handle, conn), n) \<Rightarrow>
                  (Inr handle,
                   s1\<lparr>st_noq := n,
                      st_conns := AList.update handle (conn_entry_new conn (Some peer) False) (st_conns s1),
                      st_pending_upgrades := st_pending_upgrades s1
                        @ (case upgrade_key of None \<Rightarrow> [] | Some key \<Rightarrow> [(peer, key)])\<rparr>))))"

text \<open>\<open>conns.get_mut(&handle).expect("connection entry")\<close>, then a closure on the entry.\<close>

definition with_entry ::
  "nat \<Rightarrow> ('c conn_entry \<Rightarrow> 'a \<times> 'c conn_entry) \<Rightarrow> ('n, 'c) state \<Rightarrow> panic + 'a \<times> ('n, 'c) state" where
  "with_entry handle f s =
     (case map_of (st_conns s) handle of
        None \<Rightarrow> Inl (ExpectFailed ''connection entry'')
      | Some e \<Rightarrow> (case f e of (x, e') \<Rightarrow> Inr (x, put_entry handle e' s)))"

text \<open>A polled closure that looks at one connection's entry.\<close>

definition check_entry ::
  "nat \<Rightarrow> ('k \<Rightarrow> 'c conn_entry \<Rightarrow> 'a option \<times> 'k \<times> 'c conn_entry)
     \<Rightarrow> 'k \<Rightarrow> nat \<Rightarrow> ('n, 'c) state \<Rightarrow> panic + 'a option \<times> 'k \<times> ('n, 'c) state" where
  "check_entry handle f k now s =
     (case with_entry handle (\<lambda>e. case f k e of (x, k', e') \<Rightarrow> ((x, k'), e')) s of
        Inl p \<Rightarrow> Inl p
      | Inr ((x, k'), s') \<Rightarrow> Inr (x, k', s'))"

definition connected_or_error :: "unit \<Rightarrow> 'c conn_entry \<Rightarrow> unit result option \<times> unit \<times> 'c conn_entry" where
  "connected_or_error k e =
     (case ce_error e of
        Some err \<Rightarrow> Some (Inl err)
      | None \<Rightarrow> if ce_connected e then Some (Inr ()) else None, k, e)"

record ('rpk, 'tls, 'cfg) connect_deps =
  cd_parse :: "string \<Rightarrow> socket_addr sresult"
  cd_external :: "webcrypto_ed25519 \<Rightarrow> 'rpk sresult"
  cd_rpk_client_config :: "'rpk \<Rightarrow> endpoint_id \<Rightarrow> bytes list \<Rightarrow> 'tls sresult"
  cd_quic_client :: "'tls \<Rightarrow> 'cfg sresult"

definition client_quic ::
  "('rpk, 'tls, 'cfg) connect_deps \<Rightarrow> identity \<Rightarrow> endpoint_id \<Rightarrow> bytes \<Rightarrow> 'cfg result" where
  "client_quic D i peer alpn =
     (case client_config (cd_external D) (cd_rpk_client_config D) i peer [alpn] of
        Inl e \<Rightarrow> Inl (Other e)
      | Inr tls \<Rightarrow>
          (case cd_quic_client D tls of
             Inl e \<Rightarrow> Inl (Other (''client quic config: '' @ e))
           | Inr config \<Rightarrow> Inr config))"

definition dial_key_task :: "dial_path \<Rightarrow> ('n, 'c, u32 result) api_task" where
  "dial_key_task p =
     (case (dp_direct p, dp_relay p) of
        (None, Some url) \<Rightarrow> ensure_relay url
      | _ \<Rightarrow> ret (Inr HOME_RELAY))"

definition upgrade_key_task :: "dial_path \<Rightarrow> ('n, 'c, u32 option result) api_task" where
  "upgrade_key_task p =
     (case (dp_direct p, dp_webrtc p) of
        (None, Some url) \<Rightarrow> try_then (ensure_relay url) (\<lambda>key. ret (Inr (Some key)))
      | _ \<Rightarrow> ret (Inr None))"

definition connect ::
  "('n, 'c, 'i, 'ce, 'ee, 'cfg, 'z) noq_api_scheme \<Rightarrow> ('rpk, 'tls, 'cfg) connect_deps \<Rightarrow> endpoint_res
     \<Rightarrow> endpoint_addr \<Rightarrow> bytes \<Rightarrow> ('n, 'c, nat result) api_task" where
  "connect N D er addr alpn =
     (case try_into_array 32 (ea_endpoint_id addr) of
        None \<Rightarrow> ret (Inl (InvalidArgument ''endpoint id is not 32 bytes''))
      | Some peer \<Rightarrow>
          and_then (access (\<lambda>_ s. (st_webrtc_enabled s, s))) (\<lambda>webrtc_enabled.
            let path = choose_path (cd_parse D) (er_udp er \<noteq> None) webrtc_enabled (ea_addrs addr)
            in try_then (dial_key_task path) (\<lambda>dial_key.
               try_then (upgrade_key_task path) (\<lambda>upgrade_key.
                 case client_quic D (er_identity er) peer alpn of
                   Inl e \<Rightarrow> ret (Inl e)
                 | Inr config \<Rightarrow>
                     try_then (access (start_connection N peer (dp_direct path) dial_key upgrade_key config))
                       (\<lambda>handle.
                         try_then (wait_until (check_entry handle connected_or_error) ())
                           (\<lambda>_. ret (Inr handle)))))))"

subsection \<open>Accepting and closing\<close>

definition check_accept ::
  "unit \<Rightarrow> nat \<Rightarrow> ('n, 'c) state \<Rightarrow> panic + nat result option \<times> unit \<times> ('n, 'c) state" where
  "check_accept k now s =
     Inr (case st_accept_queue s of
            handle # rest \<Rightarrow> (Some (Inr handle), k, s\<lparr>st_accept_queue := rest\<rparr>)
          | [] \<Rightarrow> (if st_dead s \<noteq> None \<or> st_closed s then Some (Inl Closed) else None, k, s))"

definition accept :: "('n, 'c, nat result) api_task" where
  "accept = wait_until check_accept ()"

definition close_endpoint ::
  "('n, 'c, 'i, 'ce, 'ee, 'z) noq_scheme \<Rightarrow> string \<Rightarrow> nat \<Rightarrow> ('n, 'c) state \<Rightarrow> ('n, 'c) state" where
  "close_endpoint N reason now s =
     (if st_closed s then s
      else close_all N now reason (s\<lparr>st_closed := True, st_closed_at := Some now\<rparr>))"

definition endpoint_close :: "('n, 'c, 'i, 'ce, 'ee, 'z) noq_scheme \<Rightarrow> nat \<Rightarrow> ('n, 'c) state \<Rightarrow> ('n, 'c) state" where
  "endpoint_close N = close_endpoint N ''endpoint closed''"

definition endpoint_drop :: "('n, 'c, 'i, 'ce, 'ee, 'z) noq_scheme \<Rightarrow> nat \<Rightarrow> ('n, 'c) state \<Rightarrow> ('n, 'c) state" where
  "endpoint_drop N = close_endpoint N ''endpoint dropped''"

subsection \<open>Connections\<close>

definition conn_peer :: "nat \<Rightarrow> ('n, 'c) state \<Rightarrow> panic + bytes \<times> ('n, 'c) state" where
  "conn_peer handle = with_entry handle (\<lambda>e. (case ce_peer e of Some p \<Rightarrow> p | None \<Rightarrow> [], e))"

definition conn_alpn :: "nat \<Rightarrow> ('n, 'c) state \<Rightarrow> panic + bytes \<times> ('n, 'c) state" where
  "conn_alpn handle = with_entry handle (\<lambda>e. (ce_alpn e, e))"

definition entry_state :: "'c conn_entry \<Rightarrow> connection_state" where
  "entry_state e =
     (if ce_drained e \<or> ce_error e \<noteq> None then StateClosed
      else if ce_connected e then StateOpen else StateConnecting)"

definition conn_state :: "nat \<Rightarrow> ('n, 'c) state \<Rightarrow> panic + connection_state \<times> ('n, 'c) state" where
  "conn_state handle = with_entry handle (\<lambda>e. (entry_state e, e))"

definition conn_path ::
  "('n, 'c, 'i, 'ce, 'ee, 'cfg, 'z) noq_api_scheme \<Rightarrow> nat \<Rightarrow> ('n, 'c) state \<Rightarrow> path_kind" where
  "conn_path N handle s =
     (case map_of (st_conns s) handle of
        None \<Rightarrow> PathRelay
      | Some e \<Rightarrow>
          (case nc_network_path N (ce_conn e) of
             None \<Rightarrow> PathRelay
           | Some remote \<Rightarrow>
               (case st_routes s remote of
                  Some (Channel _) \<Rightarrow> PathWebrtc
                | Some (Relay _) \<Rightarrow> PathRelay
                | None \<Rightarrow> PathIp)))"

definition opened_stream ::
  "('n, 'c, 'i, 'ce, 'ee, 'cfg, 'z) noq_api_scheme \<Rightarrow> dir \<Rightarrow> unit \<Rightarrow> 'c conn_entry
     \<Rightarrow> nat result option \<times> unit \<times> 'c conn_entry" where
  "opened_stream N d k e =
     (case ce_error e of
        Some err \<Rightarrow> (Some (Inl err), k, e)
      | None \<Rightarrow>
          (case nc_streams_open N d (ce_conn e) of
             (sid, c) \<Rightarrow> (map_option Inr sid, k, e\<lparr>ce_conn := c\<rparr>)))"

definition open_stream ::
  "('n, 'c, 'i, 'ce, 'ee, 'cfg, 'z) noq_api_scheme \<Rightarrow> nat \<Rightarrow> dir \<Rightarrow> ('n, 'c, nat result) api_task" where
  "open_stream N handle d = wait_until (check_entry handle (opened_stream N d)) ()"

definition accepted_stream :: "dir \<Rightarrow> unit \<Rightarrow> 'c conn_entry \<Rightarrow> nat result option \<times> unit \<times> 'c conn_entry" where
  "accepted_stream d k e =
     (case d of
        Bi \<Rightarrow>
          (case ce_bi_queue e of
             sid # rest \<Rightarrow> (Some (Inr sid), k, e\<lparr>ce_bi_queue := rest\<rparr>)
           | [] \<Rightarrow> (map_option Inl (ce_error e), k, e))
      | Uni \<Rightarrow>
          (case ce_uni_queue e of
             sid # rest \<Rightarrow> (Some (Inr sid), k, e\<lparr>ce_uni_queue := rest\<rparr>)
           | [] \<Rightarrow> (map_option Inl (ce_error e), k, e)))"

definition accept_stream :: "nat \<Rightarrow> dir \<Rightarrow> ('n, 'c, nat result) api_task" where
  "accept_stream handle d = wait_until (check_entry handle (accepted_stream d)) ()"

record send_stream_res =
  ss_handle :: nat
  ss_id :: nat

record recv_stream_res =
  rs_handle :: nat
  rs_id :: nat
  rs_streaming :: bool

definition stream_pair :: "nat \<Rightarrow> nat \<Rightarrow> send_stream_res \<times> recv_stream_res" where
  "stream_pair handle sid =
     (\<lparr>ss_handle = handle, ss_id = sid\<rparr>, \<lparr>rs_handle = handle, rs_id = sid, rs_streaming = False\<rparr>)"

definition open_bi ::
  "('n, 'c, 'i, 'ce, 'ee, 'cfg, 'z) noq_api_scheme \<Rightarrow> nat \<Rightarrow> ('n, 'c, (send_stream_res \<times> recv_stream_res) result) api_task" where
  "open_bi N handle = try_then (open_stream N handle Bi) (\<lambda>sid. ret (Inr (stream_pair handle sid)))"

definition open_uni ::
  "('n, 'c, 'i, 'ce, 'ee, 'cfg, 'z) noq_api_scheme \<Rightarrow> nat \<Rightarrow> ('n, 'c, send_stream_res result) api_task" where
  "open_uni N handle =
     try_then (open_stream N handle Uni) (\<lambda>sid. ret (Inr \<lparr>ss_handle = handle, ss_id = sid\<rparr>))"

definition accept_bi :: "nat \<Rightarrow> ('n, 'c, (send_stream_res \<times> recv_stream_res) result) api_task" where
  "accept_bi handle = try_then (accept_stream handle Bi) (\<lambda>sid. ret (Inr (stream_pair handle sid)))"

definition accept_uni :: "nat \<Rightarrow> ('n, 'c, recv_stream_res result) api_task" where
  "accept_uni handle =
     try_then (accept_stream handle Uni)
       (\<lambda>sid. ret (Inr \<lparr>rs_handle = handle, rs_id = sid, rs_streaming = False\<rparr>))"

text \<open>\<open>s as u32\<close> truncates.\<close>

definition max_datagram_size ::
  "('n, 'c, 'i, 'ce, 'ee, 'cfg, 'z) noq_api_scheme \<Rightarrow> nat \<Rightarrow> ('n, 'c) state \<Rightarrow> panic + u32 option \<times> ('n, 'c) state" where
  "max_datagram_size N handle =
     with_entry handle (\<lambda>e. (map_option of_nat (nc_datagrams_max_size N (ce_conn e)), e))"

definition conn_send_datagram ::
  "('n, 'c, 'i, 'ce, 'ee, 'cfg, 'z) noq_api_scheme \<Rightarrow> nat \<Rightarrow> bytes \<Rightarrow> ('n, 'c) state
     \<Rightarrow> panic + unit result \<times> ('n, 'c) state" where
  "conn_send_datagram N handle data =
     with_entry handle (\<lambda>e.
       case ce_error e of
         Some err \<Rightarrow> (Inl err, e)
       | None \<Rightarrow>
           (case nc_datagrams_send N data (ce_conn e) of
              (r, c) \<Rightarrow>
                (map_err (\<lambda>err. case err of
                     TooLarge \<Rightarrow> InvalidArgument ''datagram exceeds max-datagram-size''
                   | UnsupportedByPeer \<Rightarrow> InvalidArgument ''peer does not accept datagrams''
                   | OtherSend t \<Rightarrow> Other (''send-datagram: '' @ t)) r,
                 e\<lparr>ce_conn := c\<rparr>)))"

definition received_datagram ::
  "('n, 'c, 'i, 'ce, 'ee, 'cfg, 'z) noq_api_scheme \<Rightarrow> unit \<Rightarrow> 'c conn_entry
     \<Rightarrow> bytes result option \<times> unit \<times> 'c conn_entry" where
  "received_datagram N k e =
     (case nc_datagrams_recv N (ce_conn e) of
        (Some data, c) \<Rightarrow> (Some (Inr data), k, e\<lparr>ce_conn := c\<rparr>)
      | (None, c) \<Rightarrow> (map_option Inl (ce_error e), k, e\<lparr>ce_conn := c\<rparr>))"

definition conn_recv_datagram ::
  "('n, 'c, 'i, 'ce, 'ee, 'cfg, 'z) noq_api_scheme \<Rightarrow> nat \<Rightarrow> ('n, 'c, bytes result) api_task" where
  "conn_recv_datagram N handle = wait_until (check_entry handle (received_datagram N)) ()"

definition conn_close ::
  "('n, 'c, 'i, 'ce, 'ee, 'z) noq_scheme \<Rightarrow> nat \<Rightarrow> u32 \<Rightarrow> string \<Rightarrow> nat \<Rightarrow> ('n, 'c) state
     \<Rightarrow> panic + unit \<times> ('n, 'c) state" where
  "conn_close N handle code reason now =
     with_entry handle (\<lambda>e.
       ((), if ce_error e = None \<and> \<not> ce_drained e
            then e\<lparr>ce_conn := nc_close N now code (string_bytes reason) (ce_conn e)\<rparr> else e))"

definition fully_closed :: "unit \<Rightarrow> 'c conn_entry \<Rightarrow> unit option \<times> unit \<times> 'c conn_entry" where
  "fully_closed k e = (if ce_drained e \<or> ce_error e \<noteq> None then Some () else None, k, e)"

definition wait_closed :: "nat \<Rightarrow> ('n, 'c, unit) api_task" where
  "wait_closed handle = wait_until (check_entry handle fully_closed) ()"

section \<open>Lemmas\<close>

subsection \<open>The dial path\<close>

text \<open>
  The reference: each part of the path is the first entry of its kind that can be used. A direct
  address needs a socket and a text that parses; a WebRTC hint needs the option.
\<close>

definition first_of :: "'a list \<Rightarrow> 'a option" where
  "first_of xs = (case xs of [] \<Rightarrow> None | x # _ \<Rightarrow> Some x)"

definition relay_entries :: "transport_addr list \<Rightarrow> string list" where
  "relay_entries addrs = concat (map (\<lambda>a. case a of TRelay url \<Rightarrow> [url] | _ \<Rightarrow> []) addrs)"

definition ip_entries :: "(string \<Rightarrow> socket_addr sresult) \<Rightarrow> transport_addr list \<Rightarrow> socket_addr list" where
  "ip_entries parse addrs =
     concat (map (\<lambda>a. case a of TIp t \<Rightarrow> (case parse t of Inr x \<Rightarrow> [x] | Inl _ \<Rightarrow> []) | _ \<Rightarrow> []) addrs)"

definition webrtc_entries :: "transport_addr list \<Rightarrow> string list" where
  "webrtc_entries addrs = concat (map (\<lambda>a. case a of TWebrtc url \<Rightarrow> [url] | _ \<Rightarrow> []) addrs)"

lemma first_of_simps [simp]: "first_of [] = None" "first_of (x # xs) = Some x"
  by (simp_all add: first_of_def)

lemma choose_path_from:
  "fold (choose_entry parse udp rtc_on) addrs p =
     \<lparr>dp_direct = (case dp_direct p of Some a \<Rightarrow> Some a
                   | None \<Rightarrow> if udp then first_of (ip_entries parse addrs) else None),
      dp_relay = (case dp_relay p of Some u \<Rightarrow> Some u | None \<Rightarrow> first_of (relay_entries addrs)),
      dp_webrtc = (case dp_webrtc p of Some u \<Rightarrow> Some u
                   | None \<Rightarrow> if rtc_on then first_of (webrtc_entries addrs) else None)\<rparr>"
proof (induction addrs arbitrary: p)
  case Nil
  then show ?case
    by (simp add: ip_entries_def relay_entries_def webrtc_entries_def split: option.split)
next
  case (Cons a addrs)
  then show ?case
    by (cases a)
       (auto simp: choose_entry_def ip_entries_def relay_entries_def webrtc_entries_def
          split: option.split sum.split)
qed

text \<open>C7. The path a connect dials is the first usable entry of each kind: the first relay entry,
  the first IP entry that parses (with a socket only), the first WebRTC entry (with the option
  only). The one-pass selection agrees with that reference on every address list.\<close>

theorem choose_path_first_usable:
  "choose_path parse udp rtc_on addrs =
     \<lparr>dp_direct = (if udp then first_of (ip_entries parse addrs) else None),
      dp_relay = first_of (relay_entries addrs),
      dp_webrtc = (if rtc_on then first_of (webrtc_entries addrs) else None)\<rparr>"
  by (simp add: choose_path_def choose_path_from)

subsection \<open>Bind\<close>

lemma bind_state:
  assumes "bind D opts = Returned (Inr (er, s, l))"
  shows "\<exists>url relay noq. s = snd (register_relay url relay (state_new noq (os_webrtc opts)))"
  using assms by (auto simp: bind_def split: option.splits if_splits async.splits sum.splits)

text \<open>C9. A bind that succeeds starts from a sound state: the endpoint is open with no
  connections, its home relay is the one at the configured URL under the home key and is about to
  be listened to by the pump, and identity and WebRTC option are those of the options.\<close>

theorem bind_starts_soundly:
  assumes "bind D opts = Returned (Inr (er, s, l))"
  shows "state_inv s \<and> listening l s \<and> \<not> is_closed_or_dead s \<and> st_conns s = []
     \<and> er_identity er = os_identity opts \<and> st_webrtc_enabled s = os_webrtc opts
     \<and> (\<exists>url relay. os_relay_url opts = Some url
          \<and> bd_relay_connect D url (os_identity opts) = Returned (Inr relay)
          \<and> st_relay_pool s = [(HOME_RELAY, relay)]
          \<and> st_relay_keys s = [normalize_relay_url url \<mapsto> HOME_RELAY])"
proof -
  obtain url relay noq udp where run: "os_relay_url opts = Some url"
    "bd_relay_connect D url (os_identity opts) = Returned (Inr relay)"
    "er = \<lparr>er_identity = os_identity opts, er_udp = udp\<rparr>" "l = pump_start (udp \<noteq> None)"
    and s: "s = snd (register_relay url relay (state_new noq (os_webrtc opts)))"
    using assms by (auto simp: bind_def split: option.splits if_splits async.splits sum.splits)
  have "state_inv s" unfolding s by (rule state_inv_new)
  with run show ?thesis
    by (simp add: s register_relay_def state_new_def Let_def listening_def is_closed_or_dead_def
        HOME_RELAY_def)
qed

subsection \<open>Opening relays\<close>

lemma ensure_relay_known:
  "st_relay_keys (w_state w) (normalize_relay_url url) = Some key \<Longrightarrow>
     ensure_relay url w = (Done (Inr key), w)"
  by (simp add: ensure_relay_def and_then_def access_def claim_relay_def ret_def)

lemma finish_open_slot:
  "finish_open url opened s = (r, s') \<Longrightarrow>
     normalize_relay_url url \<notin> st_relay_opening s'
     \<and> (\<forall>key. r = Inr key \<longrightarrow> st_relay_keys s' (normalize_relay_url url) = Some key)"
  by (auto simp: finish_open_def register_relay_def Let_def split: sum.splits)

lemma await_ready: "await sel w = (Done x, w') \<Longrightarrow> w_log w' = w_log w"
  by (auto simp: await_def split: list.splits prod.splits)

text \<open>The three ways a call of \<open>ensure_relay\<close> can end.\<close>

lemma ensure_relay_cases:
  fixes w :: "(('n, 'c) state, api_answer, api_effect) world"
  assumes "ensure_relay url w = (Done r, w')"
  obtains (decided) "w' = w" "\<And>key. r = Inr key \<Longrightarrow> st_relay_keys (w_state w) (normalize_relay_url url) = Some key"
      "st_relay_keys (w_state w) (normalize_relay_url url) \<noteq> None \<or> is_closed_or_dead (w_state w)"
  | (opened) "st_relay_keys (w_state w) (normalize_relay_url url) = None" "\<not> is_closed_or_dead (w_state w)"
      "normalize_relay_url url \<notin> st_relay_opening (w_state w)" "w_log w' = w_log w @ [OpenRelay url]"
      "normalize_relay_url url \<notin> st_relay_opening (w_state w')"
      "\<And>key. r = Inr key \<Longrightarrow> st_relay_keys (w_state w') (normalize_relay_url url) = Some key"
  | (joined) "st_relay_keys (w_state w) (normalize_relay_url url) = None"
      "normalize_relay_url url \<in> st_relay_opening (w_state w)" "w_log w' = w_log w"
      "\<And>key. r = Inr key \<Longrightarrow> st_relay_keys (w_state w') (normalize_relay_url url) = Some key"
proof -
  let ?u = "normalize_relay_url url"
  consider (known) key where "st_relay_keys (w_state w) ?u = Some key"
    | (refused) "st_relay_keys (w_state w) ?u = None" "is_closed_or_dead (w_state w)"
    | (claimed) "st_relay_keys (w_state w) ?u = None" "\<not> is_closed_or_dead (w_state w)"
        "?u \<notin> st_relay_opening (w_state w)"
    | (taken) "st_relay_keys (w_state w) ?u = None" "\<not> is_closed_or_dead (w_state w)"
        "?u \<in> st_relay_opening (w_state w)"
    by fastforce
  then show thesis
  proof cases
    case known
    with assms ensure_relay_known [OF known] show thesis by (intro decided) auto
  next
    case refused
    with assms show thesis
      by (intro decided) (auto simp: ensure_relay_def and_then_def access_def claim_relay_def ret_def)
  next
    case claimed
    with assms obtain o1 and w1 :: "(('n, 'c) state, api_answer, api_effect) world"
      where w1: "w_log w1 = w_log w @ [OpenRelay url]"
      and fin: "finish_open url o1 (w_state w1) = (r, w_state w')" and log: "w_log w' = w_log w1"
      by (auto simp: ensure_relay_def and_then_Done access_Done claim_relay_def emit_def dest!: await_ready)
    show thesis using claimed w1 log finish_open_slot [OF fin] by (intro opened) auto
  next
    case taken
    with assms obtain started and w1 :: "(('n, 'c) state, api_answer, api_effect) world"
      where wait: "wait_until (check_opened ?u started) () w1 = (Done r, w')"
      and w1: "w_log w1 = w_log w"
      by (auto simp: ensure_relay_def and_then_Done access_def claim_relay_def time_now_def)
    have "w_log w' = w_log w" using wait_until_log [of "check_opened ?u started" "()" w1] wait w1 by simp
    moreover have "st_relay_keys (w_state w') ?u = Some key" if "r = Inr key" for key
      using wait_until_Done [OF wait] that
      by (auto simp: check_opened_def split: option.splits if_splits)
    ultimately show thesis using taken by (intro joined)
  qed
qed

text \<open>What a call opens, however it ends or parks.\<close>

lemma ensure_relay_log:
  fixes w :: "(('n, 'c) state, api_answer, api_effect) world"
  assumes "ensure_relay url w = (r, w')"
  shows "w_log w' = w_log w
     @ (if st_relay_keys (w_state w) (normalize_relay_url url) = None
           \<and> \<not> is_closed_or_dead (w_state w) \<and> normalize_relay_url url \<notin> st_relay_opening (w_state w)
        then [OpenRelay url] else [])"
proof -
  let ?u = "normalize_relay_url url"
  have waited: "w_log w' = w_log w"
    if "wait_until (check_opened ?u n) () (w\<lparr>w_state := s1\<rparr>) = (r, w')" for n and s1 :: "('n, 'c) state"
    using that wait_until_log [of "check_opened ?u n" "()" "w\<lparr>w_state := s1\<rparr>"] by simp
  show ?thesis
    using assms waited
    by (auto simp: ensure_relay_def and_then_def access_def claim_relay_def ret_def emit_def await_def time_now_def
        split: option.splits if_splits list.splits prod.splits)
qed

lemma ensure_relay_parked:
  assumes "ensure_relay url w = (Waiting, w')" and "w_log w' \<noteq> w_log w"
  shows "claim_relay (normalize_relay_url url) (w_state w) = (RelayClaimed, w_state w')"
proof -
  let ?u = "normalize_relay_url url"
  have fresh: "st_relay_keys (w_state w) ?u = None" "\<not> is_closed_or_dead (w_state w)" "?u \<notin> st_relay_opening (w_state w)"
    using ensure_relay_log [OF assms(1)] assms(2) by (auto split: if_splits)
  with assms(1) show ?thesis
    by (auto simp: ensure_relay_def and_then_def access_def claim_relay_def emit_def await_def split: list.splits prod.splits)
qed

text \<open>
  Any number of calls side by side: their URLs whose open is in flight, beside the shared state. A call claims
  or joins; a call whose open is in flight finishes it; nothing else touches the claims.
\<close>

inductive dial_step :: "('n, 'c) state \<times> string list \<Rightarrow> ('n, 'c) state \<times> string list \<Rightarrow> bool" where
  claims: "claim_relay (normalize_relay_url url) s = (c, s') \<Longrightarrow>
    dial_step (s, flight) (s', if c = RelayClaimed then url # flight else flight)"
| finishes: "url \<in> set flight \<Longrightarrow> finish_open url opened s = (r, s') \<Longrightarrow> dial_step (s, flight) (s', remove1 url flight)"
| others: "st_relay_opening t = st_relay_opening s \<Longrightarrow> dial_step (s, flight) (t, flight)"

definition opens_tracked :: "('n, 'c) state \<times> string list \<Rightarrow> bool" where
  "opens_tracked x \<longleftrightarrow>
     distinct (map normalize_relay_url (snd x)) \<and> st_relay_opening (fst x) = normalize_relay_url ` set (snd x)"

lemma opens_tracked_claim:
  "opens_tracked (s, flight) \<Longrightarrow> claim_relay (normalize_relay_url url) s = (c, s') \<Longrightarrow>
     opens_tracked (s', if c = RelayClaimed then url # flight else flight)"
  by (auto simp: opens_tracked_def claim_relay_def split: option.splits if_splits)

lemma distinct_map_remove1: "distinct (map f xs) \<Longrightarrow> distinct (map f (remove1 x xs))"
  by (induction xs) (use set_remove1_subset in \<open>auto, force\<close>)

lemma image_set_remove1:
  "distinct (map f xs) \<Longrightarrow> x \<in> set xs \<Longrightarrow> f ` set (remove1 x xs) = f ` set xs - {f x}"
  by (induction xs) auto

interpretation relay_dials: invariant_system opens_tracked dial_step opens_tracked
proof
  fix x y :: "('n, 'c) state \<times> string list"
  assume "opens_tracked x" and "dial_step x y"
  from this(2,1) show "opens_tracked y"
  proof cases
    case (claims url s c s' flight)
    with \<open>opens_tracked x\<close> opens_tracked_claim show ?thesis by blast
  next
    case (finishes url flight opened s r s')
    then have "st_relay_opening s' = st_relay_opening s - {normalize_relay_url url}"
      by (auto simp: finish_open_def register_relay_def Let_def split: sum.splits)
    with finishes \<open>opens_tracked x\<close> show ?thesis
      by (simp add: opens_tracked_def distinct_map_remove1 image_set_remove1)
  qed (auto simp: opens_tracked_def)
qed

text \<open>C6. Concurrent dials share one open: whatever its outcome, a call of \<open>ensure_relay\<close> opens a connection only when
  the URL is neither known nor being opened by another call, at most one, and it gives up its claim however the open
  ends; the key it returns is the one the URL is registered under. While its open is in flight, after any interleaving
  of the claims and endings of any number of other calls, no two opens in flight have the same normalized URL,
  and another call for that URL opens nothing, however that call ends or parks.\<close>

theorem ensure_relay_shares_open:
  fixes w :: "(('n, 'c) state, api_answer, api_effect) world"
  assumes "ensure_relay url w = (r, w')" and "opens_tracked (w_state w, flight)"
  shows "w_log w' = w_log w
           @ (if st_relay_keys (w_state w) (normalize_relay_url url) = None
                 \<and> \<not> is_closed_or_dead (w_state w) \<and> normalize_relay_url url \<notin> st_relay_opening (w_state w)
              then [OpenRelay url] else [])
       \<and> (\<forall>x. r = Done x \<and> w_log w' \<noteq> w_log w \<longrightarrow> normalize_relay_url url \<notin> st_relay_opening (w_state w'))
       \<and> (\<forall>key. r = Done (Inr key) \<longrightarrow> st_relay_keys (w_state w') (normalize_relay_url url) = Some key)
       \<and> (r = Waiting \<and> w_log w' \<noteq> w_log w \<longrightarrow>
            (\<forall>flight' url2 (w2 :: (('n, 'c) state, api_answer, api_effect) world).
               dial_step\<^sup>*\<^sup>* (w_state w', url # flight) (w_state w2, flight') \<and> url \<in> set flight'
               \<and> normalize_relay_url url2 = normalize_relay_url url \<longrightarrow>
                 distinct (map normalize_relay_url flight') \<and> w_log (snd (ensure_relay url2 w2)) = w_log w2))"
proof (intro conjI allI impI)
  show "normalize_relay_url url \<notin> st_relay_opening (w_state w')" if "r = Done x \<and> w_log w' \<noteq> w_log w" for x
    using assms(1) that by (auto elim: ensure_relay_cases)
  show "st_relay_keys (w_state w') (normalize_relay_url url) = Some key" if "r = Done (Inr key)" for key
    using assms(1) that by (auto elim: ensure_relay_cases)
next
  fix flight' url2 and w2 :: "(('n, 'c) state, api_answer, api_effect) world"
  assume parked: "r = Waiting \<and> w_log w' \<noteq> w_log w"
    and run: "dial_step\<^sup>*\<^sup>* (w_state w', url # flight) (w_state w2, flight') \<and> url \<in> set flight'
      \<and> normalize_relay_url url2 = normalize_relay_url url"
  have "claim_relay (normalize_relay_url url) (w_state w) = (RelayClaimed, w_state w')"
    using ensure_relay_parked assms(1) parked by blast
  from opens_tracked_claim [OF assms(2) this] have "opens_tracked (w_state w', url # flight)" by simp
  then have tracked: "opens_tracked (w_state w2, flight')" using relay_dials.inv_rtranclp run by blast
  then show "distinct (map normalize_relay_url flight')" by (simp add: opens_tracked_def)
  obtain r2 w2' where "ensure_relay url2 w2 = (r2, w2')" by force
  with ensure_relay_log [OF this] tracked run show "w_log (snd (ensure_relay url2 w2)) = w_log w2"
    by (auto simp: opens_tracked_def)
qed (use ensure_relay_log [OF assms(1)] in simp)

subsection \<open>Dialing\<close>

text \<open>
  What the other tasks keep while a method runs: the endpoint invariant, the WebRTC option, and
  every connection entry with the peer it was bound to. The last is the contract that a handle
  is not handed out again while its entry is in use.
\<close>

definition api_kept :: "('n, 'c) state \<Rightarrow> ('n, 'c) state \<Rightarrow> bool" where
  "api_kept s t \<longleftrightarrow>
     (state_inv s \<longrightarrow> state_inv t) \<and> st_webrtc_enabled t = st_webrtc_enabled s
     \<and> (\<forall>h e. map_of (st_conns s) h = Some e \<longrightarrow> entry_has h (\<lambda>e'. ce_expected_peer e' = ce_expected_peer e) t)"

interpretation api: rely_guarantee api_kept
proof
  show "api_kept s s" for s :: "('n, 'c) state" by (simp add: api_kept_def entry_has_def)
next
  fix s t u :: "('n, 'c) state"
  assume st: "api_kept s t" and tu: "api_kept t u"
  have "entry_has h (\<lambda>e'. ce_expected_peer e' = ce_expected_peer e) u" if h: "map_of (st_conns s) h = Some e" for h e
  proof -
    obtain e1 :: "'c conn_entry" where "map_of (st_conns t) h = Some e1" "ce_expected_peer e1 = ce_expected_peer e"
      using st h unfolding api_kept_def entry_has_def by blast
    moreover from this have "entry_has h (\<lambda>e'. ce_expected_peer e' = ce_expected_peer e1) u"
      using tu unfolding api_kept_def by blast
    ultimately show ?thesis by simp
  qed
  with st tu show "api_kept s u" by (auto simp: api_kept_def)
qed

lemma api_kept_entry:
  "api_kept s t \<Longrightarrow> entry_has h (\<lambda>e. ce_expected_peer e = x) s \<Longrightarrow> entry_has h (\<lambda>e. ce_expected_peer e = x) t"
  by (fastforce simp: api_kept_def entry_has_def)

lemma api_kept_inv: "state_inv s \<Longrightarrow> api_kept s t \<Longrightarrow> state_inv t"
  by (simp add: api_kept_def)

text \<open>A drain satisfies that contract.\<close>

interpretation bound: latched "conn_step N now" "entry_has h (\<lambda>e. ce_expected_peer e = x)" for N now h x
  by unfold_locales
     (rule entry_has_step, assumption+, auto simp: mark_drained_def dest: on_event_effect(1))

lemma dial_target_inv:
  assumes "state_inv s" and "dial_target peer direct key s = (a, s')"
  shows "state_inv s' \<and> st_webrtc_enabled s' = st_webrtc_enabled s \<and> st_conns s' = st_conns s"
proof (cases direct)
  case None
  obtain b s1 where ap: "addr_for_peer peer key s = (b, s1)" by force
  have inv1: "state_inv s1" using state_inv_addr_for_peer [OF assms(1) ap] .
  have same: "st_webrtc_enabled s1 = st_webrtc_enabled s \<and> st_conns s1 = st_conns s"
    using ap by (cases rule: addr_for_peer_cases) auto
  show ?thesis
    using assms(2) None ap inv1 same state_inv_route [OF inv1, of b "Relay key"]
    by (auto simp: dial_target_def split: option.splits route_wire.splits)
qed (use assms in \<open>simp add: dial_target_def\<close>)

lemma start_connection_inv:
  assumes "state_inv s" and "upgrade_key \<noteq> None \<Longrightarrow> st_webrtc_enabled s"
    and "start_connection N peer direct key upgrade_key config now s = (r, s')"
  shows "state_inv s' \<and> (\<forall>h. r = Inr h \<longrightarrow> entry_has h (\<lambda>e. ce_expected_peer e = Some peer) s')"
proof -
  obtain a s1 where d: "dial_target peer direct key s = (a, s1)" by force
  note s1 = dial_target_inv [OF assms(1) d]
  let ?us = "case upgrade_key of None \<Rightarrow> [] | Some k \<Rightarrow> [(peer, k)]"
  let ?s' = "\<lambda>n h c. s1\<lparr>st_noq := n, st_conns := AList.update h (conn_entry_new c (Some peer) False) (st_conns s1),
        st_pending_upgrades := st_pending_upgrades s1 @ ?us\<rparr>"
  have dialed: "state_inv (?s' n h c) \<and> entry_has h (\<lambda>e. ce_expected_peer e = Some peer) (?s' n h c)" for n h c
  proof
    have "state_inv (s1\<lparr>st_conns := AList.update h (conn_entry_new c (Some peer) False) (st_conns s1)\<rparr>)"
      using s1 by (intro state_inv_put) auto
    moreover have "?us \<noteq> [] \<Longrightarrow> st_webrtc_enabled s1" using assms(2) s1 by (cases upgrade_key) auto
    ultimately show "state_inv (?s' n h c)" by (auto simp: inv_defs book_ok_def standins_ok_def)
  qed (simp add: entry_has_def conn_entry_new_def update_conv')
  show ?thesis
  proof (cases "st_dead s \<noteq> None \<or> st_closed s")
    case False
    obtain x n where c: "nq_connect N now config transport_config a SERVER_NAME (st_noq s1) = (x, n)" by force
    show ?thesis
    proof (cases x)
      case (Inl err)
      with False c d assms(3) s1 show ?thesis by (auto simp: start_connection_def)
    next
      case (Inr y)
      with False c d assms(3) have "r = Inr (fst y) \<and> s' = ?s' n (fst y) (snd y)"
        by (auto simp: start_connection_def split: prod.splits)
      with dialed show ?thesis by simp
    qed
  qed (use assms in \<open>auto simp: start_connection_def\<close>)
qed

text \<open>The state while a dial runs: sound, with the WebRTC option it read at its start.\<close>

definition dialing :: "bool \<Rightarrow> ('n, 'c) state \<Rightarrow> bool" where
  "dialing b s \<longleftrightarrow> state_inv s \<and> st_webrtc_enabled s = b"

lemma dialing_kept: "dialing b s \<Longrightarrow> api_kept s t \<Longrightarrow> dialing b t"
  by (simp add: dialing_def api_kept_def)

lemma dialing_claim_relay: "dialing b s \<Longrightarrow> claim_relay u s = (c, s') \<Longrightarrow> dialing b s'"
  by (auto simp: claim_relay_def dialing_def split: option.splits if_splits)

lemma dialing_finish_open:
  assumes "dialing b s" and "finish_open url opened s = (r, s')"
  shows "dialing b s'"
  using assms state_inv_register_relay [of "s\<lparr>st_relay_opening := st_relay_opening s - {normalize_relay_url url}\<rparr>" url]
  by (auto simp: finish_open_def dialing_def register_relay_def Let_def split: sum.splits)

lemma check_opened_total: "\<exists>x. check_opened u started k n s = Inr (x, k, s)"
  by (simp add: check_opened_def)

lemma triple_ensure_relay:
  "triple api_kept (\<lambda>s _. dialing b s) (\<lambda>s _. dialing b s) (ensure_relay url :: ('n, 'c, u32 result) api_task)
     (\<lambda>_ s _. dialing b s)"
proof -
  have wait: "triple api_kept (\<lambda>s _. dialing b s) (\<lambda>s _. dialing b s)
      (wait_until (check_opened u started) () :: ('n, 'c, u32 result) api_task) (\<lambda>_ s _. dialing b s)"
    for u started
  proof (rule triple_wait_until [where I = "\<lambda>_ s _. dialing b s"])
    fix k :: unit and n and s :: "('n, 'c) state"
    assume "dialing b s"
    moreover obtain x where "check_opened u started k n s = Inr (x, k, s)" using check_opened_total by blast
    ultimately show "(\<exists>y k' s'. check_opened u started k n s = Inr (Some y, k', s') \<and> dialing b s')
        \<or> (\<exists>k' s'. check_opened u started k n s = Inr (None, k', s') \<and> dialing b s')"
      by (cases x) auto
  qed (auto intro: dialing_kept)
  show ?thesis
    unfolding ensure_relay_def
    by (rule triple_and_then [where M = "\<lambda>_ s _. dialing b s"])
       (auto split: relay_claim.split intro!: triple_and_then [where M = "\<lambda>_ s _. dialing b s"]
          triple_access triple_ret triple_emit triple_time_now triple_await wait
          intro: dialing_claim_relay dialing_finish_open dialing_kept)
qed

lemma check_entry_Inr:
  "map_of (st_conns s) h = Some e \<Longrightarrow> f k e = (x, k', e') \<Longrightarrow>
     check_entry h f k n s = Inr (x, k', put_entry h e' s)"
  by (simp add: check_entry_def with_entry_def)

lemma triple_connected:
  "triple api_kept (\<lambda>s _. state_inv s)
     (\<lambda>s _. state_inv s \<and> entry_has h (\<lambda>e. ce_expected_peer e = Some peer) s)
     (wait_until (check_entry h connected_or_error) () :: ('n, 'c, unit result) api_task)
     (\<lambda>r s _. state_inv s \<and> (r = Inr () \<longrightarrow>
        entry_has h (\<lambda>e. ce_connected e \<and> ce_error e = None \<and> ce_peer e = Some peer \<and> ce_expected_peer e = Some peer) s))"
proof (rule triple_wait_until [where I = "\<lambda>_ s _. state_inv s \<and> entry_has h (\<lambda>e. ce_expected_peer e = Some peer) s"])
  fix k :: unit and n and s :: "('n, 'c) state"
  assume s: "state_inv s \<and> entry_has h (\<lambda>e. ce_expected_peer e = Some peer) s"
  then obtain e where e: "map_of (st_conns s) h = Some e" "ce_expected_peer e = Some peer"
    by (auto simp: entry_has_def)
  then have "entry_ok e" using s state_inv_entry by blast
  moreover have "check_entry h connected_or_error k n s = Inr (fst (connected_or_error k e), k, s)"
    using check_entry_Inr [OF e(1), of connected_or_error k "fst (connected_or_error k e)" k e] put_entry_id [OF e(1)]
    by (simp add: connected_or_error_def)
  ultimately show "(\<exists>x k' s'. check_entry h connected_or_error k n s = Inr (Some x, k', s')
        \<and> state_inv s' \<and> (x = Inr () \<longrightarrow>
             entry_has h (\<lambda>e. ce_connected e \<and> ce_error e = None \<and> ce_peer e = Some peer \<and> ce_expected_peer e = Some peer) s'))
      \<or> (\<exists>k' s'. check_entry h connected_or_error k n s = Inr (None, k', s')
           \<and> state_inv s' \<and> entry_has h (\<lambda>e. ce_expected_peer e = Some peer) s')"
    using s e by (auto simp: connected_or_error_def entry_has_def entry_ok_def split: option.split)
qed (auto intro: api_kept_entry api_kept_inv)

lemma triple_dial_keys:
  assumes "dp_webrtc p \<noteq> None \<longrightarrow> b"
  shows "triple api_kept (\<lambda>s _. state_inv s) (\<lambda>s _. dialing b s) (dial_key_task p) (\<lambda>_ s _. dialing b s)"
    and "triple api_kept (\<lambda>s _. state_inv s) (\<lambda>s _. dialing b s) (upgrade_key_task p)
           (\<lambda>r s _. dialing b s \<and> (\<forall>k. r = Inr (Some k) \<longrightarrow> b))"
proof -
  have open_: "triple api_kept (\<lambda>s _. state_inv s) (\<lambda>s _. dialing b s) (ensure_relay url) (\<lambda>_ s _. dialing b s)" for url b
    by (rule triple_weaken [OF triple_ensure_relay]) (auto simp: dialing_def)
  show "triple api_kept (\<lambda>s _. state_inv s) (\<lambda>s _. dialing b s) (dial_key_task p) (\<lambda>_ s _. dialing b s)"
    by (auto simp: dial_key_task_def intro: open_ triple_ret split: option.split)
  show "triple api_kept (\<lambda>s _. state_inv s) (\<lambda>s _. dialing b s) (upgrade_key_task p)
           (\<lambda>r s _. dialing b s \<and> (\<forall>k. r = Inr (Some k) \<longrightarrow> b))"
    using assms by (auto simp: upgrade_key_task_def intro!: triple_try_then [OF open_] triple_ret split: option.split)
qed

definition dialed :: "endpoint_addr \<Rightarrow> nat result \<Rightarrow> ('n, 'c) state \<Rightarrow> bool" where
  "dialed addr r s \<longleftrightarrow> state_inv s \<and> (\<forall>h. r = Inr h \<longrightarrow>
     length (ea_endpoint_id addr) = 32
     \<and> entry_has h (\<lambda>e. ce_connected e \<and> ce_error e = None \<and> ce_peer e = Some (ea_endpoint_id addr)
          \<and> ce_expected_peer e = Some (ea_endpoint_id addr)) s)"

lemma dialed_error [simp]: "dialed addr (Inl e) s = state_inv s"
  by (simp add: dialed_def)

lemma triple_start_and_wait:
  assumes "peer = ea_endpoint_id addr" and "length peer = 32"
  shows "triple api_kept (\<lambda>s _. state_inv s) (\<lambda>s _. dialing b s \<and> (\<forall>k. upgrade_key = Some k \<longrightarrow> b))
    (try_then (access (start_connection N peer direct dial_key upgrade_key config)) (\<lambda>handle.
       try_then (wait_until (check_entry handle connected_or_error) ()) (\<lambda>_. ret (Inr handle)))
     :: ('n, 'c, nat result) api_task)
    (\<lambda>r s _. dialed addr r s)"
proof (rule triple_try_then [where M = "\<lambda>r s _. state_inv s
    \<and> (\<forall>h. r = Inr h \<longrightarrow> entry_has h (\<lambda>e. ce_expected_peer e = Some peer) s)"])
  show "triple api_kept (\<lambda>s _. state_inv s) (\<lambda>s _. dialing b s \<and> (\<forall>k. upgrade_key = Some k \<longrightarrow> b))
     (access (start_connection N peer direct dial_key upgrade_key config))
     (\<lambda>r s _. state_inv s \<and> (\<forall>h. r = Inr h \<longrightarrow> entry_has h (\<lambda>e. ce_expected_peer e = Some peer) s))"
    by (rule triple_access) (auto simp: dialing_def dest: start_connection_inv)
next
  fix h
  have "triple api_kept (\<lambda>s _. state_inv s)
      (\<lambda>s _. state_inv s \<and> (\<forall>h'. Inr h = Inr h' \<longrightarrow> entry_has h' (\<lambda>e. ce_expected_peer e = Some peer) s))
      (wait_until (check_entry h connected_or_error) () :: ('n, 'c, unit result) api_task)
      (\<lambda>r s _. state_inv s \<and> (r = Inr () \<longrightarrow>
        entry_has h (\<lambda>e. ce_connected e \<and> ce_error e = None \<and> ce_peer e = Some peer \<and> ce_expected_peer e = Some peer) s))"
    by (rule triple_weaken [OF triple_connected [of h peer]]) auto
  then show "triple api_kept (\<lambda>s _. state_inv s)
      (\<lambda>s _. state_inv s \<and> (\<forall>h'. Inr h = Inr h' \<longrightarrow> entry_has h' (\<lambda>e. ce_expected_peer e = Some peer) s))
      (try_then (wait_until (check_entry h connected_or_error) ()) (\<lambda>_. ret (Inr h)) :: ('n, 'c, nat result) api_task)
      (\<lambda>r s _. dialed addr r s)"
    by (rule triple_try_then) (use assms in \<open>auto intro: triple_ret simp: dialed_def\<close>)
qed auto

lemma triple_connect:
  "triple api_kept (\<lambda>s _. state_inv s) (\<lambda>s _. state_inv s) (connect N D er addr alpn)
     (\<lambda>r s _. dialed addr r s)"
proof (cases "try_into_array 32 (ea_endpoint_id addr)")
  case (Some peer)
  have rest: "triple api_kept (\<lambda>s _. state_inv s) (\<lambda>s _. dialing b s)
      (let path = choose_path (cd_parse D) (er_udp er \<noteq> None) b (ea_addrs addr)
       in try_then (dial_key_task path) (\<lambda>dial_key.
          try_then (upgrade_key_task path) (\<lambda>upgrade_key.
            case client_quic D (er_identity er) peer alpn of
              Inl e \<Rightarrow> ret (Inl e)
            | Inr config \<Rightarrow>
                try_then (access (start_connection N peer (dp_direct path) dial_key upgrade_key config))
                  (\<lambda>handle.
                    try_then (wait_until (check_entry handle connected_or_error) ())
                      (\<lambda>_. ret (Inr handle))))))
      (\<lambda>r s _. dialed addr r s)" for b
  proof -
    let ?p = "choose_path (cd_parse D) (er_udp er \<noteq> None) b (ea_addrs addr)"
    have "dp_webrtc ?p \<noteq> None \<longrightarrow> b" by (simp add: choose_path_def choose_path_from)
    note keys = triple_dial_keys [OF this]
    have start: "triple api_kept (\<lambda>s _. state_inv s)
        (\<lambda>s _. state_inv s \<and> st_webrtc_enabled s = b \<and> ((\<exists>k. upgrade_key = Some k) \<longrightarrow> b))
        (try_then (access (start_connection N peer direct dial_key upgrade_key config)) (\<lambda>handle.
           try_then (wait_until (check_entry handle connected_or_error) ()) (\<lambda>_. ret (Inr handle)))
         :: ('a, 'b, nat result) api_task)
        (\<lambda>r s _. dialed addr r s)" for upgrade_key direct dial_key config
      by (rule triple_weaken [OF triple_start_and_wait [where b = b]]) (use Some in \<open>auto simp: dialing_def\<close>)
    show ?thesis
      unfolding Let_def
      by (rule triple_try_then [OF keys(1)], simp add: dialing_def,
          rule triple_try_then [OF keys(2)], simp add: dialing_def,
          cases "client_quic D (er_identity er) peer alpn")
         (auto intro!: triple_ret start simp: dialing_def simp del: not_None_eq)
  qed
  show ?thesis
    unfolding connect_def Some option.case
    by (rule triple_and_then [where M = "\<lambda>b s _. dialing b s", OF _ rest])
       (rule triple_access, auto simp: dialing_def)
qed (simp add: connect_def triple_ret try_into_array_def)

text \<open>C1. Connecting authenticates: whatever the network, the relays and the clock do, \<open>connect\<close>
  never panics and keeps the endpoint sound, and the connection it returns is connected, without
  error, and its TLS-authenticated peer is the endpoint the caller dialed. The other tasks are
  assumed to keep the endpoint sound and the peers that connection entries are bound to.\<close>

theorem connect_authenticates:
  assumes "connect N D er addr alpn w = (r, w')" and "state_inv (w_state w)" and "env_respects api_kept w"
  shows "(r = Waiting \<or> (\<exists>x. r = Done x)) \<and> state_inv (w_state w')
     \<and> (\<forall>h. r = Done (Inr h) \<longrightarrow> (\<exists>e. map_of (st_conns (w_state w')) h = Some e
          \<and> ce_connected e \<and> ce_error e = None \<and> ce_peer e = Some (ea_endpoint_id addr)))"
  using tripleD [OF triple_connect assms(3,2,1)]
  by (cases r) (auto simp: dialed_def entry_has_def)

subsection \<open>The other tasks meet the contract\<close>

text \<open>
  What \<open>connect\<close> assumes of the other tasks is what they do: drains and flushes, signaling
  sessions, and every arm of the select, where the last needs that noq does not accept an incoming
  connection under a handle that has an entry.
\<close>

definition binds_kept :: "('n, 'c) state \<Rightarrow> ('n, 'c) state \<Rightarrow> bool" where
  "binds_kept s t \<longleftrightarrow> st_webrtc_enabled t = st_webrtc_enabled s
     \<and> (\<forall>h e. map_of (st_conns s) h = Some e \<longrightarrow> entry_has h (\<lambda>e'. ce_expected_peer e' = ce_expected_peer e) t)"

lemma api_keptI: "(state_inv s \<Longrightarrow> state_inv t) \<Longrightarrow> binds_kept s t \<Longrightarrow> api_kept s t"
  by (simp add: api_kept_def binds_kept_def)

lemma binds_kept_same:
  "st_webrtc_enabled t = st_webrtc_enabled s \<Longrightarrow> st_conns t = st_conns s \<Longrightarrow> binds_kept s t"
  by (simp add: binds_kept_def entry_has_def)

lemma binds_kept_map_entries:
  "(\<And>e. ce_expected_peer (f e) = ce_expected_peer e) \<Longrightarrow> binds_kept s (map_entries f s)"
  by (auto simp: binds_kept_def entry_has_def map_entries_def map_of_map [unfolded comp_def])

lemma drain_api_kept:
  assumes "drain N now s = Some (Inr t)"
  shows "api_kept s t"
proof (rule api_keptI)
  have run: "(conn_step N now)\<^sup>*\<^sup>* s t" using drain_steps [OF assms] .
  show "state_inv s \<Longrightarrow> state_inv t" using drain_inv.inv_rtranclp [OF run] .
  have "st_webrtc_enabled t = st_webrtc_enabled s"
    using run by (induction rule: rtranclp_induct)
      (auto elim!: conn_step_cases simp: put_entry_def route_transmit_def
        split: option.splits route_wire.splits sum.splits)
  moreover have "entry_has h (\<lambda>e'. ce_expected_peer e' = ce_expected_peer e) t"
    if "map_of (st_conns s) h = Some e" for h e
    by (rule bound.latch_forever [OF run]) (use that in \<open>simp add: entry_has_def\<close>)
  ultimately show "binds_kept s t" by (simp add: binds_kept_def)
qed

lemma mark_dead_api_kept: "api_kept s (mark_dead reason s)"
  by (rule api_keptI)
     (auto simp: state_inv_mark_dead, simp add: mark_dead_def binds_kept_def entry_has_def map_entries_def
       map_of_map [unfolded comp_def])

interpretation api_flush: flush_guarantee api_kept
  by unfold_locales (auto intro!: api_keptI binds_kept_same mark_dead_api_kept)

lemma register_channel_conns: "st_conns (snd (snd (register_channel p w s))) = st_conns s"
  by (simp add: register_channel_def Let_def split: prod.split)

lemma register_channel_api_kept:
  "st_webrtc_enabled s \<Longrightarrow> api_kept s (snd (snd (register_channel p w s)))"
  by (intro api_keptI state_inv_register_channel binds_kept_same webrtc_enabled_register
      register_channel_conns)

text \<open>Sessions exist only on endpoints with the WebRTC option.\<close>

interpretation api_sessions:
  session_lifecycle "\<lambda>s t. st_webrtc_enabled s \<longrightarrow> api_kept s t" peer for peer
proof
  fix s t u :: "('n, 'c) state" and m r refused via wire relay data
  show "st_webrtc_enabled s \<longrightarrow> api_kept s s" by (simp add: api.rely_refl)
  show "st_webrtc_enabled s \<longrightarrow> api_kept s u"
    if "st_webrtc_enabled s \<longrightarrow> api_kept s t" "st_webrtc_enabled t \<longrightarrow> api_kept t u"
    using that api.rely_trans [of s t u] by (auto simp: api_kept_def)
  show "st_webrtc_enabled s \<longrightarrow> api_kept s t" if "pop_signal_inbox peer s = (m, t)"
    using that state_inv_pop_signal_inbox [of s peer]
    by (auto intro!: api_keptI binds_kept_same simp: pop_signal_inbox_def split: option.splits list.splits)
  show "st_webrtc_enabled s \<longrightarrow> api_kept s t" if "begin_signaling peer via s = (r, t)"
    using that state_inv_begin_signaling [of s peer via]
    by (auto intro!: api_keptI binds_kept_same simp: begin_signaling_def split: if_splits option.splits)
  show "st_webrtc_enabled s \<longrightarrow> api_kept s t" if "register_channel peer wire s = (r, refused, t)"
    using register_channel_api_kept [of s peer wire] that by simp
  show "st_webrtc_enabled s \<longrightarrow> api_kept s (push_signal_outbound relay peer data s)"
    by (auto intro!: api_keptI binds_kept_same simp: push_signal_outbound_def)
  show "st_webrtc_enabled s \<longrightarrow> api_kept s (end_signaling peer s)"
    using state_inv_end_signaling [of s peer]
    by (auto intro!: api_keptI binds_kept_same simp: end_signaling_def)
qed

definition accepts_fresh :: "('n, 'c, 'i, 'ce, 'ee, 'z) noq_scheme \<Rightarrow> nat \<Rightarrow> ('n, 'c) state \<Rightarrow> bool" where
  "accepts_fresh N now s \<longleftrightarrow>
     (\<forall>i n h c buf n'. nq_accept N i now n = (Inr (h, c), buf, n') \<longrightarrow> map_of (st_conns s) h = None)"

lemma accepts_freshD:
  "accepts_fresh N now s \<Longrightarrow> nq_accept N i now n = (Inr (h, c), buf, n') \<Longrightarrow> map_of (st_conns s) h = None"
  unfolding accepts_fresh_def by blast

lemma handle_datagram_binds:
  assumes "handle_datagram N now a src d s = Inr t" and "accepts_fresh N now s"
  shows "binds_kept s t"
proof -
  have put: "binds_kept s (s\<lparr>st_noq := n, st_conns := AList.update h e' (st_conns s)\<rparr>)"
    if "\<And>e. map_of (st_conns s) h = Some e \<Longrightarrow> ce_expected_peer e' = ce_expected_peer e" for n h e'
    using that by (auto simp: binds_kept_def entry_has_def update_conv')
  show ?thesis
    using assms
    by (auto simp: handle_datagram_def respond_def push_response_def Let_def
        dest!: accepts_freshD intro!: binds_kept_same put
        split: prod.splits option.splits datagram_event.splits sum.splits if_splits route_wire.splits)
qed

subsection \<open>Accepting\<close>

text \<open>Everything queued for acceptance is an accepted connection that authenticated its peer.\<close>

definition queue_authentic :: "('n, 'c) state \<Rightarrow> bool" where
  "queue_authentic s \<longleftrightarrow>
     (\<forall>h\<in>set (st_accept_queue s). entry_has h (\<lambda>e. ce_connected e \<and> ce_accepted_side e) s)"

lemma drain_queue_authentic:
  assumes "queue_authentic s" and "drain N now s = Some (Inr s')"
  shows "queue_authentic s'"
proof -
  have run: "(conn_step N now)\<^sup>*\<^sup>* s s'" using drain_steps [OF assms(2)] .
  obtain hs where "st_accept_queue s' = st_accept_queue s @ hs"
    "\<forall>h\<in>set hs. entry_has h (\<lambda>e. ce_connected e \<and> ce_accepted_side e) s'"
    using drain_surfaced [OF assms(2)] by blast
  moreover have "entry_has h (\<lambda>e. ce_connected e \<and> ce_accepted_side e) s'" if "h \<in> set (st_accept_queue s)" for h
    using established.latch_forever [OF run] assms(1) that by (auto simp: queue_authentic_def)
  ultimately show ?thesis by (auto simp: queue_authentic_def)
qed

lemma authentic_entry:
  assumes "state_inv s" and "entry_has h (\<lambda>e. ce_connected e \<and> ce_accepted_side e) s"
  shows "\<exists>e pid. map_of (st_conns s) h = Some e \<and> ce_accepted_side e
          \<and> ce_connected e \<and> ce_peer e = Some pid \<and> ce_expected_peer e \<in> {None, Some pid}"
proof -
  obtain e where e: "map_of (st_conns s) h = Some e" "ce_connected e" "ce_accepted_side e"
    using assms(2) by (auto simp: entry_has_def)
  with state_inv_entry [OF assms(1) e(1)] show ?thesis by (auto simp: entry_ok_def)
qed

lemma triple_accept:
  fixes R :: "('n, 'c) state \<Rightarrow> ('n, 'c) state \<Rightarrow> bool"
  assumes "\<And>s t. R s t \<Longrightarrow> state_inv s \<and> queue_authentic s \<Longrightarrow> state_inv t \<and> queue_authentic t"
  shows "triple R (\<lambda>s _. state_inv s) (\<lambda>s _. state_inv s \<and> queue_authentic s) (accept :: ('n, 'c, nat result) api_task)
     (\<lambda>x s _. state_inv s \<and> (\<forall>h. x = Inr h \<longrightarrow> entry_has h (\<lambda>e. ce_connected e \<and> ce_accepted_side e) s))"
  unfolding accept_def
proof (rule triple_wait_until [where I = "\<lambda>_ s _. state_inv s \<and> queue_authentic s"])
  let ?Q = "\<lambda>x s. state_inv s \<and> (\<forall>h. x = Inr h \<longrightarrow> entry_has h (\<lambda>e. ce_connected e \<and> ce_accepted_side e) s)"
  fix k :: unit and n and s :: "('n, 'c) state"
  assume "state_inv s \<and> queue_authentic s"
  then show "(\<exists>x k' s'. check_accept k n s = Inr (Some x, k', s') \<and> ?Q x s')
      \<or> (\<exists>k' s'. check_accept k n s = Inr (None, k', s') \<and> state_inv s' \<and> queue_authentic s')"
    by (cases "st_accept_queue s")
       (auto simp: check_accept_def queue_authentic_def entry_has_def state_inv_def queue_ok_def inv_defs)
qed (use assms in auto)

text \<open>
  What happens to an endpoint while it serves: the pump drains it, handles datagrams and timers, connections are
  dialed and accepted, and everything else leaves the queue and the identity of the entries alone. The first
  argument of a run is the state it starts in, the second the events that its drains handled. noq's contract is that
  a handle it opens is not one that still waits for acceptance.
\<close>

definition opens_unqueued :: "('n, 'c, 'i, 'ce, 'ee, 'z) noq_scheme \<Rightarrow> nat \<Rightarrow> ('n, 'c) state \<Rightarrow> bool" where
  "opens_unqueued N now s \<longleftrightarrow>
     (\<forall>a d i buf n h c buf' n'. nq_handle N now a d (st_noq s) = (Some (NewConnection i), buf, n)
        \<and> nq_accept N i now n = (Inr (h, c), buf', n') \<longrightarrow> h \<notin> set (st_accept_queue s))"

definition same_identity :: "'c conn_entry \<Rightarrow> 'c conn_entry \<Rightarrow> bool" where
  "same_identity e e' \<longleftrightarrow>
     ce_accepted_side e' = ce_accepted_side e \<and> ce_connected e' = ce_connected e \<and> ce_peer e' = ce_peer e
     \<and> ce_expected_peer e' = ce_expected_peer e"

definition identities_kept :: "('n, 'c) state \<Rightarrow> ('n, 'c) state \<Rightarrow> bool" where
  "identities_kept s t \<longleftrightarrow>
     (state_inv s \<longrightarrow> state_inv t) \<and> st_accept_queue t = st_accept_queue s
     \<and> (\<forall>h e. map_of (st_conns s) h = Some e \<longrightarrow> entry_has h (same_identity e) t)"

inductive endpoint_runs ::
  "('n, 'c, 'i, 'ce, 'ee, 'cfg, 'z) noq_api_scheme \<Rightarrow> ('n, 'c) state \<Rightarrow> 'c drain_event list \<Rightarrow> ('n, 'c) state \<Rightarrow> bool"
  for N s where
  runs_start: "endpoint_runs N s [] s"
| runs_drain: "endpoint_runs N s tr t \<Longrightarrow> drain N now t = Some (Inr u) \<Longrightarrow> drain_trace N now t es u \<Longrightarrow>
    endpoint_runs N s (tr @ es) u"
| runs_datagram: "endpoint_runs N s tr t \<Longrightarrow> handle_datagram N now a src d t = Inr u \<Longrightarrow> opens_unqueued N now t \<Longrightarrow>
    endpoint_runs N s tr u"
| runs_dial: "endpoint_runs N s tr t \<Longrightarrow> start_connection N peer direct key upgrade_key config now t = (r, u) \<Longrightarrow>
    (upgrade_key \<noteq> None \<Longrightarrow> st_webrtc_enabled t) \<Longrightarrow> (\<And>h. r = Inr h \<Longrightarrow> h \<notin> set (st_accept_queue t)) \<Longrightarrow>
    endpoint_runs N s tr u"
| runs_accept: "endpoint_runs N s tr t \<Longrightarrow> st_accept_queue t = h # rest \<Longrightarrow>
    endpoint_runs N s tr (t\<lparr>st_accept_queue := rest\<rparr>)"
| runs_other: "endpoint_runs N s tr t \<Longrightarrow> identities_kept t u \<Longrightarrow> endpoint_runs N s tr u"

lemma endpoint_runs_trans: "endpoint_runs N t es u \<Longrightarrow> endpoint_runs N s tr t \<Longrightarrow> endpoint_runs N s (tr @ es) u"
proof (induction rule: endpoint_runs.induct)
  case (runs_drain es t now u es')
  then show ?case using endpoint_runs.runs_drain [of N s "tr @ es" t now u es'] by simp
qed (auto intro: endpoint_runs.intros)

text \<open>On a run, everything queued was authenticated by an event of the run.\<close>

definition queue_authenticated_by ::
  "('n, 'c, 'i, 'ce, 'ee, 'z) noq_scheme \<Rightarrow> 'c drain_event list \<Rightarrow> ('n, 'c) state \<Rightarrow> bool" where
  "queue_authenticated_by N tr s \<longleftrightarrow>
     (\<forall>h\<in>set (st_accept_queue s). entry_has h (authenticated_by N tr h) s)"

lemma authenticated_by_identity: "same_identity e e' \<Longrightarrow> authenticated_by N tr h e \<Longrightarrow> authenticated_by N tr h e'"
  by (auto simp: same_identity_def authenticated_by_def)

lemma identities_kept_authentic:
  "identities_kept s t \<Longrightarrow> queue_authenticated_by N tr s \<Longrightarrow> queue_authenticated_by N tr t"
  unfolding identities_kept_def queue_authenticated_by_def entry_has_def
  by (metis authenticated_by_identity)

lemma put_unqueued_authentic:
  assumes "queue_authenticated_by N tr s" and "h \<notin> set (st_accept_queue s)"
    and "st_accept_queue t = st_accept_queue s" and "st_conns t = AList.update h e (st_conns s)"
  shows "queue_authenticated_by N tr t"
  using assms by (auto simp: queue_authenticated_by_def entry_has_def update_conv')

lemma handle_datagram_authentic:
  assumes "handle_datagram N now a src d s = Inr t" and "opens_unqueued N now s" and "queue_authenticated_by N tr s"
  shows "queue_authenticated_by N tr t"
proof -
  have same: "queue_authenticated_by N tr t" if "st_conns t = st_conns s" "st_accept_queue t = st_accept_queue s"
    using that assms(3) by (simp add: queue_authenticated_by_def entry_has_def)
  have queue: "st_accept_queue t = st_accept_queue s" using handle_datagram_book [OF assms(1)] by blast
  obtain ev buf n where nq: "nq_handle N now a d (st_noq s) = (ev, buf, n)" by (metis prod_cases3)
  consider (event) h e c where "map_of (st_conns s) h = Some e" "st_conns t = AList.update h (e\<lparr>ce_conn := c\<rparr>) (st_conns s)"
    | (opened) i h c buf' n' where "ev = Some (NewConnection i)" "nq_accept N i now n = (Inr (h, c), buf', n')"
        "st_conns t = AList.update h (conn_entry_new c src True) (st_conns s)"
    | (unchanged) "st_conns t = st_conns s"
    using assms(1) nq
    by (auto simp: handle_datagram_def respond_def push_response_def Let_def
        split: prod.splits option.splits datagram_event.splits sum.splits if_splits route_wire.splits)
  then show ?thesis
  proof cases
    case event
    then show ?thesis
      using assms(3) queue by (auto simp: queue_authenticated_by_def entry_has_def update_conv' split: if_splits)
  next
    case opened
    then have "h \<notin> set (st_accept_queue s)" using assms(2) nq unfolding opens_unqueued_def by blast
    from put_unqueued_authentic [OF assms(3) this queue opened(3)] show ?thesis .
  next
    case unchanged
    from same [OF this queue] show ?thesis .
  qed
qed

lemma start_connection_authentic:
  assumes "start_connection N peer direct key upgrade_key config now s = (r, t)" and "state_inv s"
    and "\<And>h. r = Inr h \<Longrightarrow> h \<notin> set (st_accept_queue s)" and "queue_authenticated_by N tr s"
  shows "queue_authenticated_by N tr t"
proof -
  obtain a s1 where d: "dial_target peer direct key s = (a, s1)" by force
  have conns: "st_conns s1 = st_conns s" using dial_target_inv [OF assms(2) d] by blast
  have queue: "st_accept_queue s1 = st_accept_queue s"
  proof -
    obtain b s2 where "addr_for_peer peer key s = (b, s2)" by force
    moreover from this have "st_accept_queue s2 = st_accept_queue s" by (cases rule: addr_for_peer_cases) auto
    ultimately show ?thesis using d by (auto simp: dial_target_def split: option.splits route_wire.splits)
  qed
  obtain x n where c: "nq_connect N now config transport_config a SERVER_NAME (st_noq s1) = (x, n)" by force
  have "st_accept_queue t = st_accept_queue s \<and> (st_conns t = st_conns s
      \<or> (\<exists>h e. r = Inr h \<and> st_conns t = AList.update h e (st_conns s)))"
    using assms(1) d c conns queue by (cases x; cases "st_dead s \<noteq> None \<or> st_closed s") (auto simp: start_connection_def)
  then show ?thesis
  proof (elim conjE disjE exE)
    fix h e
    assume "st_accept_queue t = st_accept_queue s" "r = Inr h" "st_conns t = AList.update h e (st_conns s)"
    with put_unqueued_authentic [OF assms(4)] assms(3) show ?thesis by blast
  qed (use assms(4) in \<open>simp add: queue_authenticated_by_def entry_has_def\<close>)
qed

lemma drain_authentic:
  assumes "drain_trace N now s es t" and "queue_authenticated_by N tr s"
  shows "queue_authenticated_by N (tr @ es) t"
  unfolding queue_authenticated_by_def
proof
  fix h
  assume "h \<in> set (st_accept_queue t)"
  then consider "h \<in> set (st_accept_queue s)" | "h \<in> set (concat (map (surfaces N s) es))"
    using trace_surfaces [OF assms(1)] by auto
  then show "entry_has h (authenticated_by N (tr @ es) h) t"
  proof cases
    case 1
    with assms(2) trace_keeps_authentic [OF assms(1)] show ?thesis by (auto simp: queue_authenticated_by_def)
  next
    case 2
    with trace_authentic [OF assms(1)] authenticated_by_mono show ?thesis by (fastforce simp: entry_has_def)
  qed
qed

lemma runs_authentic:
  "endpoint_runs N s tr t \<Longrightarrow> state_inv s \<Longrightarrow> st_accept_queue s = [] \<Longrightarrow> state_inv t \<and> queue_authenticated_by N tr t"
proof (induction rule: endpoint_runs.induct)
  case runs_start
  then show ?case by (simp add: queue_authenticated_by_def)
next
  case (runs_drain tr t now u es)
  then show ?case using drain_authentic drain_inv.inv_rtranclp drain_steps by blast
next
  case (runs_datagram tr t now a src d u)
  then show ?case using handle_datagram_authentic state_inv_handle_datagram by blast
next
  case (runs_dial tr t peer direct key upgrade_key config now r u)
  then have inv: "state_inv t" "queue_authenticated_by N tr t" by blast+
  from start_connection_authentic [OF runs_dial.hyps(2) inv(1) runs_dial.hyps(4) inv(2)]
    start_connection_inv [OF inv(1) runs_dial.hyps(3,2)] show ?case by blast
next
  case (runs_accept tr t h rest)
  then have inv: "state_inv t" "queue_authenticated_by N tr t" by blast+
  have "state_inv (t\<lparr>st_accept_queue := rest\<rparr>)" using inv(1) runs_accept.hyps(2) by (simp add: inv_defs)
  with inv(2) runs_accept.hyps(2) show ?case by (simp add: queue_authenticated_by_def entry_has_def)
next
  case (runs_other tr t u)
  then show ?case using identities_kept_authentic by (auto simp: identities_kept_def)
qed

text \<open>The operations of the endpoint are such runs.\<close>

lemma same_identity_simps [simp]:
  "same_identity e e" "same_identity e (e\<lparr>ce_conn := c\<rparr>)" "same_identity e (e\<lparr>ce_error := x\<rparr>)"
  "same_identity e (e\<lparr>ce_bi_queue := q\<rparr>)" "same_identity e (e\<lparr>ce_uni_queue := q\<rparr>)"
  by (simp_all add: same_identity_def)

lemma same_identity_ok: "same_identity e e' \<Longrightarrow> entry_ok e \<Longrightarrow> entry_ok e'"
  by (auto simp: same_identity_def entry_ok_def)

lemma identities_kept_same:
  "(state_inv s \<Longrightarrow> state_inv t) \<Longrightarrow> st_conns t = st_conns s \<Longrightarrow> st_accept_queue t = st_accept_queue s \<Longrightarrow> identities_kept s t"
  by (auto simp: identities_kept_def entry_has_def)

lemma identities_kept_map_entries:
  assumes "\<And>e. same_identity e (f e)"
  shows "identities_kept s (map_entries f s)"
proof -
  have "state_inv s \<Longrightarrow> state_inv (map_entries f s)" by (rule state_inv_map_entries) (auto intro: same_identity_ok [OF assms])
  moreover have "st_conns (map_entries f s) = map (\<lambda>(h, e). (h, f e)) (st_conns s)"
      "st_accept_queue (map_entries f s) = st_accept_queue s"
    by (simp_all add: map_entries_def)
  ultimately show ?thesis using assms by (simp add: identities_kept_def entry_has_def map_of_map [unfolded comp_def])
qed

lemma identities_kept_trans:
  assumes "identities_kept s t" and "identities_kept t u"
  shows "identities_kept s u"
proof -
  have "entry_has h (same_identity e) u" if h: "map_of (st_conns s) h = Some e" for h e
  proof -
    from assms(1) h have "entry_has h (same_identity e) t" by (simp add: identities_kept_def)
    then obtain e1 where e1: "map_of (st_conns t) h = Some e1" "same_identity e e1" by (auto simp: entry_has_def)
    from assms(2) e1(1) have "entry_has h (same_identity e1) u" by (simp add: identities_kept_def)
    with e1(2) show ?thesis by (auto simp: entry_has_def same_identity_def)
  qed
  with assms show ?thesis by (simp add: identities_kept_def)
qed

lemma with_entry_identities:
  assumes "with_entry h f s = Inr (x, t)" and "\<And>e. same_identity e (snd (f e))"
  shows "identities_kept s t"
proof -
  obtain e e' where e: "map_of (st_conns s) h = Some e" "t = put_entry h e' s" "same_identity e e'"
    using assms(1) assms(2) by (auto simp: with_entry_def split: option.splits prod.splits) (metis snd_conv)
  have "entry_has h' (same_identity e1) t" if "map_of (st_conns s) h' = Some e1" for h' e1
    using that e by (cases "h' = h") (auto simp: entry_has_def put_entry_other)
  moreover have "state_inv s \<Longrightarrow> state_inv t"
    using e state_inv_put_entry state_inv_entry same_identity_ok by blast
  ultimately show ?thesis using e(2) by (simp add: identities_kept_def)
qed

lemma mark_dead_identities: "identities_kept s (mark_dead reason s)"
proof -
  have "identities_kept s (s\<lparr>st_dead := Some reason\<rparr>)" by (rule identities_kept_same) auto
  then show ?thesis
    unfolding mark_dead_def by (rule identities_kept_trans) (rule identities_kept_map_entries, simp)
qed

lemma close_endpoint_identities: "identities_kept s (close_endpoint N reason now s)"
proof -
  have "identities_kept s (s\<lparr>st_closed := True, st_closed_at := Some now\<rparr>)" by (rule identities_kept_same) auto
  then have "identities_kept s (close_all N now reason (s\<lparr>st_closed := True, st_closed_at := Some now\<rparr>))"
    unfolding close_all_def by (rule identities_kept_trans) (rule identities_kept_map_entries, simp)
  then show ?thesis by (simp add: close_endpoint_def identities_kept_same)
qed

interpretation identity_flush: flush_guarantee identities_kept
proof
  fix s t u :: "('n, 'c) state" and rq uq cq reason
  show "identities_kept s s" "identities_kept s (s\<lparr>st_relay_outbound := rq\<rparr>)" "identities_kept s (s\<lparr>st_udp_outbound := uq\<rparr>)"
      "identities_kept s (s\<lparr>st_channel_outbound := cq\<rparr>)"
    by (auto intro!: identities_kept_same)
  show "identities_kept s u" if "identities_kept s t" "identities_kept t u" using that by (rule identities_kept_trans)
qed (rule mark_dead_identities)

lemma relayed_datagram_runs:
  assumes "addr_for_peer peer via s = (a, s1)" and "handle_datagram N now a src d s1 = Inr t" and "opens_unqueued N now s"
  shows "endpoint_runs N s [] t"
proof -
  have same: "st_conns s1 = st_conns s \<and> st_accept_queue s1 = st_accept_queue s \<and> st_noq s1 = st_noq s"
    using assms(1) by (cases rule: addr_for_peer_cases) auto
  then have "identities_kept s s1" by (intro identities_kept_same) (auto intro: state_inv_addr_for_peer [OF _ assms(1)])
  from runs_other [OF runs_start this] assms(2) show ?thesis
    by (rule runs_datagram) (use assms(3) same in \<open>simp add: opens_unqueued_def\<close>)
qed

lemma on_select_runs:
  assumes "on_select N ev l now s = Inr (res, t)" and "opens_unqueued N now s"
  shows "endpoint_runs N s [] t"
proof -
  note other = runs_other [OF runs_start [of N s]]
  have done_: "\<exists>z. x = Inr z \<and> y = f z" if "map_sum id f x = Inr y" for f :: "'x \<Rightarrow> 'y" and x :: "panic + 'x" and y
    using that by (cases x) auto
  have relay: "endpoint_runs N s [] t" if "handle_relay_datagram N now via src d s = Inr t" for via src d t
    using that relayed_datagram_runs [OF _ _ assms(2)] by (auto simp: handle_relay_datagram_def split: prod.splits)
  have udp: "endpoint_runs N s [] t" if "handle_udp_datagram N now a d s = Inr t" for a d t
    using that runs_datagram [OF runs_start _ assms(2)] by (simp add: handle_udp_datagram_def)
  have channel: "endpoint_runs N s [] t" if "handle_channel_datagram N now cid d s = Inr t" for cid d t
    using that relayed_datagram_runs [OF _ _ assms(2)] runs_start
    by (auto simp: handle_channel_datagram_def split: prod.splits option.splits)
  have signal: "identities_kept s (snd (handle_signal via src d s))" for via src d
    by (rule identities_kept_same) (auto simp: state_inv_handle_signal, auto simp: handle_signal_def Let_def)
  show ?thesis
  proof (cases ev)
    case (RelayReady i r)
    have gone: "identities_kept s (s\<lparr>st_relay_pool := AList.delete key (st_relay_pool s)\<rparr>)" if "key \<noteq> HOME_RELAY" for key
      by (rule identities_kept_same) (use that in \<open>auto intro: state_inv_drop_relay\<close>)
    show ?thesis
    proof (cases r)
      case (Inl err)
      with assms(1) RelayReady other [OF mark_dead_identities] other [OF gone] show ?thesis
        by (auto simp: on_select_def on_relay_ready_def Let_def split: if_splits)
    next
      case (Inr dg)
      have "(\<exists>via src d. handle_relay_datagram N now via src d s = Inr t) \<or> (\<exists>via src d b. handle_signal via src d s = (b, t))"
        using assms(1) RelayReady Inr
        by (auto simp: on_select_def on_relay_ready_def Let_def dest!: done_ split: list.splits if_splits prod.splits)
      with relay other [OF signal] show ?thesis by (metis snd_conv)
    qed
  next
    case (UdpReady r)
    with assms(1) udp runs_start show ?thesis
      by (auto simp: on_select_def on_udp_ready_def dest!: done_ split: sum.splits prod.splits)
  next
    case (ChannelReady i r)
    have retired: "identities_kept s (retire_channel cid s)" for cid
      by (rule identities_kept_same) (auto simp: state_inv_retire_channel, auto simp: retire_channel_def Let_def split: option.splits)
    show ?thesis
      using assms(1) ChannelReady channel other [OF retired] runs_start
      by (auto simp: on_select_def on_channel_ready_def Let_def dest!: done_ split: sum.splits option.splits)
  next
    case TickReady
    have "identities_kept s (handle_timeouts N now s)"
      unfolding handle_timeouts_def by (rule identities_kept_map_entries) (auto split: prod.split option.split)
    with assms(1) TickReady other show ?thesis by (auto simp: on_select_def)
  qed
qed

text \<open>C2. Accepting yields authenticated connections. On any run of an endpoint since its bind, made of drains, datagrams,
  timers, dials, accepts and what leaves the identities of entries alone, with the other tasks going on in that way
  while the call waits: \<open>accept\<close> never panics, and a connection it returns is an incoming, connected one whose peer is the
  key in the TLS certificate of a connection that noq reported as connected under that handle, and is the peer the
  connection was bound to, if it was bound to one. noq's part is that it opens no connection under a handle that
  still waits for acceptance.\<close>

theorem accept_authenticated:
  fixes w :: "(('n, 'c) state, api_answer, api_effect) world"
  assumes "bind D opts = Returned (Inr (er, s0, l))" and "endpoint_runs N s0 tr (w_state w)"
    and "env_respects (\<lambda>s t. \<exists>es. endpoint_runs N s es t) w" and "accept w = (r, w')"
  shows "(r = Waiting \<or> (\<exists>x. r = Done x))
     \<and> (\<exists>es. endpoint_runs N s0 (tr @ es) (w_state w') \<and> state_inv (w_state w')
          \<and> (\<forall>h. r = Done (Inr h) \<longrightarrow> (\<exists>e pid c. map_of (st_conns (w_state w')) h = Some e \<and> ce_accepted_side e
               \<and> ce_connected e \<and> ce_peer e = Some pid
               \<and> Handled h Connected c \<in> set (tr @ es) \<and> tls_peer N c = Some pid
               \<and> (\<forall>x. ce_expected_peer e = Some x \<longrightarrow> x = pid))))"
proof -
  have start: "state_inv s0" "st_accept_queue s0 = []"
    using bind_state [OF assms(1)] by (auto simp: state_inv_new) (simp add: register_relay_def state_new_def Let_def)
  let ?I = "\<lambda>s. \<exists>es. endpoint_runs N s0 (tr @ es) s"
  let ?Q = "\<lambda>x s. \<exists>es. endpoint_runs N s0 (tr @ es) s
      \<and> (\<forall>h. x = Inr h \<longrightarrow> entry_has h (authenticated_by N (tr @ es) h) s)"
  have t: "triple (\<lambda>s t. \<exists>es. endpoint_runs N s es t) (\<lambda>s _. ?I s) (\<lambda>s _. ?I s) (accept :: ('n, 'c, nat result) api_task) (\<lambda>x s _. ?Q x s)"
    unfolding accept_def
  proof (rule triple_wait_until [where I = "\<lambda>_ s _. ?I s"])
    fix k :: unit and n and s :: "('n, 'c) state"
    assume "?I s"
    then obtain es where run: "endpoint_runs N s0 (tr @ es) s" by blast
    show "(\<exists>x k' s'. check_accept k n s = Inr (Some x, k', s') \<and> ?Q x s')
        \<or> (\<exists>k' s'. check_accept k n s = Inr (None, k', s') \<and> ?I s')"
    proof (cases "st_accept_queue s")
      case Nil
      with run show ?thesis by (auto simp: check_accept_def)
    next
      case (Cons h rest)
      have "entry_has h (authenticated_by N (tr @ es) h) (s\<lparr>st_accept_queue := rest\<rparr>)"
        using runs_authentic [OF run start] Cons by (simp add: queue_authenticated_by_def entry_has_def)
      with runs_accept [OF run Cons] Cons show ?thesis by (auto simp: check_accept_def)
    qed
  next
    fix s t and l :: "api_effect list"
    assume "?I s" and "\<exists>es. endpoint_runs N s es t"
    then show "?I t" using endpoint_runs_trans by (metis append_assoc)
  qed auto
  have "?I (w_state w)" using assms(2) by (intro exI [of _ "[]"]) simp
  note out = tripleD [where P = "\<lambda>s _. ?I s", OF t assms(3) this assms(4)]
  have inv: "state_inv (w_state w')" if "endpoint_runs N s0 (tr @ es) (w_state w')" for es
    using runs_authentic [OF that start] by blast
  show ?thesis
  proof (cases r)
    case (Done x)
    with out(1) obtain es where es: "endpoint_runs N s0 (tr @ es) (w_state w')"
        "\<forall>h. x = Inr h \<longrightarrow> entry_has h (authenticated_by N (tr @ es) h) (w_state w')"
      by blast
    have "\<exists>e pid c. map_of (st_conns (w_state w')) h = Some e \<and> ce_accepted_side e
        \<and> ce_connected e \<and> ce_peer e = Some pid \<and> Handled h Connected c \<in> set (tr @ es) \<and> tls_peer N c = Some pid
        \<and> (\<forall>x. ce_expected_peer e = Some x \<longrightarrow> x = pid)" if "r = Done (Inr h)" for h
      using es(2) Done that unfolding entry_has_def authenticated_by_def by blast
    with Done inv [OF es(1)] es(1) show ?thesis by blast
  next
    case Waiting
    with out(3) obtain es where "endpoint_runs N s0 (tr @ es) (w_state w')" by blast
    with Waiting inv show ?thesis by blast
  qed (use out(4,5) in blast)+
qed

text \<open>
  The queue's authenticity needs noq not to hand out a handle that is still queued: a datagram
  that opens a connection under such a handle replaces the authenticated entry, and \<open>accept\<close>
  then returns a connection that has no peer.
\<close>

lemma reused_handle_unauthenticated:
  fixes w :: "(('n, 'c) state, api_answer, api_effect) world"
  assumes "nq_handle N now a d (st_noq s) = (Some (NewConnection i), buf, n)"
    and "nq_accept N i now n = (Inr (h, c), buf', n')" and "\<not> st_closed s"
    and "st_accept_queue s = h # hs"
  shows "\<exists>s'. handle_datagram N now a src d s = Inr s'
           \<and> (w_state w = s' \<longrightarrow> (\<exists>w'. accept w = (Done (Inr h), w')
                \<and> (\<exists>s''. conn_peer h (w_state w') = Inr ([], s''))))"
  using assms
  by (auto simp: handle_datagram_def accept_def wait_until.simps [of check_accept] check_accept_def conn_peer_def
      with_entry_def conn_entry_new_def update_conv')

subsection \<open>Nobody waits on a failed connection\<close>

lemma check_entry_None:
  "check_entry h f k n s = Inr (None, k', s') \<Longrightarrow>
     \<exists>e e'. map_of (st_conns s) h = Some e \<and> f k e = (None, k', e') \<and> s' = put_entry h e' s"
  by (auto simp: check_entry_def with_entry_def split: option.splits sum.splits prod.splits)

lemma waiting_entry:
  assumes "wait_until (check_entry h f) k w = (Waiting, w')"
  shows "\<exists>k e k' e'. f k e = (None, k', e') \<and> map_of (st_conns (w_state w')) h = Some e'"
  using wait_until_Waiting [OF assms] by (fastforce dest!: check_entry_None)

lemma received_datagram_None: "received_datagram N k e = (None, k', e') \<Longrightarrow> ce_error e' = None"
  by (cases "nc_datagrams_recv N (ce_conn e)"; cases "fst (nc_datagrams_recv N (ce_conn e))")
     (auto simp: received_datagram_def)

text \<open>A task that ends at its first look, without waiting for anything.\<close>

definition ends_now :: "('s, 'r, 'e, 'a) task \<Rightarrow> ('s, 'r, 'e) world \<Rightarrow> bool" where
  "ends_now t w \<longleftrightarrow> (\<exists>x w'. t w = (Done x, w') \<and> w_script w' = w_script w)"

lemma wait_until_ends_now: "check k (w_now w) (w_state w) = Inr (Some x, k', s') \<Longrightarrow> ends_now (wait_until check k) w"
  by (simp add: ends_now_def wait_until.simps)

lemma check_entry_ends_now:
  assumes "map_of (st_conns (w_state w)) h = Some e" and "f k e = (Some x, k', e')"
  shows "ends_now (wait_until (check_entry h f) k) w"
  by (rule wait_until_ends_now, rule check_entry_Inr [where f = f, OF assms])

lemma errored_entry_ends_waits:
  assumes "entry_has h (\<lambda>e. ce_error e \<noteq> None) (w_state w)"
  shows "ends_now (wait_closed h) w" and "ends_now (open_stream N h d) w" and "ends_now (accept_stream h d) w"
    and "ends_now (conn_recv_datagram N h) w"
proof -
  obtain e err where e: "map_of (st_conns (w_state w)) h = Some e" "ce_error e = Some err"
    using assms by (auto simp: entry_has_def)
  show "ends_now (wait_closed h) w"
    unfolding wait_closed_def by (rule check_entry_ends_now [OF e(1)]) (simp add: fully_closed_def e(2))
  show "ends_now (open_stream N h d) w"
    unfolding open_stream_def by (rule check_entry_ends_now [OF e(1)]) (simp add: opened_stream_def e(2))
  obtain x e' where "accepted_stream d () e = (Some x, (), e')"
    using e(2) by (cases d; cases "ce_bi_queue e"; cases "ce_uni_queue e") (auto simp: accepted_stream_def)
  then show "ends_now (accept_stream h d) w"
    unfolding accept_stream_def by (rule check_entry_ends_now [OF e(1)])
  obtain y e'' where "received_datagram N () e = (Some y, (), e'')"
    using e(2) by (cases "nc_datagrams_recv N (ce_conn e)"; cases "fst (nc_datagrams_recv N (ce_conn e))")
      (auto simp: received_datagram_def)
  then show "ends_now (conn_recv_datagram N h) w"
    unfolding conn_recv_datagram_def by (rule check_entry_ends_now [OF e(1)])
qed

lemma closed_ends_accept: "is_closed_or_dead (w_state w) \<Longrightarrow> ends_now accept w"
  unfolding accept_def
  by (cases "st_accept_queue (w_state w)")
    (auto intro!: wait_until_ends_now simp: check_accept_def is_closed_or_dead_def)

lemma home_death_errors:
  assumes "i < length (pl_relays l)" and "fst (pl_relays l ! i) = HOME_RELAY"
    and "on_select N (RelayReady i (Inl err)) l now s = Inr (res, s')" and "map_of (st_conns s) h \<noteq> None"
  shows "is_closed_or_dead s' \<and> entry_has h (\<lambda>e. ce_error e \<noteq> None) s'"
proof -
  have "s' = mark_dead err s" using assms(1-3) by (auto simp: on_select_def on_relay_ready_def Let_def)
  moreover obtain e where "map_of (st_conns (mark_dead err s)) h = Some e"
    using assms(4) by (auto simp: mark_dead_def map_entries_def map_of_map [unfolded comp_def])
  ultimately show ?thesis using mark_dead_errors [OF map_of_SomeD]
    by (auto simp: mark_dead_def is_closed_or_dead_def entry_has_def map_entries_def)
qed

text \<open>C5. No wait outlives an error of its connection. While \<open>accept\<close> waits, the endpoint is neither closed nor dead and
  nothing is queued; while a method of a connection waits, that connection has no error (is not drained, for
  \<open>wait_closed\<close>, and has no stream queued, for an accept). An entry with an error ends each method of it at its first
  look, and a closed or dead endpoint ends \<open>accept\<close>. So when the home relay fails, the pump's handling of that
  leaves nothing to wait for: every method of every connection, and \<open>accept\<close>, end at once. (A close of
  the endpoint puts no error on a connection: after the pump has lingered, \<open>wait_closed\<close> may wait for ever, which is
  shown below.)\<close>

theorem waits_end_on_errors:
  "(accept w = (Waiting, w') \<longrightarrow> \<not> is_closed_or_dead (w_state w') \<and> st_accept_queue (w_state w') = [])
   \<and> (wait_closed h w = (Waiting, w') \<longrightarrow> entry_has h (\<lambda>e. ce_error e = None \<and> \<not> ce_drained e) (w_state w'))
   \<and> (open_stream N h d w = (Waiting, w') \<longrightarrow> entry_has h (\<lambda>e. ce_error e = None) (w_state w'))
   \<and> (accept_stream h d w = (Waiting, w') \<longrightarrow>
        entry_has h (\<lambda>e. ce_error e = None \<and> (if d = Bi then ce_bi_queue e else ce_uni_queue e) = []) (w_state w'))
   \<and> (conn_recv_datagram N h w = (Waiting, w') \<longrightarrow> entry_has h (\<lambda>e. ce_error e = None) (w_state w'))
   \<and> (entry_has h (\<lambda>e. ce_error e \<noteq> None) (w_state w) \<longrightarrow>
        ends_now (wait_closed h) w \<and> ends_now (open_stream N h d) w \<and> ends_now (accept_stream h d) w
        \<and> ends_now (conn_recv_datagram N h) w)
   \<and> (is_closed_or_dead (w_state w) \<longrightarrow> ends_now accept w)
   \<and> (i < length (pl_relays l) \<and> fst (pl_relays l ! i) = HOME_RELAY \<and> map_of (st_conns s) h \<noteq> None
        \<and> on_select N (RelayReady i (Inl err)) l now s = Inr (res, w_state w) \<longrightarrow>
        ends_now accept w \<and> ends_now (wait_closed h) w \<and> ends_now (open_stream N h d) w
        \<and> ends_now (accept_stream h d) w \<and> ends_now (conn_recv_datagram N h) w)"
proof (intro conjI impI)
  assume "accept w = (Waiting, w')"
  then show "\<not> is_closed_or_dead (w_state w')" "st_accept_queue (w_state w') = []"
    unfolding accept_def
    by (fastforce simp: check_accept_def is_closed_or_dead_def split: list.splits if_splits dest!: wait_until_Waiting)+
next
  assume "wait_closed h w = (Waiting, w')"
  from waiting_entry [OF this [unfolded wait_closed_def]]
  show "entry_has h (\<lambda>e. ce_error e = None \<and> \<not> ce_drained e) (w_state w')"
    by (auto simp: entry_has_def fully_closed_def split: if_splits)
next
  assume "open_stream N h d w = (Waiting, w')"
  from waiting_entry [OF this [unfolded open_stream_def]]
  show "entry_has h (\<lambda>e. ce_error e = None) (w_state w')"
    by (auto simp: entry_has_def opened_stream_def split: option.splits prod.splits)
next
  assume "accept_stream h d w = (Waiting, w')"
  from waiting_entry [OF this [unfolded accept_stream_def]]
  show "entry_has h (\<lambda>e. ce_error e = None \<and> (if d = Bi then ce_bi_queue e else ce_uni_queue e) = []) (w_state w')"
    by (cases d) (auto simp: entry_has_def accepted_stream_def split: list.splits, (metis list.exhaust)+)
next
  assume "conn_recv_datagram N h w = (Waiting, w')"
  from waiting_entry [OF this [unfolded conn_recv_datagram_def]]
  show "entry_has h (\<lambda>e. ce_error e = None) (w_state w')"
    by (auto simp: entry_has_def dest: received_datagram_None)
next
  assume "entry_has h (\<lambda>e. ce_error e \<noteq> None) (w_state w)"
  then show "ends_now (wait_closed h) w" "ends_now (open_stream N h d) w" "ends_now (accept_stream h d) w"
      "ends_now (conn_recv_datagram N h) w"
    by (fact errored_entry_ends_waits)+
next
  assume "is_closed_or_dead (w_state w)"
  then show "ends_now accept w" by (fact closed_ends_accept)
next
  assume "i < length (pl_relays l) \<and> fst (pl_relays l ! i) = HOME_RELAY \<and> map_of (st_conns s) h \<noteq> None
      \<and> on_select N (RelayReady i (Inl err)) l now s = Inr (res, w_state w)"
  then have dead: "is_closed_or_dead (w_state w)" "entry_has h (\<lambda>e. ce_error e \<noteq> None) (w_state w)"
    using home_death_errors by blast+
  show "ends_now accept w" using dead(1) by (rule closed_ends_accept)
  show "ends_now (wait_closed h) w" "ends_now (open_stream N h d) w" "ends_now (accept_stream h d) w"
      "ends_now (conn_recv_datagram N h) w"
    using dead(2) by (fact errored_entry_ends_waits)+
qed

text \<open>
  The errors come from the pump, which may stop first: once it has lingered after a close it
  exits with connections neither drained nor errored, and a \<open>wait_closed\<close> on one of them then
  waits for ever, since nothing else changes the entry.
\<close>

lemma linger_exit_strands_wait_closed:
  fixes w :: "(('n, 'c) state, api_answer, api_effect) world"
  assumes "st_closed s" and "st_closed_at s = Some closing" and "LINGER \<le> now - closing"
    and "map_of (st_conns s) h = Some e" and "ce_error e = None" and "\<not> ce_drained e"
    and "w_state w = s" and "env_respects (\<lambda>s t. st_conns t = st_conns s) w"
  shows "pump_exits now s \<and> fst (wait_closed h w) = Waiting"
proof
  show "pump_exits now s" using assms(1-3) by (simp add: pump_exits_def)
  let ?I = "\<lambda>(s :: ('n, 'c) state). map_of (st_conns s) h = Some e"
  have "triple (\<lambda>s t. st_conns t = st_conns s) (\<lambda>_ _. True) (\<lambda>s _. ?I s) (wait_closed h :: ('n, 'c, unit) api_task)
      (\<lambda>_ _ _. False)"
    unfolding wait_closed_def
    by (rule triple_wait_until [where I = "\<lambda>_ s _. ?I s"])
       (use assms(5,6) in \<open>auto simp: check_entry_Inr [where f = fully_closed] fully_closed_def put_entry_id\<close>)
  moreover obtain r w' where "wait_closed h w = (r, w')" by force
  ultimately show "fst (wait_closed h w) = Waiting"
    using tripleD [of _ _ "\<lambda>s _. ?I s" "wait_closed h" _ w r w'] assms(4,7,8) by (cases r) auto
qed

text \<open>
  A foreign relay that died leaves the pool but keeps its URL: a later dial through that URL is
  given the dead key, and its packets are dropped.
\<close>

lemma dead_relay_key_returned:
  assumes "i < length (pl_relays l)" and "key = fst (pl_relays l ! i)" and "key \<noteq> HOME_RELAY"
    and "st_relay_keys s (normalize_relay_url url) = Some key" and "w_state w = s'"
    and "on_select N (RelayReady i (Inl err)) l now s = Inr ((broke, l', effs), s')"
  shows "map_of (st_relay_pool s') key = None \<and> ensure_relay url w = (Done (Inr key), w)"
proof -
  have "st_relay_keys s' = st_relay_keys s \<and> map_of (st_relay_pool s') key = None"
    using assms(1-3,6) by (auto simp: on_select_def on_relay_ready_def Let_def delete_conv')
  with assms(4,5) ensure_relay_known [of w url key] show ?thesis by simp
qed

subsection \<open>Witnesses\<close>

definition toy_api :: "(nat, toy_conn, bytes, event, nat, bytes) noq_api" where
  "toy_api =
     noq.extend toy_noq (noq_api.fields
       (\<lambda>now config transport a name n. (Inr (n, toy_start config), n + 1))
       (\<lambda>d c. (None, c))
       (\<lambda>c. None)
       (\<lambda>c. Some 1162)
       (\<lambda>data c. (Inr (), c))
       (\<lambda>c. (None, c)))"

definition toy_deps :: "(unit, bytes, bytes) connect_deps" where
  "toy_deps =
     \<lparr>cd_parse = (\<lambda>_. Inl ''no''), cd_external = (\<lambda>_. Inr ()), cd_rpk_client_config = (\<lambda>_ peer _. Inr peer),
      cd_quic_client = Inr\<rparr>"

definition toy_endpoint :: endpoint_res where
  "toy_endpoint = \<lparr>er_identity = sample_identity, er_udp = None\<rparr>"

definition toy_addr :: endpoint_addr where
  "toy_addr = \<lparr>ea_endpoint_id = replicate 32 9, ea_addrs = []\<rparr>"

text \<open>The pump, as far as the dial sees it: it handles the handshake of connection 0.\<close>

definition toy_handshake :: "(nat, toy_conn) state \<Rightarrow> (nat, toy_conn) state" where
  "toy_handshake s =
     (case map_of (st_conns s) 0 of
        None \<Rightarrow> s
      | Some e \<Rightarrow> put_entry 0 (fst (on_connected toy_noq 0 0 e [])) s)"

definition toy_api_world :: "((nat, toy_conn) state, api_answer, api_effect) world" where
  "toy_api_world =
     \<lparr>w_now = 0, w_state = toy_state False,
      w_script = [(\<lparr>aa_relay = Inr 5, aa_stream_read = (True, []), aa_stream_remaining = []\<rparr>, 1, toy_handshake)],
      w_log = []\<rparr>"

lemma toy_handshake_kept: "api_kept s (toy_handshake s)"
proof (cases "map_of (st_conns s) 0")
  case (Some e)
  obtain e' q where ev: "on_connected toy_noq 0 0 e [] = (e', q)" by force
  then have "on_event toy_noq 0 0 Connected e [] = Some (e', q)" by (simp add: on_event_def)
  note eff = on_event_effect [OF this]
  have "state_inv s \<Longrightarrow> state_inv (put_entry 0 e' s)"
    using eff(6) state_inv_entry [OF _ Some] by (simp add: state_inv_put_entry)
  moreover have "entry_has h (\<lambda>x. ce_expected_peer x = ce_expected_peer y) (put_entry 0 e' s)"
    if "map_of (st_conns s) h = Some y" for h y
    using that Some eff(1) by (cases "h = 0") (auto simp: entry_has_def put_entry_other)
  ultimately show ?thesis using Some ev by (simp add: toy_handshake_def api_kept_def put_entry_def)
qed (simp add: toy_handshake_def api.rely_refl)

lemma toy_api_env: "env_respects api_kept toy_api_world" "state_inv (w_state toy_api_world)"
  using toy_handshake_kept toy_state_inv by (simp_all add: env_respects_def toy_api_world_def)

lemma toy_connect:
  "\<exists>w'. connect toy_api toy_deps toy_endpoint toy_addr [104, 51] toy_api_world = (Done (Inr 0), w')"
  by (simp add: connect_def toy_api_def toy_deps_def toy_endpoint_def toy_addr_def toy_api_world_def
      try_into_array_def and_then_def try_then_def access_def choose_path_def dial_key_task_def upgrade_key_task_def
      ret_def client_quic_def client_config_def rpk_identity_def start_connection_def dial_target_def
      addr_for_peer_def Let_def noq.defs noq_api.defs wait_until.simps check_entry_def with_entry_def connected_or_error_def
      conn_entry_new_def toy_handshake_def on_connected_def tls_peer_def endpoint_id_from_spki_def toy_start_def
      map_err_def put_entry_def update_conv')

theorem connect_authenticates_witness:
  "\<exists>w' e. connect toy_api toy_deps toy_endpoint toy_addr [104, 51] toy_api_world = (Done (Inr 0), w')
     \<and> map_of (st_conns (w_state w')) 0 = Some e \<and> ce_peer e = Some (replicate 32 9)"
proof -
  obtain w' where run: "connect toy_api toy_deps toy_endpoint toy_addr [104, 51] toy_api_world = (Done (Inr 0), w')"
    using toy_connect by blast
  from run connect_authenticates [OF run toy_api_env(2,1)] show ?thesis by (auto simp: toy_addr_def)
qed

definition toy_bind_deps :: "(nat, unit, unit, unit) bind_deps" where
  "toy_bind_deps =
     \<lparr>bd_relay_connect = (\<lambda>_ _. Returned (Inr 7)), bd_reset_key = Inr [1], bd_token_master = Inr [2],
      bd_external = (\<lambda>_. Inr ()), bd_rpk_server_config = (\<lambda>_ _. Inr ()), bd_quic_server = (\<lambda>_. Inr ()),
      bd_noq_new = (\<lambda>_ _ _ _. 0), bd_udp_host = sample_udp_host\<rparr>"

definition toy_options :: options_state where
  "toy_options = set_relay_url ''https://home'' (add_alpn [104, 51] (options_new \<lparr>inner = sample_identity\<rparr>))"

theorem bind_starts_soundly_witness:
  "\<exists>er (s :: (nat, toy_conn) state) l. bind toy_bind_deps toy_options = Returned (Inr (er, s, l))
     \<and> state_inv s \<and> listening l s \<and> st_relay_pool s = [(HOME_RELAY, 7)]"
proof -
  obtain er and s :: "(nat, toy_conn) state" and l
    where run: "bind toy_bind_deps toy_options = Returned (Inr (er, s, l))"
    by (simp add: bind_def toy_options_def toy_bind_deps_def options_new_def add_alpn_def set_relay_url_def
        bind_noq_def server_config_def rpk_identity_def map_err_def bind_udp_def)
  with bind_starts_soundly [OF run] show ?thesis by (auto simp: toy_bind_deps_def)
qed

theorem ensure_relay_shares_open_witness:
  "\<exists>w' w1. ensure_relay ''https://far'' toy_api_world = (Done (Inr 1), w')
     \<and> w_log w' = [OpenRelay ''https://far'']
     \<and> st_relay_keys (w_state w') (normalize_relay_url ''https://far'') = Some 1
     \<and> ensure_relay ''https://far'' (toy_api_world\<lparr>w_script := []\<rparr>) = (Waiting, w1)
     \<and> w_log w1 = [OpenRelay ''https://far''] \<and> w_log (snd (ensure_relay ''https://far'' w1)) = w_log w1"
proof -
  have fresh: "st_relay_keys (toy_state False) (normalize_relay_url ''https://far'') = None"
    "st_relay_opening (toy_state False) = {}" "st_next_relay_key (toy_state False) = 1"
    by (simp_all add: toy_state_def register_relay_def state_new_def Let_def normalize_relay_url_def)
  have "st_next_relay_key (toy_handshake s) = st_next_relay_key s" for s
    by (simp add: toy_handshake_def put_entry_def split: option.split)
  with fresh obtain w' where run: "ensure_relay ''https://far'' toy_api_world = (Done (Inr 1), w')"
    by (simp add: ensure_relay_def toy_api_world_def and_then_def access_def claim_relay_def is_closed_or_dead_def
        emit_def await_def finish_open_def register_relay_def Let_def)
  have tracked: "opens_tracked (w_state toy_api_world, [])" "opens_tracked (w_state (toy_api_world\<lparr>w_script := []\<rparr>), [])"
    using fresh by (simp_all add: opens_tracked_def toy_api_world_def)
  from fresh obtain w1 where parked: "ensure_relay ''https://far'' (toy_api_world\<lparr>w_script := []\<rparr>) = (Waiting, w1)"
      and log: "w_log w1 = [OpenRelay ''https://far'']"
    by (simp add: ensure_relay_def toy_api_world_def and_then_def access_def claim_relay_def is_closed_or_dead_def
        emit_def await_def)
  have "w_log (snd (ensure_relay ''https://far'' w1)) = w_log w1"
    using ensure_relay_shares_open [OF parked tracked(2)] log
    by (simp add: toy_api_world_def) (metis list.set_intros(1) rtranclp.rtrancl_refl)
  moreover from run ensure_relay_shares_open [OF run tracked(1)] fresh have
      "w_log w' = [OpenRelay ''https://far'']" "st_relay_keys (w_state w') (normalize_relay_url ''https://far'') = Some 1"
    by (simp_all add: toy_api_world_def is_closed_or_dead_def)
  ultimately show ?thesis using run parked log by blast
qed

definition toy_accept_world :: "((nat, toy_conn) state, api_answer, api_effect) world" where
  "toy_accept_world = \<lparr>w_now = 0, w_state = toy_busy, w_script = [], w_log = []\<rparr>"

theorem waits_end_on_errors_witness:
  "\<exists>w'. wait_closed 0 toy_accept_world = (Waiting, w')
     \<and> entry_has 0 (\<lambda>e. ce_error e = None \<and> \<not> ce_drained e) (w_state w')"
proof -
  obtain w' where run: "wait_closed 0 toy_accept_world = (Waiting, w')"
    by (simp add: wait_closed_def toy_accept_world_def wait_until.simps check_entry_def with_entry_def fully_closed_def
        toy_busy_fields toy_peer_entry_def conn_entry_new_def)
  from run waits_end_on_errors [of toy_accept_world w' 0] show ?thesis by blast
qed

text \<open>A server: bound, it gets the datagram that opens a connection and the one that completes its handshake, and
  the pump drains it while \<open>accept\<close> waits.\<close>

lemma toy_api_simps [simp]:
  "nq_handle toy_api = nq_handle toy_noq" "nq_accept toy_api = nq_accept toy_noq"
  "nq_handle_event toy_api = nq_handle_event toy_noq" "nc_handle_event toy_api = nc_handle_event toy_noq"
  "nc_poll_endpoint_events toy_api = nc_poll_endpoint_events toy_noq" "nc_poll toy_api = nc_poll toy_noq"
  "nc_poll_transmit toy_api = nc_poll_transmit toy_noq" "nc_is_drained toy_api = nc_is_drained toy_noq"
  "nc_handshake_data toy_api = nc_handshake_data toy_noq" "nc_peer_identity toy_api = nc_peer_identity toy_noq"
  "spki_key toy_api = spki_key toy_noq"
  by (simp_all add: toy_api_def noq.defs noq_api.defs toy_noq_def)

definition toy_pump_drain :: "(nat, toy_conn) state \<Rightarrow> (nat, toy_conn) state" where
  "toy_pump_drain s = (case drain toy_api 0 s of Some (Inr t) \<Rightarrow> t | _ \<Rightarrow> s)"

lemma toy_pump_drain_runs: "\<exists>es. endpoint_runs toy_api s es (toy_pump_drain s)"
proof -
  have "\<exists>es. endpoint_runs toy_api s es t" if "drain toy_api 0 s = Some (Inr t)" for t
    using conn_steps_trace [OF drain_steps [OF that]] runs_drain [OF runs_start that] by blast
  moreover have "endpoint_runs toy_api s [] s" by (rule runs_start)
  ultimately show ?thesis unfolding toy_pump_drain_def by (auto split: option.split sum.split)
qed

definition toy_greeted :: "toy_conn conn_entry" where
  "toy_greeted = conn_entry_new ((toy_start [9])\<lparr>tc_events := [Connected]\<rparr>) None True"

lemma toy_greeted_drain:
  assumes "st_conns s = [(0, toy_greeted)]" and "st_accept_queue s = []"
  shows "st_accept_queue (toy_pump_drain s) = [0]"
proof -
  define e1 where "e1 = toy_greeted\<lparr>ce_conn := toy_start [9], ce_alpn := [104, 51], ce_peer := Some [9], ce_connected := True\<rparr>"
  define s1 where "s1 = s\<lparr>st_accept_queue := [0]\<rparr>"
  note defs = toy_greeted_def toy_start_def conn_entry_new_def
  have empty: "tc_to_endpoint (ce_conn e1) = []" "tc_transmits (ce_conn e1) = []"
      "tc_to_endpoint (ce_conn toy_greeted) = []" "tc_transmits (ce_conn toy_greeted) = []" "\<not> tc_closed (ce_conn e1)"
    by (simp_all add: e1_def defs)
  have quiet: "endpoint_events_loop toy_api 0 e s p = Some (e, s, p)" "transmit_loop toy_api 0 e s p = Some (Inr (e, s, p))"
    if "tc_to_endpoint (ce_conn e) = []" "tc_transmits (ce_conn e) = []" for e p and s :: "(nat, toy_conn) state"
    using that by (subst endpoint_events_loop.simps, simp, subst transmit_loop.simps, simp)
  have app: "app_events_loop toy_api 0 0 toy_greeted s False = Some (e1, s1, True)"
    by (subst app_events_loop.simps)
       (simp add: e1_def s1_def defs on_event_def on_connected_def tls_peer_def endpoint_id_from_spki_def assms(2),
        subst app_events_loop.simps, simp)
  have idle: "app_events_loop toy_api 0 0 e1 s1 False = Some (e1, s1, False)"
    by (subst app_events_loop.simps) (simp add: e1_def toy_start_def)
  have "drain_conn toy_api 0 0 e1 s1 = Some (Inr (e1, s1))"
    by (subst drain_conn.simps) (simp add: quiet idle empty)
  then have "drain_conn toy_api 0 0 toy_greeted s = Some (Inr (e1, s1))"
    by (subst drain_conn.simps) (simp add: quiet app empty)
  then show ?thesis
    by (simp add: toy_pump_drain_def drain_def assms(1) s1_def)
qed

theorem accept_authenticated_witness:
  "\<exists>er (s0 :: (nat, toy_conn) state) l s1 s2 w' e.
     bind toy_bind_deps toy_options = Returned (Inr (er, s0, l))
     \<and> handle_datagram toy_api 0 (V4 (1, 2, 3, 4) 5) None [1, 9] s0 = Inr s1
     \<and> handle_datagram toy_api 0 (V4 (1, 2, 3, 4) 5) None [2] s1 = Inr s2
     \<and> accept \<lparr>w_now = 0, w_state = s2,
          w_script = [(\<lparr>aa_relay = Inr 5, aa_stream_read = (True, []), aa_stream_remaining = []\<rparr>, 1, toy_pump_drain)],
          w_log = []\<rparr> = (Done (Inr 0), w')
     \<and> map_of (st_conns (w_state w')) 0 = Some e \<and> ce_accepted_side e \<and> ce_connected e"
proof -
  obtain er and s0 :: "(nat, toy_conn) state" and l
    where bound: "bind toy_bind_deps toy_options = Returned (Inr (er, s0, l))"
      and s0: "st_noq s0 = 0" "st_conns s0 = []" "st_accept_queue s0 = []" "\<not> st_closed s0" "st_dead s0 = None"
    by (simp add: bind_def toy_options_def toy_bind_deps_def options_new_def add_alpn_def set_relay_url_def
        bind_noq_def server_config_def rpk_identity_def map_err_def bind_udp_def register_relay_def state_new_def Let_def)
  obtain s1 where s1: "handle_datagram toy_api 0 (V4 (1, 2, 3, 4) 5) None [1, 9] s0 = Inr s1"
      "st_conns s1 = [(0, conn_entry_new (toy_start [9]) None True)]"
      "st_accept_queue s1 = []" "\<not> st_closed s1" "st_dead s1 = None"
    using s0 by (simp add: handle_datagram_def toy_noq_def)
  obtain s2 where s2: "handle_datagram toy_api 0 (V4 (1, 2, 3, 4) 5) None [2] s1 = Inr s2"
      "st_conns s2 = [(0, toy_greeted)]" "st_accept_queue s2 = []" "\<not> st_closed s2" "st_dead s2 = None"
    using s1 by (simp add: handle_datagram_def toy_noq_def toy_greeted_def conn_entry_new_def toy_start_def)
  have run: "endpoint_runs toy_api s0 [] s2"
    by (rule runs_datagram [OF runs_datagram [OF runs_start s1(1)] s2(1)])
      (use s0(3) s1(3) in \<open>simp_all add: opens_unqueued_def\<close>)
  let ?w = "\<lparr>w_now = 0, w_state = s2,
      w_script = [(\<lparr>aa_relay = Inr 5, aa_stream_read = (True, []), aa_stream_remaining = []\<rparr>, 1, toy_pump_drain)],
      w_log = []\<rparr> :: ((nat, toy_conn) state, api_answer, api_effect) world"
  have env: "env_respects (\<lambda>s t. \<exists>es. endpoint_runs toy_api s es t) ?w"
    by (simp add: env_respects_def toy_pump_drain_runs)
  obtain w' where acc: "accept ?w = (Done (Inr 0), w')"
    using s2 toy_greeted_drain [OF s2(2,3)] by (simp add: accept_def wait_until.simps check_accept_def)
  have "\<exists>e. map_of (st_conns (w_state w')) 0 = Some e \<and> ce_accepted_side e \<and> ce_connected e"
    using accept_authenticated [OF bound _ env acc, of "[]"] run by auto
  with bound s1(1) s2(1) acc show ?thesis by blast
qed

end
