(* ===== verification/Streams.thy ===== *)
theory Streams
  imports Endpoint_Api
begin

text \<open>
  Model of the stream resources of \<open>endpoint/src/endpoint_impl.rs\<close>: \<open>write_all\<close> and
  \<open>read_some\<close>, the methods of a send stream (\<open>write\<close>, \<open>finish\<close>, \<open>reset\<close>,
  \<open>write_via_stream\<close>) and of a receive stream (\<open>read\<close>, \<open>stop\<close>, \<open>read_via_stream\<close> with the
  task it spawns). The stream operations of noq are arguments; what they do to the bytes of a
  stream is stated as two named hypotheses.
\<close>

section \<open>Definitions\<close>

subsection \<open>Stream operations of noq\<close>

text \<open>The errors carry the text of their application code.\<close>

datatype write_error = WriteBlocked | WriteStopped string | WriteClosedStream

datatype finish_error = FinishStopped string | FinishClosedStream

datatype readable_error = ReadableClosedStream | IllegalOrderedRead

datatype read_error = ReadBlocked | ReadReset string

text \<open>
  \<open>nc_recv_read\<close> is one exchange with a receive stream: open an ordered read, take the next
  chunk of at most that many bytes, finalize.
\<close>

record ('n, 'c, 'i, 'ce, 'ee, 'cfg) noq_streams = "('n, 'c, 'i, 'ce, 'ee, 'cfg) noq_api" +
  nc_send_write :: "nat \<Rightarrow> bytes \<Rightarrow> 'c \<Rightarrow> (write_error + nat) \<times> 'c"
  nc_send_finish :: "nat \<Rightarrow> 'c \<Rightarrow> (finish_error + unit) \<times> 'c"
  nc_send_reset :: "nat \<Rightarrow> u32 \<Rightarrow> 'c \<Rightarrow> 'c"
  nc_recv_read :: "bool \<Rightarrow> nat \<Rightarrow> nat \<Rightarrow> 'c \<Rightarrow> (readable_error + (read_error + bytes option)) \<times> 'c"
  nc_recv_stop :: "nat \<Rightarrow> u32 \<Rightarrow> 'c \<Rightarrow> 'c"

subsection \<open>Writing\<close>

text \<open>
  The loop inside the polled closure of \<open>write_all\<close>. Slicing past the end panics; the offset is
  the closure's own variable and survives from one poll to the next.
\<close>

function write_loop ::
  "('n, 'c, 'i, 'ce, 'ee, 'cfg, 'z) noq_streams_scheme \<Rightarrow> nat \<Rightarrow> bytes \<Rightarrow> nat \<Rightarrow> 'c
     \<Rightarrow> panic + unit result option \<times> nat \<times> 'c" where
  "write_loop N sid bs offset c =
     (if length bs < offset then Inl SliceOutOfRange
      else
        (case nc_send_write N sid (drop offset bs) c of
           (Inr written, c') \<Rightarrow>
             if offset + written = length bs then Inr (Some (Inr ()), offset + written, c')
             else if written = 0 then Inr (None, offset + written, c')
             else write_loop N sid bs (offset + written) c'
         | (Inl WriteBlocked, c') \<Rightarrow> Inr (None, offset, c')
         | (Inl (WriteStopped code), c') \<Rightarrow> Inr (Some (Inl (Reset code)), offset, c')
         | (Inl WriteClosedStream, c') \<Rightarrow> Inr (Some (Inl Closed), offset, c')))"
  by pat_completeness auto
termination
  by (relation "measure (\<lambda>(N, sid, bs, offset, c). Suc (length bs) - offset)") auto

declare write_loop.simps [simp del]

definition check_write ::
  "('n, 'c, 'i, 'ce, 'ee, 'cfg, 'z) noq_streams_scheme \<Rightarrow> nat \<Rightarrow> nat \<Rightarrow> bytes
     \<Rightarrow> nat \<Rightarrow> nat \<Rightarrow> ('n, 'c) state \<Rightarrow> panic + unit result option \<times> nat \<times> ('n, 'c) state" where
  "check_write N handle sid bs offset now s =
     (case map_of (st_conns s) handle of
        None \<Rightarrow> Inl (ExpectFailed ''connection entry'')
      | Some e \<Rightarrow>
          (case ce_error e of
             Some err \<Rightarrow> Inr (Some (Inl err), offset, s)
           | None \<Rightarrow>
               (case write_loop N sid bs offset (ce_conn e) of
                  Inl p \<Rightarrow> Inl p
                | Inr (r, offset', c) \<Rightarrow> Inr (r, offset', put_entry handle (e\<lparr>ce_conn := c\<rparr>) s))))"

definition write_all ::
  "('n, 'c, 'i, 'ce, 'ee, 'cfg, 'z) noq_streams_scheme \<Rightarrow> nat \<Rightarrow> nat \<Rightarrow> bytes \<Rightarrow> ('n, 'c, unit result) api_task" where
  "write_all N handle sid bs = wait_until (check_write N handle sid bs) 0"

subsection \<open>Reading\<close>

definition read_entry ::
  "('n, 'c, 'i, 'ce, 'ee, 'cfg, 'z) noq_streams_scheme \<Rightarrow> nat \<Rightarrow> nat \<Rightarrow> unit \<Rightarrow> 'c conn_entry
     \<Rightarrow> bytes option result option \<times> unit \<times> 'c conn_entry" where
  "read_entry N sid limit k e =
     (case ce_error e of
        Some err \<Rightarrow> (Some (if err = Closed then Inr None else Inl err), k, e)
      | None \<Rightarrow>
          (case nc_recv_read N True sid limit (ce_conn e) of
             (r, c) \<Rightarrow>
               (case r of
                  Inl ReadableClosedStream \<Rightarrow> Some (Inr None)
                | Inl IllegalOrderedRead \<Rightarrow> Some (Inl (Other ''illegal ordered read''))
                | Inr (Inr chunk) \<Rightarrow> Some (Inr chunk)
                | Inr (Inl ReadBlocked) \<Rightarrow> None
                | Inr (Inl (ReadReset code)) \<Rightarrow> Some (Inl (Reset code)), k, e\<lparr>ce_conn := c\<rparr>)))"

definition read_some ::
  "('n, 'c, 'i, 'ce, 'ee, 'cfg, 'z) noq_streams_scheme \<Rightarrow> nat \<Rightarrow> nat \<Rightarrow> nat \<Rightarrow> ('n, 'c, bytes option result) api_task" where
  "read_some N handle sid limit = wait_until (check_entry handle (read_entry N sid limit)) ()"

subsection \<open>Send streams\<close>

definition send_stream_write ::
  "('n, 'c, 'i, 'ce, 'ee, 'cfg, 'z) noq_streams_scheme \<Rightarrow> send_stream_res \<Rightarrow> bytes \<Rightarrow> ('n, 'c, unit result) api_task" where
  "send_stream_write N st bs = write_all N (ss_handle st) (ss_id st) bs"

definition send_stream_finish ::
  "('n, 'c, 'i, 'ce, 'ee, 'cfg, 'z) noq_streams_scheme \<Rightarrow> send_stream_res \<Rightarrow> ('n, 'c) state
     \<Rightarrow> panic + unit result \<times> ('n, 'c) state" where
  "send_stream_finish N st =
     with_entry (ss_handle st) (\<lambda>e.
       case ce_error e of
         Some err \<Rightarrow> (Inl err, e)
       | None \<Rightarrow>
           (case nc_send_finish N (ss_id st) (ce_conn e) of
              (r, c) \<Rightarrow>
                (map_err (\<lambda>err. case err of FinishStopped code \<Rightarrow> Reset code | FinishClosedStream \<Rightarrow> Closed) r,
                 e\<lparr>ce_conn := c\<rparr>)))"

definition send_stream_reset ::
  "('n, 'c, 'i, 'ce, 'ee, 'cfg, 'z) noq_streams_scheme \<Rightarrow> send_stream_res \<Rightarrow> u32 \<Rightarrow> ('n, 'c) state
     \<Rightarrow> panic + unit \<times> ('n, 'c) state" where
  "send_stream_reset N st code =
     with_entry (ss_handle st) (\<lambda>e. ((), e\<lparr>ce_conn := nc_send_reset N (ss_id st) code (ce_conn e)\<rparr>))"

text \<open>One turn of \<open>write_via_stream\<close>: read the caller's stream, write what came, go on unless it ended.\<close>

definition via_turn ::
  "('n, 'c, 'i, 'ce, 'ee, 'cfg, 'z) noq_streams_scheme \<Rightarrow> send_stream_res \<Rightarrow> ('n, 'c, bool result) api_task" where
  "via_turn N st =
     and_then (await aa_stream_read) (\<lambda>(ended, buf).
     and_then (emit [TookIn buf]) (\<lambda>_.
     try_then (if buf = [] then ret (Inr ()) else write_all N (ss_handle st) (ss_id st) buf) (\<lambda>_.
       ret (Inr (\<not> ended)))))"

definition write_via_stream ::
  "('n, 'c, 'i, 'ce, 'ee, 'cfg, 'z) noq_streams_scheme \<Rightarrow> send_stream_res \<Rightarrow> ('n, 'c, unit result) api_task" where
  "write_via_stream N st =
     try_then (repeat_while (via_turn N st)) (\<lambda>_. access_or_panic (\<lambda>_. send_stream_finish N st))"

subsection \<open>Receive streams\<close>

definition recv_stream_read ::
  "('n, 'c, 'i, 'ce, 'ee, 'cfg, 'z) noq_streams_scheme \<Rightarrow> recv_stream_res \<Rightarrow> u32 \<Rightarrow> ('n, 'c, bytes option result) api_task" where
  "recv_stream_read N st limit =
     (if rs_streaming st then ret (Inl (Other ''the stream's bytes were taken by read-via-stream''))
      else if limit = 0 then ret (Inr (Some []))
      else read_some N (rs_handle st) (rs_id st) (unat limit))"

definition recv_stream_stop ::
  "('n, 'c, 'i, 'ce, 'ee, 'cfg, 'z) noq_streams_scheme \<Rightarrow> recv_stream_res \<Rightarrow> u32 \<Rightarrow> ('n, 'c) state
     \<Rightarrow> panic + unit \<times> ('n, 'c) state" where
  "recv_stream_stop N st code =
     with_entry (rs_handle st) (\<lambda>e. ((), e\<lparr>ce_conn := nc_recv_stop N (rs_id st) code (ce_conn e)\<rparr>))"

text \<open>The spawned task: forward chunks to the reader until it is gone or the stream ends.\<close>

definition forward_turn ::
  "('n, 'c, 'i, 'ce, 'ee, 'cfg, 'z) noq_streams_scheme \<Rightarrow> nat \<Rightarrow> nat \<Rightarrow> ('n, 'c, bool result) api_task" where
  "forward_turn N handle sid =
     and_then (read_some N handle sid 16384) (\<lambda>r.
       case r of
         Inr (Some bs) \<Rightarrow>
           and_then (emit [WriteOut bs]) (\<lambda>_.
           and_then (await aa_stream_remaining) (\<lambda>remaining. ret (Inr (remaining = []))))
       | _ \<Rightarrow> ret (Inr False))"

definition forward ::
  "('n, 'c, 'i, 'ce, 'ee, 'cfg, 'z) noq_streams_scheme \<Rightarrow> nat \<Rightarrow> nat \<Rightarrow> ('n, 'c, unit result) api_task" where
  "forward N handle sid = repeat_while (forward_turn N handle sid)"

text \<open>\<open>read_via_stream\<close> takes the stream's bytes once and spawns that task on the stream.\<close>

definition read_via_stream :: "recv_stream_res \<Rightarrow> (nat \<times> nat) result \<times> recv_stream_res" where
  "read_via_stream st =
     (if rs_streaming st then (Inl (Other ''read-via-stream may be called once''), st)
      else (Inr (rs_handle st, rs_id st), st\<lparr>rs_streaming := True\<rparr>))"

section \<open>Lemmas\<close>

subsection \<open>What a stream has taken\<close>

text \<open>
  The bytes a send stream has accepted so far, as a function \<open>sent\<close> of the connection: a write
  appends the part it took, and neither failed writes nor \<open>finish\<close> change them.
\<close>

definition stream_sends ::
  "('n, 'c, 'i, 'ce, 'ee, 'cfg, 'z) noq_streams_scheme \<Rightarrow> ('c \<Rightarrow> nat \<Rightarrow> bytes) \<Rightarrow> bool" where
  "stream_sends N sent \<longleftrightarrow>
     (\<forall>sid bs c r c'. nc_send_write N sid bs c = (r, c') \<longrightarrow>
        (case r of
           Inr n \<Rightarrow> n \<le> length bs \<and> sent c' sid = sent c sid @ take n bs
         | Inl _ \<Rightarrow> sent c' sid = sent c sid))
     \<and> (\<forall>sid c r c'. nc_send_finish N sid c = (r, c') \<longrightarrow> sent c' sid = sent c sid)"

text \<open>The bytes a receive stream has handed out so far, likewise.\<close>

definition stream_reads ::
  "('n, 'c, 'i, 'ce, 'ee, 'cfg, 'z) noq_streams_scheme \<Rightarrow> ('c \<Rightarrow> nat \<Rightarrow> bytes) \<Rightarrow> bool" where
  "stream_reads N got \<longleftrightarrow>
     (\<forall>ordered sid limit c r c'. nc_recv_read N ordered sid limit c = (r, c') \<longrightarrow>
        got c' sid = got c sid @ (case r of Inr (Inr (Some bs)) \<Rightarrow> bs | _ \<Rightarrow> []))"

text \<open>That function at the entry of a connection, and other tasks leaving it alone.\<close>

definition at_conn :: "('c \<Rightarrow> nat \<Rightarrow> bytes) \<Rightarrow> nat \<Rightarrow> nat \<Rightarrow> ('n, 'c) state \<Rightarrow> bytes option" where
  "at_conn f handle sid s = map_option (\<lambda>e. f (ce_conn e) sid) (map_of (st_conns s) handle)"

definition stream_kept :: "('c \<Rightarrow> nat \<Rightarrow> bytes) \<Rightarrow> nat \<Rightarrow> nat \<Rightarrow> ('n, 'c) state \<Rightarrow> ('n, 'c) state \<Rightarrow> bool" where
  "stream_kept f handle sid s t \<longleftrightarrow> (at_conn f handle sid s \<noteq> None \<longrightarrow> at_conn f handle sid t = at_conn f handle sid s)"

interpretation stream_env: rely_guarantee "stream_kept f handle sid" for f handle sid
  by unfold_locales (auto simp: stream_kept_def)

lemma at_conn_kept: "at_conn f h sid s = Some x \<Longrightarrow> stream_kept f h sid s t \<Longrightarrow> at_conn f h sid t = Some x"
  by (simp add: stream_kept_def)

lemma at_conn_put [simp]: "at_conn f h sid (put_entry h e s) = Some (f (ce_conn e) sid)"
  by (simp add: at_conn_def)

lemma at_connD:
  "at_conn f h sid s = Some x \<Longrightarrow> \<exists>e. map_of (st_conns s) h = Some e \<and> f (ce_conn e) sid = x"
  by (auto simp: at_conn_def)

subsection \<open>Writes\<close>

lemma write_loop_sends:
  assumes "stream_sends N sent" and "offset \<le> length bs" and "sent c sid = before @ take offset bs"
  shows "\<exists>r offset' c'. write_loop N sid bs offset c = Inr (r, offset', c')
     \<and> offset' \<le> length bs \<and> sent c' sid = before @ take offset' bs \<and> (r = Some (Inr ()) \<longrightarrow> offset' = length bs)"
  using assms(2,3)
proof (induction "length bs - offset" arbitrary: offset c rule: less_induct)
  case less
  obtain r c' where w: "nc_send_write N sid (drop offset bs) c = (r, c')" by force
  show ?case
  proof (cases r)
    case (Inr n)
    with w assms(1) have n: "n \<le> length bs - offset" "sent c' sid = sent c sid @ take n (drop offset bs)"
      unfolding stream_sends_def by force+
    then have sent: "sent c' sid = before @ take (offset + n) bs" using less.prems(2) by (simp add: take_add)
    have le: "offset + n \<le> length bs" using n less.prems(1) by simp
    show ?thesis
    proof (cases "offset + n = length bs \<or> n = 0")
      case True
      with w Inr sent le less.prems show ?thesis by (subst write_loop.simps) auto
    next
      case False
      then have "length bs - (offset + n) < length bs - offset" using le by linarith
      from less.hyps [OF this le sent] obtain r' o' c2 where
        "write_loop N sid bs (offset + n) c' = Inr (r', o', c2)" "o' \<le> length bs"
        "sent c2 sid = before @ take o' bs" "r' = Some (Inr ()) \<longrightarrow> o' = length bs"
        by blast
      with w Inr False less.prems show ?thesis by (subst write_loop.simps) auto
    qed
  next
    case (Inl e)
    with w assms(1) have "sent c' sid = sent c sid" unfolding stream_sends_def by force
    with w Inl less.prems show ?thesis by (subst write_loop.simps) (auto split: write_error.split)
  qed
qed

text \<open>How far a write got: a prefix of the bytes was accepted, all of them when it succeeded.\<close>

definition wrote ::
  "('c \<Rightarrow> nat \<Rightarrow> bytes) \<Rightarrow> nat \<Rightarrow> nat \<Rightarrow> bytes \<Rightarrow> bytes \<Rightarrow> ('n, 'c) state \<Rightarrow> bool" where
  "wrote sent h sid before bs s \<longleftrightarrow> (\<exists>n\<le>length bs. at_conn sent h sid s = Some (before @ take n bs))"

lemma triple_write_all:
  fixes N :: "('n, 'c, 'i, 'ce, 'ee, 'cfg, 'z) noq_streams_scheme"
  assumes "stream_sends N sent"
  shows "triple (stream_kept sent h sid) (\<lambda>s _. wrote sent h sid before bs s)
     (\<lambda>s l. at_conn sent h sid s = Some before \<and> P l) (write_all N h sid bs)
     (\<lambda>r s l. wrote sent h sid before bs s \<and> (r = Inr () \<longrightarrow> at_conn sent h sid s = Some (before @ bs)) \<and> P l)"
  unfolding write_all_def
proof (rule triple_wait_until [where I = "\<lambda>offset s l. offset \<le> length bs
      \<and> at_conn sent h sid s = Some (before @ take offset bs) \<and> P l"])
  fix offset n l and s :: "('n, 'c) state"
  assume s: "offset \<le> length bs \<and> at_conn sent h sid s = Some (before @ take offset bs) \<and> P l"
  then obtain e where e: "map_of (st_conns s) h = Some e" "sent (ce_conn e) sid = before @ take offset bs"
    by (auto dest: at_connD)
  obtain r o' c' where w: "write_loop N sid bs offset (ce_conn e) = Inr (r, o', c')" "o' \<le> length bs"
    "sent c' sid = before @ take o' bs" "r = Some (Inr ()) \<longrightarrow> o' = length bs"
    using write_loop_sends [OF assms] s e(2) by blast
  show "(\<exists>x k' s'. check_write N h sid bs offset n s = Inr (Some x, k', s')
        \<and> wrote sent h sid before bs s' \<and> (x = Inr () \<longrightarrow> at_conn sent h sid s' = Some (before @ bs)) \<and> P l)
      \<or> (\<exists>k' s'. check_write N h sid bs offset n s = Inr (None, k', s')
        \<and> k' \<le> length bs \<and> at_conn sent h sid s' = Some (before @ take k' bs) \<and> P l)"
  proof (cases "ce_error e")
    case None
    then have "check_write N h sid bs offset n s = Inr (r, o', put_entry h (e\<lparr>ce_conn := c'\<rparr>) s)"
      using e(1) w(1) by (simp add: check_write_def)
    with w s show ?thesis by (cases r) (auto simp: wrote_def)
  next
    case (Some err)
    with e(1) s show ?thesis by (auto simp: check_write_def wrote_def)
  qed
qed (auto simp: wrote_def intro: at_conn_kept)

text \<open>C3. A write refines an append: however the writes are cut up by flow control and
  interleaved with other tasks, the stream accepts the caller's bytes in order and once; at any
  moment it holds a prefix of them after what it held before, and all of them when the write
  returns success. It never slices out of range. The hypothesis on noq is that one write
  appends the part it took.\<close>

theorem write_all_appends:
  assumes "stream_sends N sent" and "at_conn sent h sid (w_state w) = Some before"
    and "env_respects (stream_kept sent h sid) w" and "write_all N h sid bs w = (r, w')"
  shows "(r = Waiting \<or> (\<exists>x. r = Done x))
     \<and> (\<exists>n\<le>length bs. at_conn sent h sid (w_state w') = Some (before @ take n bs)
          \<and> (r = Done (Inr ()) \<longrightarrow> n = length bs))"
proof -
  note t = tripleD [OF triple_write_all [OF assms(1), where P = "\<lambda>_. True"] assms(3) _ assms(4), of before]
  show ?thesis
  proof (cases r)
    case Waiting
    with t(3) assms(2) show ?thesis by (auto simp: wrote_def)
  next
    case (Done x)
    with t(1) [OF _ Done] assms(2) show ?thesis by (cases "x = Inr ()") (auto simp: wrote_def)
  qed (use t(4,5) assms(2) in auto)
qed

text \<open>The bytes read from the caller's stream and the bytes written to a reader, from the log.\<close>

definition taken :: "api_effect list \<Rightarrow> bytes" where
  "taken l = concat (map (\<lambda>e. case e of TookIn bs \<Rightarrow> bs | _ \<Rightarrow> []) l)"

definition written :: "api_effect list \<Rightarrow> bytes" where
  "written l = concat (map (\<lambda>e. case e of WriteOut bs \<Rightarrow> bs | _ \<Rightarrow> []) l)"

lemma log_simps [simp]:
  "taken [] = []" "taken (l @ l') = taken l @ taken l'" "taken [TookIn bs] = bs"
  "written [] = []" "written (l @ l') = written l @ written l'" "written [WriteOut bs] = bs"
  by (simp_all add: taken_def written_def)

text \<open>
  A relayed stream: what the stream holds after \<open>before\<close> is exactly what the log added after
  \<open>l0\<close> amounts to, or a prefix of it while a write is under way.
\<close>

definition relayed ::
  "('c \<Rightarrow> nat \<Rightarrow> bytes) \<Rightarrow> (api_effect list \<Rightarrow> bytes) \<Rightarrow> nat \<Rightarrow> nat \<Rightarrow> bytes \<Rightarrow> api_effect list
     \<Rightarrow> ('n, 'c) state \<Rightarrow> api_effect list \<Rightarrow> bool" where
  "relayed f content h sid before l0 s l \<longleftrightarrow>
     (\<exists>l'. l = l0 @ l' \<and> at_conn f h sid s = Some (before @ content l'))"

definition relayed_prefix ::
  "('c \<Rightarrow> nat \<Rightarrow> bytes) \<Rightarrow> (api_effect list \<Rightarrow> bytes) \<Rightarrow> nat \<Rightarrow> nat \<Rightarrow> bytes \<Rightarrow> api_effect list
     \<Rightarrow> ('n, 'c) state \<Rightarrow> api_effect list \<Rightarrow> bool" where
  "relayed_prefix f content h sid before l0 s l \<longleftrightarrow>
     (\<exists>l' n. l = l0 @ l' \<and> at_conn f h sid s = Some (before @ take n (content l')))"

lemma relayed_prefixI: "relayed f content h sid before l0 s l \<Longrightarrow> relayed_prefix f content h sid before l0 s l"
  unfolding relayed_def relayed_prefix_def by (metis take_all_iff order_refl)

lemma relayed_kept:
  "relayed f content h sid before l0 s l \<Longrightarrow> stream_kept f h sid s t \<Longrightarrow> relayed f content h sid before l0 t l"
  by (auto simp: relayed_def intro: at_conn_kept)

lemma triple_via_write:
  fixes N :: "('n, 'c, 'i, 'ce, 'ee, 'cfg, 'z) noq_streams_scheme"
  assumes "stream_sends N sent"
  shows "triple (stream_kept sent h sid) (relayed_prefix sent taken h sid before l0)
     (\<lambda>s l. \<exists>l'. l = l0 @ l' @ [TookIn buf] \<and> at_conn sent h sid s = Some (before @ taken l'))
     (write_all N h sid buf :: ('n, 'c, unit result) api_task)
     (\<lambda>r s l. relayed_prefix sent taken h sid before l0 s l
        \<and> (r = Inr () \<longrightarrow> relayed sent taken h sid before l0 s l))"
proof (rule tripleI)
  fix w w' :: "(('n, 'c) state, api_answer, api_effect) world" and r
  assume w: "env_respects (stream_kept sent h sid) w" "write_all N h sid buf w = (r, w')"
    and "\<exists>l'. w_log w = l0 @ l' @ [TookIn buf] \<and> at_conn sent h sid (w_state w) = Some (before @ taken l')"
  then obtain l' where l': "w_log w = l0 @ l' @ [TookIn buf]" "at_conn sent h sid (w_state w) = Some (before @ taken l')"
    by blast
  have log: "w_log w' = l0 @ l' @ [TookIn buf]"
    using w(2) wait_until_log [of "check_write N h sid buf" 0 w] l'(1) by (simp add: write_all_def)
  note t = tripleD [OF triple_write_all [OF assms, where P = "\<lambda>_. True"] w(1) _ w(2), of "before @ taken l'"]
  have prefix: "relayed_prefix sent taken h sid before l0 (w_state w') (w_log w')"
    if "wrote sent h sid (before @ taken l') buf (w_state w')"
  proof -
    obtain n where "at_conn sent h sid (w_state w') = Some ((before @ taken l') @ take n buf)"
      using \<open>wrote sent h sid (before @ taken l') buf (w_state w')\<close> by (auto simp: wrote_def)
    then show ?thesis
      unfolding relayed_prefix_def log
      by (intro exI [of _ "l' @ [TookIn buf]"] exI [of _ "length (taken l') + n"]) simp
  qed
  show "case r of Done x \<Rightarrow> (relayed_prefix sent taken h sid before l0 (w_state w') (w_log w')
        \<and> (x = Inr () \<longrightarrow> relayed sent taken h sid before l0 (w_state w') (w_log w')))
        \<and> env_respects (stream_kept sent h sid) w'
      | Waiting \<Rightarrow> relayed_prefix sent taken h sid before l0 (w_state w') (w_log w') | _ \<Rightarrow> False"
  proof (cases r)
    case (Done x)
    with t(1,2) [OF _ Done] l'(2) prefix show ?thesis by (auto simp: log relayed_def)
  qed (use t(3-5) l'(2) prefix in auto)
qed

lemma triple_via_turn:
  fixes N :: "('n, 'c, 'i, 'ce, 'ee, 'cfg, 'z) noq_streams_scheme"
  assumes "stream_sends N sent" and "ss_handle st = h" and "ss_id st = sid"
  shows "triple (stream_kept sent h sid) (relayed_prefix sent taken h sid before l0)
     (relayed sent taken h sid before l0) (via_turn N st)
     (\<lambda>r s l. case r of Inr True \<Rightarrow> relayed sent taken h sid before l0 s l
        | Inr False \<Rightarrow> relayed sent taken h sid before l0 s l
        | Inl e \<Rightarrow> relayed_prefix sent taken h sid before l0 s l)"
proof -
  let ?rel = "relayed sent taken h sid before l0" and ?pre = "relayed_prefix sent taken h sid before l0"
  let ?took = "\<lambda>buf (s :: ('n, 'c) state) l. \<exists>l'. l = l0 @ l' @ [TookIn buf]
      \<and> at_conn sent h sid s = Some (before @ taken l')"
  have wr: "triple (stream_kept sent h sid) ?pre (?took buf)
      (if buf = [] then ret (Inr ()) else write_all N h sid buf :: ('n, 'c, unit result) api_task)
      (\<lambda>r s l. ?pre s l \<and> (r = Inr () \<longrightarrow> ?rel s l))" for buf
  proof (cases "buf = []")
    case True
    have "?rel s l" if took: "?took [] s l" for s l
    proof -
      obtain l' where "l = l0 @ l' @ [TookIn []]" "at_conn sent h sid s = Some (before @ taken l')" using took by blast
      then show ?thesis unfolding relayed_def by (intro exI [of _ "l' @ [TookIn []]"]) simp
    qed
    with True show ?thesis by (auto intro!: triple_ret intro: relayed_prefixI)
  qed (use triple_via_write [OF assms(1)] in simp)
  have turn: "triple (stream_kept sent h sid) ?pre ?rel
      (and_then (emit [TookIn buf]) (\<lambda>_.
       try_then (if buf = [] then ret (Inr ()) else write_all N h sid buf) (\<lambda>_. ret (Inr (\<not> ended))))
       :: ('n, 'c, bool result) api_task)
      (\<lambda>r s l. case r of Inr True \<Rightarrow> ?rel s l | Inr False \<Rightarrow> ?rel s l | Inl e \<Rightarrow> ?pre s l)" for ended buf
    by (rule triple_and_then [OF triple_emit triple_try_then [OF wr]])
       (auto simp: relayed_def intro!: triple_ret split: bool.split)
  have "triple (stream_kept sent h sid) ?pre ?rel (await aa_stream_read :: ('n, 'c, bool \<times> bytes) api_task)
      (\<lambda>_. ?rel)"
    by (rule triple_await) (auto intro: relayed_kept relayed_prefixI)
  then show ?thesis
    unfolding via_turn_def assms(2,3)
    by (rule triple_and_then) (simp only: case_prod_beta turn)
qed

lemma consumes_write_all [simp]: "consumes (write_all N h sid bs)"
  by (simp add: write_all_def)

lemma consumes_prod_case [simp]: "(\<And>a b. consumes (f a b)) \<Longrightarrow> consumes (case x of (a, b) \<Rightarrow> f a b)"
  by (simp split: prod.split)

lemma via_turn_awaits: "awaits (via_turn N st)"
  unfolding via_turn_def by (rule awaits_first) auto

lemma triple_finish:
  assumes "stream_sends N sent" and "ss_handle st = h" and "ss_id st = sid"
  shows "triple R W (relayed sent taken h sid before l0) (access_or_panic (\<lambda>_. send_stream_finish N st))
     (\<lambda>_. relayed sent taken h sid before l0)"
proof (rule triple_access_or_panic)
  fix l and s :: "('a, 'b) state"
  assume s: "relayed sent taken h sid before l0 s l"
  then obtain l' e where l': "l = l0 @ l'" and e: "map_of (st_conns s) h = Some e"
    "sent (ce_conn e) sid = before @ taken l'"
    by (auto simp: relayed_def dest!: at_connD)
  obtain r c where f: "nc_send_finish N sid (ce_conn e) = (r, c)" by force
  then have "sent c sid = sent (ce_conn e) sid" using assms(1) unfolding stream_sends_def by blast
  with e f l' assms(2,3) show "\<exists>x s'. send_stream_finish N st s = Inr (x, s') \<and> relayed sent taken h sid before l0 s' l"
    by (cases "ce_error e") (auto simp: send_stream_finish_def with_entry_def relayed_def)
qed

lemma triple_write_via_stream:
  fixes N :: "('n, 'c, 'i, 'ce, 'ee, 'cfg, 'z) noq_streams_scheme"
  assumes "stream_sends N sent" and "ss_handle st = h" and "ss_id st = sid"
  shows "triple (stream_kept sent h sid) (relayed_prefix sent taken h sid before l0)
     (relayed sent taken h sid before l0) (write_via_stream N st)
     (\<lambda>r s l. relayed_prefix sent taken h sid before l0 s l
        \<and> (r = Inr () \<longrightarrow> relayed sent taken h sid before l0 s l))"
proof -
  let ?rel = "relayed sent taken h sid before l0" and ?pre = "relayed_prefix sent taken h sid before l0"
  have loop: "triple (stream_kept sent h sid) ?pre ?rel (repeat_while (via_turn N st))
      (\<lambda>r s l. case r of Inr _ \<Rightarrow> ?rel s l | Inl e \<Rightarrow> ?pre s l)"
    by (rule triple_repeat_while [OF triple_weaken [OF triple_via_turn [OF assms]] awaitsD [OF via_turn_awaits]])
       (auto split: sum.splits bool.splits)
  show ?thesis
    unfolding write_via_stream_def
    by (rule triple_try_then [OF loop])
       (auto intro: triple_weaken [OF triple_finish [OF assms]] relayed_prefixI)
qed

text \<open>Writing from a byte stream relays it: what the send stream has accepted beyond its
  earlier bytes is at any moment a prefix of what was read from the caller's stream, in order and
  once, and all of it when the method reports success, after which the stream is finished.\<close>

theorem write_via_stream_relays:
  assumes "stream_sends N sent" and "at_conn sent (ss_handle st) (ss_id st) (w_state w) = Some before"
    and "env_respects (stream_kept sent (ss_handle st) (ss_id st)) w" and "write_via_stream N st w = (r, w')"
  shows "(r = Waiting \<or> (\<exists>x. r = Done x))
     \<and> (\<exists>l' n. w_log w' = w_log w @ l' \<and> n \<le> length (taken l')
          \<and> at_conn sent (ss_handle st) (ss_id st) (w_state w') = Some (before @ take n (taken l'))
          \<and> (r = Done (Inr ()) \<longrightarrow> n = length (taken l')))"
proof -
  let ?rel = "relayed sent taken (ss_handle st) (ss_id st) before (w_log w)"
  let ?pre = "relayed_prefix sent taken (ss_handle st) (ss_id st) before (w_log w)"
  have start: "?rel (w_state w) (w_log w)" using assms(2) by (auto simp: relayed_def)
  note t = tripleD [OF triple_write_via_stream [OF assms(1) refl refl] assms(3) start assms(4)]
  have pre: "\<exists>l' n. w_log w' = w_log w @ l' \<and> n \<le> length (taken l')
      \<and> at_conn sent (ss_handle st) (ss_id st) (w_state w') = Some (before @ take n (taken l'))"
    if "?pre (w_state w') (w_log w')"
  proof -
    obtain l' n where "w_log w' = w_log w @ l'"
      "at_conn sent (ss_handle st) (ss_id st) (w_state w') = Some (before @ take n (taken l'))"
      using \<open>?pre (w_state w') (w_log w')\<close> by (auto simp: relayed_prefix_def)
    then show ?thesis
      by (intro exI [of _ l'] exI [of _ "min n (length (taken l'))"]) (simp add: min_def)
  qed
  show ?thesis
  proof (cases "r = Done (Inr ())")
    case True
    from t(1) [OF True] obtain l' where "w_log w' = w_log w @ l'"
      "at_conn sent (ss_handle st) (ss_id st) (w_state w') = Some (before @ taken l')"
      by (auto simp: relayed_def)
    with True show ?thesis by (intro conjI exI [of _ l'] exI [of _ "length (taken l')"]) auto
  next
    case False
    with t pre show ?thesis by (cases r) auto
  qed
qed

subsection \<open>Reads\<close>

lemma read_entry_got:
  assumes "stream_reads N got" and "read_entry N sid limit k e = (x, k', e')"
  shows "got (ce_conn e') sid = got (ce_conn e) sid @ (case x of Some (Inr (Some bs)) \<Rightarrow> bs | _ \<Rightarrow> [])"
proof (cases "ce_error e")
  case None
  obtain r c where r: "nc_recv_read N True sid limit (ce_conn e) = (r, c)" by force
  then have "got c sid = got (ce_conn e) sid @ (case r of Inr (Inr (Some bs)) \<Rightarrow> bs | _ \<Rightarrow> [])"
    using assms(1) unfolding stream_reads_def by blast
  with r None assms(2) show ?thesis
    by (auto simp: read_entry_def split: sum.splits readable_error.splits read_error.splits option.splits)
next
  case (Some err)
  with assms(2) show ?thesis by (auto simp: read_entry_def split: if_splits)
qed

lemma triple_read_some:
  fixes N :: "('n, 'c, 'i, 'ce, 'ee, 'cfg, 'z) noq_streams_scheme"
  assumes "stream_reads N got"
  shows "triple (stream_kept got h sid) (relayed got written h sid before l0)
     (relayed got written h sid before l0) (read_some N h sid limit)
     (\<lambda>r s l. case r of
        Inr (Some bs) \<Rightarrow> (\<exists>l'. l = l0 @ l' \<and> at_conn got h sid s = Some (before @ written l' @ bs))
      | _ \<Rightarrow> relayed got written h sid before l0 s l)"
  unfolding read_some_def
proof (rule triple_wait_until [where I = "\<lambda>_. relayed got written h sid before l0"])
  fix k :: unit and n l and s :: "('n, 'c) state"
  assume "relayed got written h sid before l0 s l"
  then obtain l' e where l': "l = l0 @ l'" and e: "map_of (st_conns s) h = Some e"
    "got (ce_conn e) sid = before @ written l'"
    by (auto simp: relayed_def dest!: at_connD)
  obtain x k1 e' where x: "read_entry N sid limit k e = (x, k1, e')" by (metis prod_cases3)
  have ck: "check_entry h (read_entry N sid limit) k n s = Inr (x, k1, put_entry h e' s)"
    by (rule check_entry_Inr [where f = "read_entry N sid limit", OF e(1) x])
  have got: "got (ce_conn e') sid = before @ written l' @ (case x of Some (Inr (Some bs)) \<Rightarrow> bs | _ \<Rightarrow> [])"
    using read_entry_got [OF assms x] e(2) by simp
  show "(\<exists>x k' s'. check_entry h (read_entry N sid limit) k n s = Inr (Some x, k', s')
        \<and> (case x of Inr (Some bs) \<Rightarrow> (\<exists>l'. l = l0 @ l' \<and> at_conn got h sid s' = Some (before @ written l' @ bs))
           | _ \<Rightarrow> relayed got written h sid before l0 s' l))
      \<or> (\<exists>k' s'. check_entry h (read_entry N sid limit) k n s = Inr (None, k', s')
        \<and> relayed got written h sid before l0 s' l)"
  proof (cases x)
    case None
    with got l' have "relayed got written h sid before l0 (put_entry h e' s) l" by (simp add: relayed_def)
    with ck None show ?thesis by blast
  next
    case (Some y)
    with got l' have "case y of
        Inr (Some bs) \<Rightarrow> (\<exists>l'. l = l0 @ l' \<and> at_conn got h sid (put_entry h e' s) = Some (before @ written l' @ bs))
      | _ \<Rightarrow> relayed got written h sid before l0 (put_entry h e' s) l"
      by (simp add: relayed_def split: sum.split option.split)
    with ck Some show ?thesis by blast
  qed
qed (auto intro: relayed_kept)

lemma consumes_read_some [simp]: "consumes (read_some N h sid limit)"
  by (simp add: read_some_def)

lemma forward_turn_goes_on:
  assumes "forward_turn N h sid w = (Done (Inr True), w')"
  shows "length (w_script w') < length (w_script w)"
proof -
  obtain r w1 where r: "read_some N h sid 16384 w = (Done r, w1)"
    and rest: "(case r of
         Inr (Some bs) \<Rightarrow>
           and_then (emit [WriteOut bs]) (\<lambda>_.
           and_then (await aa_stream_remaining) (\<lambda>remaining. ret (Inr (remaining = []))))
       | _ \<Rightarrow> ret (Inr False)) w1 = (Done (Inr True :: bool result), w')"
    using assms by (auto simp: forward_turn_def and_then_Done)
  have le: "length (w_script w1) \<le> length (w_script w)" by (rule consumesD [OF consumes_read_some r])
  have aw: "awaits (and_then (emit [WriteOut bs]) (\<lambda>_.
      and_then (await aa_stream_remaining) (\<lambda>remaining. ret (Inr (remaining = []) :: bool result))))" for bs
    by (intro awaits_then awaits_first) auto
  have "length (w_script w') < length (w_script w1)"
    using rest by (auto simp: ret_def split: sum.splits option.splits dest: awaitsD [OF aw])
  with le show ?thesis by simp
qed

lemma triple_forward:
  fixes N :: "('n, 'c, 'i, 'ce, 'ee, 'cfg, 'z) noq_streams_scheme"
  assumes "stream_reads N got"
  shows "triple (stream_kept got h sid) (relayed got written h sid before l0)
     (relayed got written h sid before l0) (forward N h sid)
     (\<lambda>_. relayed got written h sid before l0)"
proof -
  let ?rel = "relayed got written h sid before l0"
  let ?read = "\<lambda>bs (s :: ('n, 'c) state) l. \<exists>l'. l = l0 @ l' \<and> at_conn got h sid s = Some (before @ written l' @ bs)"
  have wrote: "?rel s (l @ [WriteOut bs])" if read: "?read bs s l" for s l bs
  proof -
    obtain l' where "l = l0 @ l'" "at_conn got h sid s = Some (before @ written l' @ bs)" using read by blast
    then show ?thesis unfolding relayed_def by (intro exI [of _ "l' @ [WriteOut bs]"]) simp
  qed
  have hand: "triple (stream_kept got h sid) ?rel (?read bs)
      (and_then (emit [WriteOut bs]) (\<lambda>_.
       and_then (await aa_stream_remaining) (\<lambda>remaining. ret (Inr (remaining = [])))) :: ('n, 'c, bool result) api_task)
      (\<lambda>_. ?rel)" for bs
  proof (rule triple_and_then)
    show "triple (stream_kept got h sid) ?rel (?read bs) (emit [WriteOut bs]) (\<lambda>_. ?rel)"
      by (rule triple_emit) (rule wrote)
    show "triple (stream_kept got h sid) ?rel ?rel
        (and_then (await aa_stream_remaining) (\<lambda>remaining. ret (Inr (remaining = []))) :: ('n, 'c, bool result) api_task)
        (\<lambda>_. ?rel)"
      by (rule triple_and_then [where M = "\<lambda>_. ?rel"]) (auto intro!: triple_await triple_ret intro: relayed_kept)
  qed
  have turn: "triple (stream_kept got h sid) ?rel ?rel (forward_turn N h sid) (\<lambda>_. ?rel)"
    unfolding forward_turn_def
    by (rule triple_and_then [OF triple_read_some [OF assms]])
       (auto intro: triple_ret hand split: sum.split option.split)
  show ?thesis
    unfolding forward_def
    by (rule triple_repeat_while [OF triple_weaken [OF turn] forward_turn_goes_on])
       (auto split: sum.split bool.split)
qed

text \<open>C4. A stream read as a byte stream is forwarded faithfully: the task that
  \<open>read_via_stream\<close> spawns never panics and never spins, and at any moment the bytes taken from
  the receive stream beyond the earlier ones are exactly the bytes handed to the reader, in order,
  none lost and none repeated. The hypothesis on noq is that a read hands out the next bytes.\<close>

theorem forward_relays:
  assumes "stream_reads N got" and "at_conn got h sid (w_state w) = Some before"
    and "env_respects (stream_kept got h sid) w" and "forward N h sid w = (r, w')"
  shows "(r = Waiting \<or> (\<exists>x. r = Done x))
     \<and> (\<exists>l'. w_log w' = w_log w @ l' \<and> at_conn got h sid (w_state w') = Some (before @ written l'))"
proof -
  have "relayed got written h sid before (w_log w) (w_state w) (w_log w)"
    using assms(2) by (auto simp: relayed_def)
  from tripleD [OF triple_forward [OF assms(1)] assms(3) this assms(4)]
  show ?thesis by (cases r) (auto simp: relayed_def)
qed

text \<open>A receive stream has one consumer: the first \<open>read_via_stream\<close> takes it, after which every
  further one and every \<open>read\<close> is refused without touching the connection, while a read of zero
  bytes returns at once and any other read on a connection closed cleanly reports the end of the
  stream, whether or not the peer finished it.\<close>

theorem recv_stream_single_consumer:
  "(let (r, st') = read_via_stream st in
      (rs_streaming st \<longrightarrow> (\<exists>e. r = Inl e) \<and> st' = st)
      \<and> (\<not> rs_streaming st \<longrightarrow> r = Inr (rs_handle st, rs_id st))
      \<and> fst (read_via_stream st') = Inl (Other ''read-via-stream may be called once'')
      \<and> recv_stream_read N st' limit w
          = (Done (Inl (Other ''the stream's bytes were taken by read-via-stream'')), w))
   \<and> (\<not> rs_streaming st \<longrightarrow> recv_stream_read N st 0 w = (Done (Inr (Some [])), w))
   \<and> (\<not> rs_streaming st \<and> limit \<noteq> 0 \<and> map_of (st_conns (w_state w)) (rs_handle st) = Some e
        \<and> ce_error e = Some Closed \<longrightarrow> fst (recv_stream_read N st limit w) = Done (Inr None))"
  by (auto simp: read_via_stream_def recv_stream_read_def ret_def Let_def read_some_def
      wait_until.simps check_entry_def with_entry_def read_entry_def)

subsection \<open>Witnesses\<close>

text \<open>
  Streams for the sample connections: the key field keeps the bytes a stream took or gave, a
  write takes at most two bytes, and the queued transmits are the chunks to read.
\<close>

definition toy_streams :: "(nat, toy_conn, bytes, event, nat, bytes) noq_streams" where
  "toy_streams =
     noq_api.extend toy_api (noq_streams.fields
       (\<lambda>sid bs c. (Inr (min 2 (length bs)), c\<lparr>tc_key := tc_key c @ take 2 bs\<rparr>))
       (\<lambda>sid c. (Inr (), c))
       (\<lambda>sid code c. c)
       (\<lambda>ordered sid limit c.
          case tc_transmits c of
            [] \<Rightarrow> (Inr (Inr None), c)
          | (a, d) # rest \<Rightarrow> (Inr (Inr (Some d)), c\<lparr>tc_transmits := rest, tc_key := tc_key c @ d\<rparr>))
       (\<lambda>sid code c. c))"

lemma toy_streams_simps [simp]:
  "nc_send_write toy_streams sid bs c = (Inr (min 2 (length bs)), c\<lparr>tc_key := tc_key c @ take 2 bs\<rparr>)"
  "nc_send_finish toy_streams sid c = (Inr (), c)"
  "nc_recv_read toy_streams ordered sid limit c =
     (case tc_transmits c of
        [] \<Rightarrow> (Inr (Inr None), c)
      | (a, d) # rest \<Rightarrow> (Inr (Inr (Some d)), c\<lparr>tc_transmits := rest, tc_key := tc_key c @ d\<rparr>))"
  by (simp_all add: toy_streams_def noq_api.defs noq_streams.defs)

lemma toy_stream_sends: "stream_sends toy_streams (\<lambda>c _. tc_key c)"
  by (auto simp: stream_sends_def min_def)

lemma toy_stream_reads: "stream_reads toy_streams (\<lambda>c _. tc_key c)"
  by (auto simp: stream_reads_def split: list.splits)

definition toy_read :: "bool \<Rightarrow> bytes \<Rightarrow> api_answer \<times> nat \<times> ((nat, toy_conn) state \<Rightarrow> (nat, toy_conn) state)" where
  "toy_read ended bs =
     (\<lparr>aa_relay = Inr 5, aa_stream_read = (ended, bs), aa_stream_remaining = []\<rparr>, 1, id)"

definition toy_stream_world :: "((nat, toy_conn) state, api_answer, api_effect) world" where
  "toy_stream_world =
     \<lparr>w_now = 0, w_state = toy_busy, w_script = [toy_read False [1, 2, 3], toy_read True [4]], w_log = []\<rparr>"

lemma toy_stream_env: "env_respects (stream_kept f h sid) toy_stream_world"
  by (simp add: env_respects_def toy_stream_world_def toy_read_def stream_kept_def)

lemma toy_stream_before: "at_conn (\<lambda>c _. tc_key c) 0 7 (w_state toy_stream_world) = Some [9]"
  by (simp add: at_conn_def toy_stream_world_def toy_busy_fields toy_peer_entry_def conn_entry_new_def toy_start_def)

lemmas toy_entry_defs = toy_busy_fields toy_peer_entry_def conn_entry_new_def toy_start_def

theorem write_all_appends_witness:
  "\<exists>w'. write_all toy_streams 0 7 [1, 2, 3] toy_stream_world = (Done (Inr ()), w')
     \<and> at_conn (\<lambda>c _. tc_key c) 0 7 (w_state w') = Some [9, 1, 2, 3]"
proof -
  obtain w' where run: "write_all toy_streams 0 7 [1, 2, 3] toy_stream_world = (Done (Inr ()), w')"
    by (simp add: write_all_def toy_stream_world_def wait_until.simps check_write_def toy_entry_defs write_loop.simps)
  from run write_all_appends [OF toy_stream_sends toy_stream_before toy_stream_env run] show ?thesis by auto
qed

theorem write_via_stream_relays_witness:
  "\<exists>w'. write_via_stream toy_streams \<lparr>ss_handle = 0, ss_id = 7\<rparr> toy_stream_world = (Done (Inr ()), w')
     \<and> w_log w' = [TookIn [1, 2, 3], TookIn [4]]
     \<and> at_conn (\<lambda>c _. tc_key c) 0 7 (w_state w') = Some [9, 1, 2, 3, 4]"
proof -
  let ?st = "\<lparr>ss_handle = 0, ss_id = 7\<rparr>"
  obtain w' where run: "write_via_stream toy_streams ?st toy_stream_world = (Done (Inr ()), w')"
    and log: "w_log w' = [TookIn [1, 2, 3], TookIn [4]]"
    by (simp add: write_via_stream_def try_then_def and_then_def repeat_while.simps via_turn_def await_def emit_def
        ret_def write_all_def toy_stream_world_def toy_read_def wait_until.simps check_write_def toy_entry_defs
        write_loop.simps access_or_panic_def send_stream_finish_def with_entry_def map_err_def)
  have "at_conn (\<lambda>c _. tc_key c) (ss_handle ?st) (ss_id ?st) (w_state toy_stream_world) = Some [9]"
    using toy_stream_before by simp
  from run log write_via_stream_relays [OF toy_stream_sends this toy_stream_env run] show ?thesis
    by (auto simp: toy_stream_world_def taken_def)
qed

theorem forward_relays_witness:
  "\<exists>w'. forward toy_streams 0 7 toy_stream_world = (Done (Inr ()), w')
     \<and> w_log w' = [WriteOut [4], WriteOut [6]]
     \<and> at_conn (\<lambda>c _. tc_key c) 0 7 (w_state w') = Some [9, 4, 6]"
proof -
  obtain w' where run: "forward toy_streams 0 7 toy_stream_world = (Done (Inr ()), w')"
    and log: "w_log w' = [WriteOut [4], WriteOut [6]]"
    by (simp add: forward_def repeat_while.simps forward_turn_def and_then_def await_def emit_def ret_def read_some_def
        toy_stream_world_def toy_read_def wait_until.simps check_entry_def with_entry_def read_entry_def toy_entry_defs)
  from run log forward_relays [OF toy_stream_reads toy_stream_before toy_stream_env run] show ?thesis
    by (auto simp: toy_stream_world_def written_def)
qed

theorem recv_stream_single_consumer_witness:
  "fst (read_via_stream \<lparr>rs_handle = 0, rs_id = 7, rs_streaming = True\<rparr>)
     = Inl (Other ''read-via-stream may be called once'')
   \<and> recv_stream_read toy_streams \<lparr>rs_handle = 0, rs_id = 7, rs_streaming = False\<rparr> 0 toy_stream_world
       = (Done (Inr (Some [])), toy_stream_world)"
  using recv_stream_single_consumer [of "\<lparr>rs_handle = 0, rs_id = 7, rs_streaming = False\<rparr>" toy_streams 5 toy_stream_world]
  by (auto simp: read_via_stream_def Let_def)

end
