(* ===== verification/Virt.thy ===== *)
theory Virt
  imports Async Sockets
begin

text \<open>
  Model of the virtualization layer \<open>experiments/udp-wake/virt/src/lib.rs\<close>: a synthetic UDP socket
  fed by one host event source, pollables of four kinds, and the exported \<open>poll\<close> that multiplexes
  them down to a single host \<open>poll\<close>. The event source is part of the shared state, since the host
  appends to it while the layer waits; a host poll answers with the positions that fired. The
  passthrough wrappers of stdio and clocks and the TCP stubs are in \<open>Virt_Io\<close>.
\<close>

section \<open>Definitions\<close>

subsection \<open>The socket's shared queue\<close>

record incoming =
  inc_payload :: bytes
  inc_port :: u16

text \<open>The queues by socket, what the host source holds, and the sockets created so far.\<close>

record virt =
  v_queue :: "nat \<Rightarrow> incoming list"
  v_source :: "incoming list"
  v_next :: nat

definition shared_new :: "virt \<Rightarrow> nat \<times> virt" where
  "shared_new v = (v_next v, v\<lparr>v_queue := (v_queue v)(v_next v := []), v_next := Suc (v_next v)\<rparr>)"

definition shared_drain :: "nat \<Rightarrow> virt \<Rightarrow> virt" where
  "shared_drain i v = v\<lparr>v_queue := (v_queue v)(i := v_queue v i @ v_source v), v_source := []\<rparr>"

definition has_data :: "nat \<Rightarrow> virt \<Rightarrow> bool \<times> virt" where
  "has_data i v =
     (let v1 = (if v_queue v i = [] then shared_drain i v else v)
      in (v_queue v1 i \<noteq> [], v1))"

subsection \<open>Pollables\<close>

datatype inner = HostPollable nat | UdpIncoming nat | AlwaysReady | Never

datatype virt_effect = HostPoll "inner list" | HostBlock inner | SourceSend bytes u16

type_synonym 'a virt_task = "(virt, nat list, virt_effect, 'a) task"

definition ready_local :: "inner \<Rightarrow> virt \<Rightarrow> bool \<times> virt" where
  "ready_local p v =
     (case p of
        AlwaysReady \<Rightarrow> (True, v)
      | UdpIncoming i \<Rightarrow> has_data i v
      | HostPollable _ \<Rightarrow> (False, v)
      | Never \<Rightarrow> (False, v))"

definition pollable_ready :: "(nat \<Rightarrow> bool) \<Rightarrow> inner \<Rightarrow> virt \<Rightarrow> bool \<times> virt" where
  "pollable_ready host_ready p v =
     (case p of
        AlwaysReady \<Rightarrow> (True, v)
      | Never \<Rightarrow> (False, v)
      | UdpIncoming i \<Rightarrow> has_data i v
      | HostPollable h \<Rightarrow> (host_ready h, v))"

definition check_data :: "nat \<Rightarrow> unit \<Rightarrow> nat \<Rightarrow> virt \<Rightarrow> panic + unit option \<times> unit \<times> virt" where
  "check_data i k now v = (case has_data i v of (b, v') \<Rightarrow> Inr (if b then Some () else None, k, v'))"

definition pollable_block :: "inner \<Rightarrow> unit virt_task" where
  "pollable_block p =
     (case p of
        AlwaysReady \<Rightarrow> ret ()
      | HostPollable h \<Rightarrow> and_then (emit [HostBlock p]) (\<lambda>_. await (\<lambda>_. ()))
      | UdpIncoming i \<Rightarrow> wait_until (check_data i) ()
      | Never \<Rightarrow> panics (ExpectFailed ''block() on a never-ready pollable''))"

subsection \<open>The exported poll\<close>

primrec scan_ready :: "nat \<Rightarrow> inner list \<Rightarrow> virt \<Rightarrow> nat list \<times> virt" where
  "scan_ready i [] v = ([], v)"
| "scan_ready i (p # ps) v =
     (case ready_local p v of
        (b, v1) \<Rightarrow>
          (case scan_ready (Suc i) ps v1 of
             (ready, v2) \<Rightarrow> (if b then i # ready else ready, v2)))"

primrec host_back :: "nat \<Rightarrow> inner list \<Rightarrow> panic + nat list" where
  "host_back i [] = Inr []"
| "host_back i (p # ps) =
     (case p of
        HostPollable _ \<Rightarrow> map_sum id ((#) i) (host_back (Suc i) ps)
      | UdpIncoming _ \<Rightarrow> map_sum id ((#) i) (host_back (Suc i) ps)
      | AlwaysReady \<Rightarrow> Inl (ExpectFailed ''was ready in pass 1'')
      | Never \<Rightarrow> host_back (Suc i) ps)"

primrec collect_fired :: "inner list \<Rightarrow> nat list \<Rightarrow> nat list \<Rightarrow> virt \<Rightarrow> panic + nat list \<times> virt" where
  "collect_fired ps back_ixs [] v = Inr ([], v)"
| "collect_fired ps back_ixs (h # fired) v =
     (if length back_ixs \<le> h then Inl IndexMissing
      else
        (let i = back_ixs ! h
         in case ps ! i of
              HostPollable _ \<Rightarrow>
                map_sum id (\<lambda>(ready, v'). (i # ready, v')) (collect_fired ps back_ixs fired v)
            | UdpIncoming s \<Rightarrow>
                (case has_data s v of
                   (b, v1) \<Rightarrow>
                     map_sum id (\<lambda>(ready, v'). (if b then i # ready else ready, v'))
                       (collect_fired ps back_ixs fired v1))
            | _ \<Rightarrow> Inl (ExpectFailed ''entered unreachable code'')))"

function poll_loop :: "inner list \<Rightarrow> nat list virt_task" where
  "poll_loop ps w =
     (case scan_ready 0 ps (w_state w) of
        (ready, v1) \<Rightarrow>
          if ready \<noteq> [] then (Done ready, w\<lparr>w_state := v1\<rparr>)
          else
            (case host_back 0 ps of
               Inl p \<Rightarrow> (Panicked p, w\<lparr>w_state := v1\<rparr>)
             | Inr back_ixs \<Rightarrow>
                 if back_ixs = [] then
                   (Panicked (ExpectFailed ''poll would block forever: only never-ready pollables''),
                    w\<lparr>w_state := v1\<rparr>)
                 else
                   (case w_script w of
                      [] \<Rightarrow> (Waiting, w\<lparr>w_state := v1, w_log := w_log w @ [HostPoll (map ((!) ps) back_ixs)]\<rparr>)
                    | (fired, dt, others) # rest \<Rightarrow>
                        (let w1 = w\<lparr>w_now := w_now w + dt, w_state := others v1, w_script := rest,
                                    w_log := w_log w @ [HostPoll (map ((!) ps) back_ixs)]\<rparr>
                         in case collect_fired ps back_ixs fired (others v1) of
                              Inl p \<Rightarrow> (Panicked p, w1)
                            | Inr (ready', v2) \<Rightarrow>
                                if ready' \<noteq> [] then (Done ready', w1\<lparr>w_state := v2\<rparr>)
                                else poll_loop ps (w1\<lparr>w_state := v2\<rparr>)))))"
  by pat_completeness auto
termination
  by (relation "measure (\<lambda>(ps, w). length (w_script w))") auto

declare poll_loop.simps [simp del]

definition poll :: "inner list \<Rightarrow> nat list virt_task" where
  "poll ps = (if ps = [] then panics (ExpectFailed ''poll on empty list'') else poll_loop ps)"

subsection \<open>UDP sockets\<close>

datatype socket_error = NotInProgress | InvalidState | NotSupported

datatype bind_state = Unbound | InProgress ip_socket_address | Bound ip_socket_address

record vudp =
  vu_state :: bind_state
  vu_shared :: nat

definition create_udp_socket :: "virt \<Rightarrow> vudp \<times> virt" where
  "create_udp_socket v = (case shared_new v of (i, v') \<Rightarrow> (\<lparr>vu_state = Unbound, vu_shared = i\<rparr>, v'))"

definition start_bind :: "ip_socket_address \<Rightarrow> vudp \<Rightarrow> (socket_error + unit) \<times> vudp" where
  "start_bind addr u = (Inr (), u\<lparr>vu_state := InProgress addr\<rparr>)"

definition finish_bind :: "vudp \<Rightarrow> (socket_error + unit) \<times> vudp" where
  "finish_bind u =
     (case vu_state u of
        InProgress a \<Rightarrow> (Inr (), u\<lparr>vu_state := Bound a\<rparr>)
      | _ \<Rightarrow> (Inl NotInProgress, u))"

definition vudp_local_address :: "vudp \<Rightarrow> socket_error + ip_socket_address" where
  "vudp_local_address u = (case vu_state u of Bound a \<Rightarrow> Inr a | _ \<Rightarrow> Inl InvalidState)"

definition vudp_subscribe :: "vudp \<Rightarrow> inner" where
  "vudp_subscribe u = UdpIncoming (vu_shared u)"

record incoming_datagram =
  id_data :: bytes
  id_remote :: ip_socket_address

text \<open>\<open>max_results as usize\<close> keeps the low 32 bits.\<close>

definition receive :: "u64 \<Rightarrow> nat \<Rightarrow> virt \<Rightarrow> incoming_datagram list \<times> virt" where
  "receive max_results i v =
     (let v1 = shared_drain i v;
          n = min (unat (ucast max_results :: u32)) (length (v_queue v1 i))
      in (map (\<lambda>d. \<lparr>id_data = inc_payload d, id_remote = Ipv4 \<lparr>port4 = inc_port d, address4 = (127, 0, 0, 1)\<rparr>\<rparr>)
            (take n (v_queue v1 i)),
          v1\<lparr>v_queue := (v_queue v1)(i := drop n (v_queue v1 i))\<rparr>))"

record outgoing_datagram =
  od_data :: bytes
  od_remote :: "ip_socket_address option"

definition send_effect :: "outgoing_datagram \<Rightarrow> virt_effect" where
  "send_effect d =
     SourceSend (od_data d)
       (case od_remote d of None \<Rightarrow> 0 | Some (Ipv4 a) \<Rightarrow> port4 a | Some (Ipv6 a) \<Rightarrow> port6 a)"

definition outgoing_send :: "outgoing_datagram list \<Rightarrow> (socket_error + u64) virt_task" where
  "outgoing_send ds = and_then (emit (map send_effect ds)) (\<lambda>_. ret (Inr (of_nat (length ds))))"

section \<open>Lemmas\<close>

subsection \<open>Readiness\<close>

text \<open>What a readiness check may do to the state: move the source into one queue, never lose it.\<close>

definition still_ready :: "virt \<Rightarrow> virt \<Rightarrow> bool" where
  "still_ready v t \<longleftrightarrow>
     (\<forall>i. v_queue v i \<noteq> [] \<longrightarrow> v_queue t i \<noteq> []) \<and> (v_source v = [] \<longrightarrow> v_queue t = v_queue v \<and> v_source t = [])"

lemma still_ready_refl [simp]: "still_ready v v"
  by (simp add: still_ready_def)

lemma still_ready_trans: "still_ready v t \<Longrightarrow> still_ready t u \<Longrightarrow> still_ready v u"
  by (auto simp: still_ready_def)

lemma has_data_effect:
  assumes "has_data i v = (b, v')"
  shows "b \<longleftrightarrow> v_queue v' i \<noteq> []" and "still_ready v v'" and "\<not> b \<Longrightarrow> v_source v' = []"
  using assms
  by (auto simp: has_data_def shared_drain_def still_ready_def Let_def fun_eq_iff split: if_splits)

definition ready_at :: "inner \<Rightarrow> virt \<Rightarrow> bool" where
  "ready_at p v = (case p of AlwaysReady \<Rightarrow> True | UdpIncoming s \<Rightarrow> v_queue v s \<noteq> [] | _ \<Rightarrow> False)"

definition idle_at :: "inner \<Rightarrow> virt \<Rightarrow> bool" where
  "idle_at p v =
     (case p of AlwaysReady \<Rightarrow> False | UdpIncoming s \<Rightarrow> v_queue v s = [] \<and> v_source v = [] | _ \<Rightarrow> True)"

lemma ready_at_still: "ready_at p v \<Longrightarrow> still_ready v t \<Longrightarrow> ready_at p t"
  by (auto simp: ready_at_def still_ready_def split: inner.splits)

lemma idle_at_still: "idle_at p v \<Longrightarrow> still_ready v t \<Longrightarrow> idle_at p t"
  by (auto simp: idle_at_def still_ready_def split: inner.splits)

lemma ready_local_effect:
  assumes "ready_local p v = (b, v')"
  shows "b \<longleftrightarrow> ready_at p v'" and "still_ready v v'" and "\<not> b \<Longrightarrow> idle_at p v'"
  using assms has_data_effect [of _ v b v']
  by (auto simp: ready_local_def ready_at_def idle_at_def split: inner.splits)

lemma scan_ready_effect:
  assumes "scan_ready i ps v = (r, v')"
  shows "still_ready v v'" and "j \<in> set r \<Longrightarrow> i \<le> j \<and> j < i + length ps \<and> ready_at (ps ! (j - i)) v'"
    and "i \<le> j \<Longrightarrow> j < i + length ps \<Longrightarrow> j \<notin> set r \<Longrightarrow> idle_at (ps ! (j - i)) v'"
proof -
  have "still_ready v v' \<and> (\<forall>j\<in>set r. i \<le> j \<and> j < i + length ps \<and> ready_at (ps ! (j - i)) v')
      \<and> (\<forall>j. i \<le> j \<longrightarrow> j < i + length ps \<longrightarrow> j \<notin> set r \<longrightarrow> idle_at (ps ! (j - i)) v')"
    using assms
  proof (induction ps arbitrary: i v r)
    case (Cons p ps)
    obtain b v1 where b: "ready_local p v = (b, v1)" by force
    obtain r1 where s: "scan_ready (Suc i) ps v1 = (r1, v')" using Cons.prems b by (auto split: prod.splits)
    have r: "r = (if b then i # r1 else r1)" using Cons.prems b s by auto
    note b1 = ready_local_effect [OF b]
    note IH = Cons.IH [OF s]
    have tail: "i \<le> j \<and> j < i + length (p # ps) \<and> ready_at ((p # ps) ! (j - i)) v'" if "j \<in> set r1" for j
      using IH that by (fastforce simp: nth_Cons' Suc_diff_le)
    have head: "b \<Longrightarrow> ready_at p v'" using b1(1) IH ready_at_still by blast
    have rest: "idle_at ((p # ps) ! (j - i)) v'" if "i \<le> j" "j < i + length (p # ps)" "j \<notin> set r" for j
    proof (cases "j = i")
      case True
      with r that(3) have "\<not> b" by (auto split: if_splits)
      then show ?thesis using b1(3) IH idle_at_still True by auto
    next
      case False
      with r that have "idle_at (ps ! (j - Suc i)) v'" using IH by (auto split: if_splits)
      with False that(1) show ?thesis by (simp add: nth_Cons')
    qed
    show ?case
      using r tail head rest IH b1(2) still_ready_trans by (auto split: if_splits)
  qed simp
  then show "still_ready v v'" "j \<in> set r \<Longrightarrow> i \<le> j \<and> j < i + length ps \<and> ready_at (ps ! (j - i)) v'"
    "i \<le> j \<Longrightarrow> j < i + length ps \<Longrightarrow> j \<notin> set r \<Longrightarrow> idle_at (ps ! (j - i)) v'"
    by blast+
qed

lemma scan_ready_none: "scan_ready 0 ps v = ([], v') \<Longrightarrow> p \<in> set ps \<Longrightarrow> idle_at p v'"
  using scan_ready_effect(3) [of 0 ps v "[]" v'] by (auto simp: in_set_conv_nth)

text \<open>The positions waited on are those of host pollables and sockets.\<close>

definition waitable :: "inner \<Rightarrow> bool" where
  "waitable p = (case p of HostPollable _ \<Rightarrow> True | UdpIncoming _ \<Rightarrow> True | _ \<Rightarrow> False)"

lemma waitable_simps [simp]:
  "waitable (HostPollable x)" "waitable (UdpIncoming y)" "\<not> waitable AlwaysReady" "\<not> waitable Never"
  by (simp_all add: waitable_def)

definition waiting_positions :: "inner list \<Rightarrow> nat list" where
  "waiting_positions ps = filter (\<lambda>i. waitable (ps ! i)) [0..<length ps]"

lemma waiting_positions_map [simp]: "map ((!) ps) (waiting_positions ps) = filter waitable ps"
proof -
  have "filter waitable ps = filter waitable (map ((!) ps) [0..<length ps])" by (simp add: map_nth)
  then show ?thesis by (simp add: waiting_positions_def filter_map comp_def)
qed

lemma waiting_positions_length [simp]: "length (waiting_positions ps) = length (filter waitable ps)"
  by (metis length_map waiting_positions_map)

lemma host_back_total: "AlwaysReady \<notin> set ps \<Longrightarrow> host_back 0 ps = Inr (waiting_positions ps)"
proof -
  have "host_back i ps = Inr (filter (\<lambda>j. waitable (ps ! (j - i))) [i..<i + length ps])" if "AlwaysReady \<notin> set ps" for i
    using that
  proof (induction ps arbitrary: i)
    case (Cons p ps)
    have "filter (\<lambda>j. waitable ((p # ps) ! (j - i))) [Suc i..<Suc i + length ps]
        = filter (\<lambda>j. waitable (ps ! (j - Suc i))) [Suc i..<Suc i + length ps]"
      by (rule filter_cong) (auto simp: nth_Cons')
    moreover have "[i..<i + length (p # ps)] = i # [Suc i..<Suc i + length ps]" by (simp add: upt_rec)
    ultimately show ?case using Cons.IH [of "Suc i"] Cons.prems by (cases p) (auto simp del: upt_Suc)
  qed simp
  then show "AlwaysReady \<notin> set ps \<Longrightarrow> ?thesis" by (simp add: waiting_positions_def)
qed

lemma collect_fired_total:
  assumes "\<forall>j\<in>set bs. waitable (ps ! j)" and "\<forall>h\<in>set fired. h < length bs"
  shows "\<exists>r v'. collect_fired ps bs fired v = Inr (r, v') \<and> still_ready v v'
     \<and> (\<forall>j\<in>set r. (\<exists>h\<in>set fired. j = bs ! h) \<and> (\<forall>s. ps ! j = UdpIncoming s \<longrightarrow> v_queue v' s \<noteq> []))
     \<and> (\<forall>h\<in>set fired. \<forall>x. ps ! (bs ! h) = HostPollable x \<longrightarrow> bs ! h \<in> set r)"
  using assms(2)
proof (induction fired arbitrary: v)
  case (Cons h fired)
  let ?i = "bs ! h"
  let ?post = "\<lambda>fired r v'. (\<forall>j\<in>set r. (\<exists>h\<in>set fired. j = bs ! h) \<and> (\<forall>s. ps ! j = UdpIncoming s \<longrightarrow> v_queue v' s \<noteq> []))
      \<and> (\<forall>h\<in>set fired. \<forall>x. ps ! (bs ! h) = HostPollable x \<longrightarrow> bs ! h \<in> set r)"
  have h: "h < length bs" "?i \<in> set bs" using Cons.prems by auto
  then have "waitable (ps ! ?i)" using assms(1) by blast
  then consider (host) x where "ps ! ?i = HostPollable x" | (udp) s where "ps ! ?i = UdpIncoming s"
    by (auto simp: waitable_def split: inner.splits)
  then show ?case
  proof cases
    case host
    obtain r v' where c: "collect_fired ps bs fired v = Inr (r, v')" "still_ready v v'" "?post fired r v'"
      using Cons.IH [of v] Cons.prems by auto
    with h host show ?thesis by (simp add: Let_def)
  next
    case (udp s)
    obtain b v1 where b: "has_data s v = (b, v1)" by force
    obtain r v' where c: "collect_fired ps bs fired v1 = Inr (r, v')" "still_ready v1 v'" "?post fired r v'"
      using Cons.IH [of v1] Cons.prems by auto
    have "b \<Longrightarrow> v_queue v' s \<noteq> []" using has_data_effect(1) [OF b] c(2) by (auto simp: still_ready_def)
    with c h udp b has_data_effect(2) [OF b] show ?thesis
      by (auto simp: Let_def intro: still_ready_trans)
  qed
qed simp

text \<open>What the outcome of a poll must satisfy, with the part of the script it used: the host's answers to its polls. A
  position is named by an answer through the host counterparts it was polled with. A host pollable is returned
  exactly when the last answer named it, a socket only with a datagram queued; before any host poll, exactly the
  positions ready from local state are returned.\<close>

definition named_by :: "inner list \<Rightarrow> nat list \<Rightarrow> nat \<Rightarrow> bool" where
  "named_by ps fired i \<longleftrightarrow> (\<exists>h\<in>set fired. h < length (waiting_positions ps) \<and> waiting_positions ps ! h = i)"

definition may_return :: "inner list \<Rightarrow> nat list list \<Rightarrow> virt \<Rightarrow> nat \<Rightarrow> bool" where
  "may_return ps answers v i =
     (case ps ! i of
        AlwaysReady \<Rightarrow> True
      | Never \<Rightarrow> False
      | UdpIncoming s \<Rightarrow> v_queue v s \<noteq> []
      | HostPollable _ \<Rightarrow> answers \<noteq> [] \<and> named_by ps (last answers) i)"

definition returns_ready :: "inner list \<Rightarrow> nat list list \<Rightarrow> nat list \<Rightarrow> virt \<Rightarrow> bool" where
  "returns_ready ps answers ready v \<longleftrightarrow>
     ready \<noteq> [] \<and> (\<forall>i\<in>set ready. i < length ps \<and> may_return ps answers v i)
     \<and> (answers = [] \<longrightarrow> (\<forall>i<length ps. i \<in> set ready \<longleftrightarrow> ready_at (ps ! i) v))
     \<and> (answers \<noteq> [] \<longrightarrow> (\<forall>i<length ps. (\<exists>x. ps ! i = HostPollable x) \<and> named_by ps (last answers) i \<longrightarrow> i \<in> set ready))"

lemma may_return_Cons: "may_return ps answers v i \<Longrightarrow> may_return ps (fired # answers) v i"
  by (auto simp: may_return_def split: inner.splits)

lemma may_return_local: "ready_at (ps ! i) v \<Longrightarrow> may_return ps answers v i"
  by (auto simp: may_return_def ready_at_def split: inner.splits)

lemma may_return_named:
  "waitable (ps ! i) \<Longrightarrow> named_by ps fired i \<Longrightarrow> (\<And>s. ps ! i = UdpIncoming s \<Longrightarrow> v_queue v s \<noteq> []) \<Longrightarrow> may_return ps [fired] v i"
  by (auto simp: may_return_def waitable_def split: inner.splits)

lemma returns_ready_Cons:
  assumes "returns_ready ps answers ready v" and "\<And>i x. ps ! i = HostPollable x \<Longrightarrow> \<not> named_by ps fired i"
  shows "returns_ready ps (fired # answers) ready v"
  unfolding returns_ready_def
proof (intro conjI)
  show "ready \<noteq> []" "\<forall>i\<in>set ready. i < length ps \<and> may_return ps (fired # answers) v i"
    using assms(1) may_return_Cons by (auto simp: returns_ready_def)
  show "fired # answers \<noteq> [] \<longrightarrow>
      (\<forall>i<length ps. (\<exists>x. ps ! i = HostPollable x) \<and> named_by ps (last (fired # answers)) i \<longrightarrow> i \<in> set ready)"
    using assms by (cases answers) (auto simp: returns_ready_def)
qed simp

definition poll_sound :: "inner list \<Rightarrow> nat list list \<Rightarrow> nat list outcome \<Rightarrow> virt \<Rightarrow> bool" where
  "poll_sound ps answers r v =
     (case r of
        Done ready \<Rightarrow> returns_ready ps answers ready v
      | Waiting \<Rightarrow> \<forall>p\<in>set ps. idle_at p v
      | _ \<Rightarrow> False)"

text \<open>The polls of the host a run made: one per answer, and one more when it is parked.\<close>

definition host_polls :: "inner list \<Rightarrow> nat list list \<Rightarrow> nat list outcome \<Rightarrow> virt_effect list" where
  "host_polls ps answers r = replicate (length answers + (if r = Waiting then 1 else 0)) (HostPoll (filter waitable ps))"

text \<open>One turn of the poll loop, by how it ends.\<close>

lemma poll_loop_cases:
  assumes "poll_loop ps w = (r, w')"
  obtains (ready_now) ready v1 where "scan_ready 0 ps (w_state w) = (ready, v1)" "ready \<noteq> []"
      "r = Done ready" "w_state w' = v1" "w_script w' = w_script w" "w_log w' = w_log w"
  | (no_host) v1 p where "scan_ready 0 ps (w_state w) = ([], v1)" "r = Panicked p" "w_state w' = v1"
      "\<And>bs. host_back 0 ps = Inr bs \<Longrightarrow> bs = []"
  | (parked) v1 bs where "scan_ready 0 ps (w_state w) = ([], v1)" "r = Waiting" "w_state w' = v1"
      "host_back 0 ps = Inr bs" "w_script w = []" "w_script w' = []" "w_log w' = w_log w @ [HostPoll (map ((!) ps) bs)]"
  | (bad_host) v1 bs fired dt others rest p where "scan_ready 0 ps (w_state w) = ([], v1)"
      "host_back 0 ps = Inr bs" "w_script w = (fired, dt, others) # rest"
      "collect_fired ps bs fired (others v1) = Inl p" "r = Panicked p" "w_state w' = others v1"
  | (woken) v1 bs fired dt others rest r1 v2 where "scan_ready 0 ps (w_state w) = ([], v1)"
      "host_back 0 ps = Inr bs" "w_script w = (fired, dt, others) # rest"
      "collect_fired ps bs fired (others v1) = Inr (r1, v2)" "r1 \<noteq> []" "r = Done r1" "w_state w' = v2"
      "w_script w' = rest" "w_log w' = w_log w @ [HostPoll (map ((!) ps) bs)]"
  | (spurious) v1 bs fired dt others rest v2 w2 where "scan_ready 0 ps (w_state w) = ([], v1)"
      "host_back 0 ps = Inr bs" "w_script w = (fired, dt, others) # rest"
      "collect_fired ps bs fired (others v1) = Inr ([], v2)" "w_script w2 = rest" "w_state w2 = v2"
      "poll_loop ps w2 = (r, w')" "w_log w2 = w_log w @ [HostPoll (map ((!) ps) bs)]"
proof -
  obtain ready v1 where s: "scan_ready 0 ps (w_state w) = (ready, v1)" by force
  consider "ready \<noteq> []" | (stop) "ready = []" "\<And>bs. host_back 0 ps = Inr bs \<Longrightarrow> bs = []"
    | (wait) bs where "ready = []" "host_back 0 ps = Inr bs" "bs \<noteq> []"
    by blast
  then show thesis
  proof cases
    case 1
    then have "r = Done ready \<and> w_state w' = v1 \<and> w_script w' = w_script w \<and> w_log w' = w_log w" using assms s by (subst (asm) poll_loop.simps) auto
    with 1 s show thesis by (auto intro: ready_now)
  next
    case stop
    with assms s have "(\<exists>p. r = Panicked p) \<and> w_state w' = v1"
      by (subst (asm) poll_loop.simps) (auto split: sum.splits)
    with stop s show thesis by (auto intro: no_host)
  next
    case (wait bs)
    show thesis
    proof (cases "w_script w")
      case Nil
      with assms s wait have "r = Waiting \<and> w_state w' = v1 \<and> w_script w' = []
          \<and> w_log w' = w_log w @ [HostPoll (map ((!) ps) bs)]" by (subst (asm) poll_loop.simps) auto
      with s wait Nil show thesis by (auto intro: parked)
    next
      case (Cons y rest)
      obtain fired dt others where y: "y = (fired, dt, others)" by (metis prod_cases3)
      note sc = Cons [unfolded y]
      show thesis
      proof (cases "collect_fired ps bs fired (others v1)")
        case (Inl p)
        with assms s wait sc have "r = Panicked p \<and> w_state w' = others v1"
          by (subst (asm) poll_loop.simps) (auto simp: Let_def)
        with s wait sc Inl show thesis by (auto intro: bad_host)
      next
        case (Inr c)
        obtain r1 v2 where c: "c = (r1, v2)" by force
        let ?w = "w\<lparr>w_now := w_now w + dt, w_script := rest,
            w_log := w_log w @ [HostPoll (map ((!) ps) bs)], w_state := v2\<rparr>"
        have turn: "if r1 = [] then poll_loop ps ?w = (r, w') else r = Done r1 \<and> w_state w' = v2 \<and> w_script w' = rest
              \<and> w_log w' = w_log w @ [HostPoll (map ((!) ps) bs)]"
          using assms s wait sc Inr c by (subst (asm) poll_loop.simps) (auto simp: Let_def)
        show thesis
        proof (cases "r1 = []")
          case True
          with s wait sc Inr c turn show thesis
            by (intro spurious [of v1 bs fired dt others rest v2 ?w]) simp_all
        next
          case False
          with s wait sc Inr c turn show thesis
            by (intro woken [of v1 bs fired dt others rest r1 v2]) simp_all
        qed
      qed
    qed
  qed
qed

lemma poll_loop_sound:
  assumes waits: "\<exists>p\<in>set ps. p \<noteq> Never"
    and "\<forall>(fired, dt, others)\<in>set (w_script w). \<forall>h\<in>set fired. h < length (filter waitable ps)"
    and "poll_loop ps w = (r, w')"
  shows "\<exists>used. w_script w = used @ w_script w' \<and> poll_sound ps (map fst used) r (w_state w')
     \<and> w_log w' = w_log w @ host_polls ps (map fst used) r"
  using assms(2,3)
proof (induction "length (w_script w)" arbitrary: w rule: less_induct)
  case less
  have back_ok: "host_back 0 ps = Inr (waiting_positions ps) \<and> waiting_positions ps \<noteq> []"
    if s: "scan_ready 0 ps (w_state w) = ([], v1)" for v1
  proof -
    have none: "AlwaysReady \<notin> set ps" using scan_ready_none [OF s] by (force simp: idle_at_def)
    moreover obtain q where "q \<in> set ps" "q \<noteq> Never" using waits by blast
    ultimately have "waitable q" by (auto simp: waitable_def split: inner.splits)
    with \<open>q \<in> set ps\<close> have "filter waitable ps \<noteq> []" by (auto simp: filter_empty_conv)
    then have "waiting_positions ps \<noteq> []" using waiting_positions_length [of ps] by (metis length_0_conv)
    with none host_back_total show ?thesis by blast
  qed
  have can_wait: "\<forall>j\<in>set (waiting_positions ps). waitable (ps ! j)" by (simp add: waiting_positions_def)
  from less.prems(2) show ?case
  proof (cases rule: poll_loop_cases)
    case (ready_now ready v1)
    have "i \<in> set ready \<longleftrightarrow> ready_at (ps ! i) v1" if "i < length ps" for i
      using scan_ready_effect(2,3) [OF ready_now(1), of i] that
      by (cases "i \<in> set ready") (auto simp: ready_at_def idle_at_def split: inner.splits)
    moreover have "i < length ps \<and> ready_at (ps ! i) v1" if "i \<in> set ready" for i
      using scan_ready_effect(2) [OF ready_now(1) that] by simp
    ultimately have "returns_ready ps [] ready v1"
      using ready_now(2) may_return_local by (simp add: returns_ready_def)
    with ready_now show ?thesis by (intro exI [of _ "[]"]) (simp add: poll_sound_def host_polls_def)
  next
    case no_host
    with back_ok [OF no_host(1)] show ?thesis by blast
  next
    case (parked v1 bs)
    with scan_ready_none [OF parked(1)] back_ok [OF parked(1)] show ?thesis
      by (auto simp: poll_sound_def host_polls_def)
  next
    case (bad_host v1 bs fired dt others rest p)
    have "\<forall>h\<in>set fired. h < length bs" using less.prems(1) bad_host(2,3) back_ok [OF bad_host(1)] by auto
    moreover have "bs = waiting_positions ps" using back_ok [OF bad_host(1)] bad_host(2) by simp
    ultimately show ?thesis using collect_fired_total [OF can_wait, of fired "others v1"] bad_host(4) by simp
  next
    case (woken v1 bs fired dt others rest r1 v2)
    have bs: "bs = waiting_positions ps" using back_ok [OF woken(1)] woken(2) by simp
    have fired: "\<forall>h\<in>set fired. h < length (waiting_positions ps)" using less.prems(1) woken(3) by auto
    have r1: "(\<forall>j\<in>set r1. named_by ps fired j \<and> (\<forall>s. ps ! j = UdpIncoming s \<longrightarrow> v_queue v2 s \<noteq> []))
        \<and> (\<forall>h\<in>set fired. \<forall>x. ps ! (bs ! h) = HostPollable x \<longrightarrow> bs ! h \<in> set r1)"
      using collect_fired_total [OF can_wait fired, of "others v1"] woken(4) bs fired by (auto simp: named_by_def)
    have "j < length ps \<and> waitable (ps ! j)" if "named_by ps fired j" for j
    proof -
      from that have "j \<in> set (waiting_positions ps)" by (auto simp: named_by_def simp del: waiting_positions_length)
      then show ?thesis by (simp add: waiting_positions_def)
    qed
    with r1 have "\<forall>i\<in>set r1. i < length ps \<and> may_return ps [fired] v2 i" by (auto intro: may_return_named)
    moreover have "i \<in> set r1" if "ps ! i = HostPollable x" "named_by ps fired i" for i x
      using r1 that bs by (auto simp: named_by_def)
    ultimately have "returns_ready ps [fired] r1 v2" using woken(5) by (auto simp: returns_ready_def)
    with woken back_ok [OF woken(1)] show ?thesis
      by (intro exI [of _ "[(fired, dt, others)]"]) (auto simp: poll_sound_def host_polls_def)
  next
    case (spurious v1 bs fired dt others rest v2 w2)
    have fired: "\<forall>h\<in>set fired. h < length (waiting_positions ps)" using less.prems(1) spurious(3) by auto
    have quiet: "\<not> named_by ps fired i" if "ps ! i = HostPollable x" for i x
      using collect_fired_total [OF can_wait fired, of "others v1"] spurious(2,4) back_ok [OF spurious(1)] that
      by (auto simp: named_by_def)
    from spurious obtain used where "rest = used @ w_script w'" "poll_sound ps (map fst used) r (w_state w')"
        "w_log w' = w_log w2 @ host_polls ps (map fst used) r"
      using less.hyps [of w2] less.prems(1) by auto
    with spurious back_ok [OF spurious(1)] show ?thesis
      by (intro exI [of _ "(fired, dt, others) # used"])
        (auto simp: poll_sound_def host_polls_def split: outcome.splits intro: returns_ready_Cons [OF _ quiet])
  qed
qed

text \<open>C25. The exported poll is a sound multiplexer: over a list with something to wait for, and a
  host that answers with positions it was given, it never panics; it asks the host about the host counterparts
  of the list and nothing else, once per answer; it returns only when something is ready, and only positions of
  the list that are ready: a socket has a datagram queued, and a host pollable was named by the host's last
  answer, all those named being returned; without asking the host it returns exactly what is ready from local
  state; while it is parked nothing in the list is ready from local state and no undrained
  datagram is left in the source of a socket it waits on. A poll on an empty list panics.\<close>

theorem poll_multiplexes:
  assumes "\<exists>p\<in>set ps. p \<noteq> Never"
    and "\<forall>(fired, dt, others)\<in>set (w_script w). \<forall>h\<in>set fired. h < length (filter waitable ps)"
    and "poll ps w = (r, w')"
  shows "(\<exists>used. w_script w = used @ w_script w' \<and> poll_sound ps (map fst used) r (w_state w')
       \<and> w_log w' = w_log w @ host_polls ps (map fst used) r)
     \<and> fst (poll [] w) = Panicked (ExpectFailed ''poll on empty list'')"
proof -
  have "ps \<noteq> []" using assms(1) by auto
  with assms(3) have "poll_loop ps w = (r, w')" by (simp add: poll_def)
  from poll_loop_sound [OF assms(1,2) this] show ?thesis by (simp add: poll_def panics_def)
qed

subsection \<open>No datagram is lost\<close>

text \<open>What a socket that is alone on its source has yet to deliver.\<close>

definition pending :: "nat \<Rightarrow> virt \<Rightarrow> incoming list" where
  "pending s v = v_queue v s @ v_source v"

definition arrives :: "nat \<Rightarrow> virt \<Rightarrow> virt \<Rightarrow> bool" where
  "arrives s v t \<longleftrightarrow> (\<exists>ds. pending s t = pending s v @ ds)"

lemma arrives_refl: "arrives s v v"
  by (simp add: arrives_def)

lemma arrives_trans: "arrives s v t \<Longrightarrow> arrives s t u \<Longrightarrow> arrives s v u"
  by (auto simp: arrives_def)

interpretation arrivals: rely_guarantee "arrives s" for s
  by unfold_locales (auto intro: arrives_refl arrives_trans)

lemma has_data_pending: "has_data s v = (b, v') \<Longrightarrow> pending s v' = pending s v"
  by (auto simp: has_data_def pending_def shared_drain_def Let_def split: if_splits)

definition only_socket :: "nat \<Rightarrow> inner list \<Rightarrow> bool" where
  "only_socket s ps \<longleftrightarrow> (\<forall>i. UdpIncoming i \<in> set ps \<longrightarrow> i = s)"

lemma scan_ready_pending:
  "only_socket s ps \<Longrightarrow> scan_ready i ps v = (r, v') \<Longrightarrow> pending s v' = pending s v"
proof (induction ps arbitrary: i v r)
  case (Cons p ps)
  obtain b v1 where b: "ready_local p v = (b, v1)" by force
  obtain r1 where "scan_ready (Suc i) ps v1 = (r1, v')" using Cons.prems(2) b by (auto split: prod.splits)
  moreover have "only_socket s ps" using Cons.prems(1) by (simp add: only_socket_def)
  ultimately have "pending s v' = pending s v1" using Cons.IH by blast
  moreover have "pending s v1 = pending s v"
    using b Cons.prems(1) by (auto simp: ready_local_def only_socket_def dest: has_data_pending split: inner.splits)
  ultimately show ?case by simp
qed simp

lemma collect_fired_pending:
  "only_socket s ps \<Longrightarrow> \<forall>j\<in>set bs. j < length ps \<Longrightarrow> collect_fired ps bs fired v = Inr (r, v') \<Longrightarrow>
     pending s v' = pending s v"
proof (induction fired arbitrary: v r)
  case (Cons h fired)
  let ?p = "ps ! (bs ! h)"
  have h: "h < length bs" using Cons.prems(3) by (auto split: if_splits)
  then have p: "?p \<in> set ps" using Cons.prems(2) by (meson nth_mem)
  show ?case
  proof (cases ?p)
    case (HostPollable x)
    with h Cons.prems(3) obtain r1 where "collect_fired ps bs fired v = Inr (r1, v')"
      by (cases "collect_fired ps bs fired v") (auto simp: Let_def)
    with Cons.IH Cons.prems(1,2) show ?thesis by blast
  next
    case (UdpIncoming i)
    then have i: "i = s" using p Cons.prems(1) by (metis only_socket_def)
    obtain b v1 where b: "has_data s v = (b, v1)" by force
    with h UdpIncoming i Cons.prems(3) obtain r1 where "collect_fired ps bs fired v1 = Inr (r1, v')"
      by (cases "collect_fired ps bs fired v1") (auto simp: Let_def)
    with Cons.IH Cons.prems(1,2) has_data_pending [OF b] show ?thesis by metis
  qed (use h Cons.prems(3) in \<open>simp_all add: Let_def\<close>)
qed simp

lemma host_back_bound: "host_back i ps = Inr bs \<Longrightarrow> j \<in> set bs \<Longrightarrow> j < i + length ps"
proof (induction ps arbitrary: i bs)
  case (Cons p ps)
  show ?case
  proof (cases "host_back (Suc i) ps")
    case (Inr cs)
    with Cons.IH [OF Inr] Cons.prems show ?thesis by (cases p) auto
  qed (use Cons.prems in \<open>cases p; simp\<close>)
qed simp

lemma poll_loop_arrives:
  assumes "only_socket s ps" and "env_respects (arrives s) w" and "poll_loop ps w = (r, w')"
  shows "arrives s (w_state w) (w_state w')"
  using assms(2,3)
proof (induction "length (w_script w)" arbitrary: w rule: less_induct)
  case less
  have scanned: "arrives s (w_state w) v1" if "scan_ready 0 ps (w_state w) = (x, v1)" for x v1
    using scan_ready_pending [OF assms(1) that] by (simp add: arrives_def)
  have env: "arrives s v1 (others v1)" if "w_script w = (fired, dt, others) # rest" for v1 fired dt others rest
    using env_respects_next(1) [OF less.prems(1) that] .
  have woke: "arrives s v v2" if "host_back 0 ps = Inr bs" "collect_fired ps bs fired v = Inr (x, v2)" for bs fired v x v2
    using collect_fired_pending [OF assms(1) _ that(2)] host_back_bound [OF that(1)] by (simp add: arrives_def)
  from less.prems(2) show ?case
  proof (cases rule: poll_loop_cases)
    case (bad_host v1 bs fired dt others rest p)
    from arrives_trans [OF scanned [OF bad_host(1)] env [OF bad_host(3)]] bad_host(6) show ?thesis by simp
  next
    case (woken v1 bs fired dt others rest r1 v2)
    from arrives_trans [OF arrives_trans [OF scanned [OF woken(1)] env [OF woken(3)]] woke [OF woken(2,4)]] woken(7)
    show ?thesis by simp
  next
    case (spurious v1 bs fired dt others rest v2 w2)
    have "arrives s (w_state w) v2"
      by (rule arrives_trans [OF arrives_trans [OF scanned [OF spurious(1)] env [OF spurious(3)]] woke [OF spurious(2,4)]])
    moreover have "env_respects (arrives s) w2" using less.prems(1) spurious(3,5) by (simp add: env_respects_def)
    then have "arrives s v2 (w_state w')" using less.hyps [of w2] spurious(3,5-7) by simp
    ultimately show ?thesis by (rule arrives_trans)
  qed (use scanned in auto)
qed


subsection \<open>Witnesses\<close>

definition toy_virt_world :: "(virt, nat list, virt_effect) world" where
  "toy_virt_world =
     \<lparr>w_now = 0, w_state = \<lparr>v_queue = (\<lambda>_. []), v_source = [], v_next = 1\<rparr>,
      w_script = [([1], 1, \<lambda>v. v\<lparr>v_source := v_source v @ [\<lparr>inc_payload = [7], inc_port = 9\<rparr>]\<rparr>)], w_log = []\<rparr>"

lemma toy_virt_poll:
  "\<exists>w'. poll [Never, HostPollable 4, UdpIncoming 0] toy_virt_world = (Done [2], w')
     \<and> w_state w' = \<lparr>v_queue = (\<lambda>i. if i = 0 then [\<lparr>inc_payload = [7], inc_port = 9\<rparr>] else []), v_source = [], v_next = 1\<rparr>"
  by (simp add: poll_def poll_loop.simps toy_virt_world_def ready_local_def has_data_def shared_drain_def
      numeral_2_eq_2 fun_eq_iff)

theorem poll_multiplexes_witness:
  "\<exists>w'. poll [Never, HostPollable 4, UdpIncoming 0] toy_virt_world = (Done [2], w')
     \<and> v_queue (w_state w') 0 \<noteq> []"
proof -
  obtain w' where run: "poll [Never, HostPollable 4, UdpIncoming 0] toy_virt_world = (Done [2], w')"
    using toy_virt_poll by blast
  have "\<forall>(fired, dt, others)\<in>set (w_script toy_virt_world).
      \<forall>h\<in>set fired. h < length (filter waitable [Never, HostPollable 4, UdpIncoming 0])"
    by (simp add: toy_virt_world_def)
  with run poll_multiplexes [OF _ this run] show ?thesis by (auto simp: poll_sound_def returns_ready_def may_return_def)
qed


end
