(* ===== verification/Loops.thy ===== *)
theory Loops
  imports Async
begin

text \<open>
  Loops that neither the data nor the script bounds: Rust's \<open>loop\<close> over local variables, where each
  turn either goes on with new values of them or leaves with a result. \<open>loop_opt\<close> is the plain loop,
  \<open>None\<close> being a loop that never ends; \<open>looping\<close> is the loop of a task, which then diverges. Their rules
  ask for an invariant of the variables and a reason to end: a rank that falls, or an await per turn.
\<close>

section \<open>Definitions\<close>

partial_function (option) loop_opt :: "('k \<Rightarrow> 'k + 'a) \<Rightarrow> 'k \<Rightarrow> 'a option" where
  "loop_opt body k = (case body k of Inl k' \<Rightarrow> loop_opt body k' | Inr x \<Rightarrow> Some x)"

definition loop_turn ::
  "('k \<Rightarrow> ('s, 'r, 'e, 'k + 'a) task) \<Rightarrow> 'k \<times> ('s, 'r, 'e) world
     \<Rightarrow> ('k \<times> ('s, 'r, 'e) world) + ('a outcome \<times> ('s, 'r, 'e) world)" where
  "loop_turn body kw =
     (case body (fst kw) (snd kw) of
        (Done (Inl k'), w') \<Rightarrow> Inl (k', w')
      | (Done (Inr x), w') \<Rightarrow> Inr (Done x, w')
      | (Waiting, w') \<Rightarrow> Inr (Waiting, w')
      | (Panicked p, w') \<Rightarrow> Inr (Panicked p, w')
      | (Diverged, w') \<Rightarrow> Inr (Diverged, w'))"

definition looping :: "('k \<Rightarrow> ('s, 'r, 'e, 'k + 'a) task) \<Rightarrow> 'k \<Rightarrow> ('s, 'r, 'e, 'a) task" where
  "looping body k w = (case loop_opt (loop_turn body) (k, w) of None \<Rightarrow> (Diverged, w) | Some r \<Rightarrow> r)"

text \<open>A computation without awaits inside a task.\<close>

definition sync :: "(nat \<Rightarrow> 'a option) \<Rightarrow> ('s, 'r, 'e, 'a) task" where
  "sync f w = (case f (w_now w) of None \<Rightarrow> (Diverged, w) | Some x \<Rightarrow> (Done x, w))"

section \<open>Rules\<close>

lemma loop_opt_total:
  assumes "wf r" and "I k"
    and step: "\<And>k k'. I k \<Longrightarrow> body k = Inl k' \<Longrightarrow> I k' \<and> (k', k) \<in> r"
    and exit: "\<And>k x. I k \<Longrightarrow> body k = Inr x \<Longrightarrow> Q x"
  shows "\<exists>x. loop_opt body k = Some x \<and> Q x"
  using assms(1,2)
proof (induction k rule: wf_induct_rule)
  case (less k)
  show ?case
  proof (cases "body k")
    case (Inl k')
    with step [OF less.prems Inl] less.IH [of k'] show ?thesis by (subst loop_opt.simps) simp
  next
    case (Inr x)
    with exit [OF less.prems Inr] show ?thesis by (subst loop_opt.simps) simp
  qed
qed

lemma loop_opt_rank:
  assumes "I k" and "\<And>k k'. I k \<Longrightarrow> body k = Inl k' \<Longrightarrow> I k' \<and> rank k' < (rank k :: nat)"
    and "\<And>k x. I k \<Longrightarrow> body k = Inr x \<Longrightarrow> Q x"
  shows "\<exists>x. loop_opt body k = Some x \<and> Q x"
  by (rule loop_opt_total [where r = "measure rank" and I = I]) (use assms in auto)

text \<open>Without a reason to end, the rule only speaks of loops that do.\<close>

lemma loop_opt_partial:
  assumes "loop_opt body k = Some x" and "I k"
    and step: "\<And>k k'. I k \<Longrightarrow> body k = Inl k' \<Longrightarrow> I k'"
    and exit: "\<And>k x. I k \<Longrightarrow> body k = Inr x \<Longrightarrow> Q x"
  shows "Q x"
  using assms
proof (induction body k x rule: loop_opt.raw_induct [rotated, consumes 1, case_names step])
  case (step loop body k x)
  note IH = step(1) and run = step(2) and I = step(3-5)
  show ?case
  proof (cases "body k")
    case (Inl k')
    have "loop body k' = Some x" using run Inl by simp
    from IH [OF this I(2) [OF I(1) Inl]] I(2,3) show ?thesis by blast
  next
    case (Inr y)
    with run I(3) [OF I(1) Inr] show ?thesis by simp
  qed
qed

lemma triple_looping:
  fixes body :: "'k \<Rightarrow> ('s, 'r, 'e, 'k + 'a) task" and R :: "'s \<Rightarrow> 's \<Rightarrow> bool"
  assumes body: "\<And>k. triple R W (I k) (body k) (\<lambda>r s l. case r of Inl k' \<Rightarrow> I k' s l | Inr x \<Rightarrow> Q x s l)"
    and progress: "\<And>k k' w w'. env_respects R w \<Longrightarrow> I k (w_state w) (w_log w) \<Longrightarrow>
        body k w = (Done (Inl k'), w') \<Longrightarrow> ((k', w'), (k, w)) \<in> r"
    and "wf r"
  shows "triple R W (I k) (looping body k) Q"
proof (rule tripleI)
  fix w w' :: "('s, 'r, 'e) world" and o'
  assume w: "env_respects R w" "I k (w_state w) (w_log w)" "looping body k w = (o', w')"
  let ?post = "\<lambda>(o', w'). case o' of Done x \<Rightarrow> Q x (w_state w') (w_log w') \<and> env_respects R w'
       | Waiting \<Rightarrow> W (w_state w') (w_log w') | _ \<Rightarrow> False"
  let ?I = "\<lambda>(k, w). env_respects R w \<and> I k (w_state w) (w_log w)"
  have "\<exists>x. loop_opt (loop_turn body) (k, w) = Some x \<and> ?post x"
  proof (rule loop_opt_total [OF \<open>wf r\<close>, where I = ?I])
    show "?I (k, w)" using w by simp
  next
    fix kw kw' :: "'k \<times> ('s, 'r, 'e) world"
    assume I: "?I kw" and go: "loop_turn body kw = Inl kw'"
    obtain k1 w1 k2 w2 where [simp]: "kw = (k1, w1)" "kw' = (k2, w2)" by fastforce
    have b: "body k1 w1 = (Done (Inl k2), w2)"
      using go by (auto simp: loop_turn_def split: prod.splits outcome.splits sum.splits)
    have I1: "env_respects R w1" "I k1 (w_state w1) (w_log w1)" using I by auto
    show "?I kw' \<and> (kw', kw) \<in> r"
      using tripleD(1,2) [OF body I1 b] progress [OF I1 b] by simp
  next
    fix kw :: "'k \<times> ('s, 'r, 'e) world" and x
    assume I: "?I kw" and stop: "loop_turn body kw = Inr x"
    obtain k1 w1 o1 w2 where [simp]: "kw = (k1, w1)" and b: "body k1 w1 = (o1, w2)" by fastforce
    have I1: "env_respects R w1" "I k1 (w_state w1) (w_log w1)" using I by auto
    from stop tripleD [OF body I1 b] show "?post x"
      by (auto simp: loop_turn_def b split: outcome.splits sum.splits)
  qed
  then show "case o' of Done x \<Rightarrow> Q x (w_state w') (w_log w') \<and> env_respects R w'
       | Waiting \<Rightarrow> W (w_state w') (w_log w') | _ \<Rightarrow> False"
    using w(3) by (auto simp: looping_def)
qed

text \<open>The two reasons to end.\<close>

lemma triple_looping_rank:
  fixes rank :: "'k \<Rightarrow> nat"
  assumes "\<And>k. triple R W (I k) (body k) (\<lambda>r s l. case r of Inl k' \<Rightarrow> I k' s l \<and> rank k' < rank k | Inr x \<Rightarrow> Q x s l)"
  shows "triple R W (I k) (looping body k) Q"
proof (rule triple_looping [where r = "inv_image less_than (rank \<circ> fst)"])
  fix k
  show "triple R W (I k) (body k) (\<lambda>r s l. case r of Inl k' \<Rightarrow> I k' s l | Inr x \<Rightarrow> Q x s l)"
    by (rule triple_weaken [OF assms]) (auto split: sum.splits)
next
  fix k k' w w'
  assume "env_respects R w" "I k (w_state w) (w_log w)" "body k w = (Done (Inl k'), w')"
  from tripleD(1) [OF assms this refl]
  show "((k', w'), k, w) \<in> inv_image less_than (rank \<circ> fst)" by simp
qed simp

lemma triple_looping_awaits:
  assumes "\<And>k. triple R W (I k) (body k) (\<lambda>r s l. case r of Inl k' \<Rightarrow> I k' s l | Inr x \<Rightarrow> Q x s l)"
    and "\<And>k k' w w'. body k w = (Done (Inl k'), w') \<Longrightarrow> length (w_script w') < length (w_script w)"
  shows "triple R W (I k) (looping body k) Q"
  by (rule triple_looping [where r = "inv_image less_than (\<lambda>(k, w). length (w_script w))"]) (use assms in auto)

lemma triple_sync:
  assumes "\<And>n s l. P s l \<Longrightarrow> \<exists>x. f n = Some x \<and> Q x s l"
  shows "triple R W P (sync f) Q"
  unfolding triple_def
proof (intro allI impI)
  fix w
  assume "env_respects R w" "P (w_state w) (w_log w)"
  then show "case sync f w of (Done x, w') \<Rightarrow> Q x (w_state w') (w_log w') \<and> env_respects R w'
      | (Waiting, w') \<Rightarrow> W (w_state w') (w_log w') | _ \<Rightarrow> False"
    using assms [of "w_state w" "w_log w" "w_now w"] by (auto simp: sync_def)
qed

lemma consumes_sync [simp]: "consumes (sync f)"
  by (simp add: consumes_def sync_def split: option.split)

lemma consumes_looping [simp]:
  assumes "\<And>k. consumes (body k)"
  shows "consumes (looping body k)"
proof -
  have "length (w_script (snd (looping body k w))) \<le> length (w_script w)" for w
  proof (cases "loop_opt (loop_turn body) (k, w)")
    case (Some x)
    have "length (w_script (snd x)) \<le> length (w_script w)"
    proof (rule loop_opt_partial [OF Some, where I = "\<lambda>(k', w'). length (w_script w') \<le> length (w_script w)"])
      fix kw kw'
      assume I: "case kw of (k', w') \<Rightarrow> length (w_script w') \<le> length (w_script w)"
        and go: "loop_turn body kw = Inl kw'"
      then show "case kw' of (k', w') \<Rightarrow> length (w_script w') \<le> length (w_script w)"
        using consumesD [OF assms, of "fst kw" "snd kw"]
        by (fastforce simp: loop_turn_def split: prod.splits outcome.splits sum.splits)
    next
      fix kw x
      assume I: "case kw of (k', w') \<Rightarrow> length (w_script w') \<le> length (w_script w)"
        and "loop_turn body kw = Inr x"
      then show "length (w_script (snd x)) \<le> length (w_script w)"
        using consumesD [OF assms, of "fst kw" "snd kw"]
        by (fastforce simp: loop_turn_def split: prod.splits outcome.splits sum.splits)
    qed simp
    with Some show ?thesis by (simp add: looping_def)
  qed (simp add: looping_def)
  then show ?thesis by (simp add: consumes_def)
qed

lemma triple_fix:
  fixes t :: "('s, 'r, 'e, 'a) task"
  assumes "\<And>s0 l0. P s0 l0 \<Longrightarrow> triple R W (\<lambda>s l. s = s0 \<and> l = l0) t Q"
  shows "triple R W P t Q"
  unfolding triple_def
proof (intro allI impI)
  fix w :: "('s, 'r, 'e) world"
  assume "env_respects R w" "P (w_state w) (w_log w)"
  with assms [OF this(2)] show "case t w of (Done x, w') \<Rightarrow> Q x (w_state w') (w_log w') \<and> env_respects R w'
      | (Waiting, w') \<Rightarrow> W (w_state w') (w_log w') | _ \<Rightarrow> False"
    unfolding triple_def by simp
qed

section \<open>Leaving a loop early\<close>

text \<open>Inside a loop, go on with the value of a result or leave the loop with its error.\<close>

definition ok_or_break ::
  "('s, 'r, 'e, 'x + 'a) task \<Rightarrow> ('x \<Rightarrow> 'b) \<Rightarrow> ('a \<Rightarrow> ('s, 'r, 'e, 'k + 'b) task) \<Rightarrow> ('s, 'r, 'e, 'k + 'b) task" where
  "ok_or_break m leave f = and_then m (\<lambda>r. case r of Inl e \<Rightarrow> ret (Inr (leave e)) | Inr x \<Rightarrow> f x)"

lemma triple_ok_or_break:
  assumes "triple R W P m M" and "\<And>e s l. M (Inl e) s l \<Longrightarrow> Q (Inr (leave e)) s l"
    and "\<And>x. triple R W (M (Inr x)) (f x) Q"
  shows "triple R W P (ok_or_break m leave f) Q"
  unfolding ok_or_break_def
  by (rule triple_and_then [OF assms(1)]) (auto intro: assms(3) triple_ret assms(2) split: sum.split)

lemma consumes_ok_or_break [simp]:
  "consumes m \<Longrightarrow> (\<And>x. consumes (f x)) \<Longrightarrow> consumes (ok_or_break m leave f)"
  unfolding ok_or_break_def by (rule consumes_and_then) (auto split: sum.split)

lemma awaits_ok_or_break:
  "awaits m \<Longrightarrow> (\<And>x. consumes (f x)) \<Longrightarrow> awaits (ok_or_break m leave f)"
  unfolding ok_or_break_def by (rule awaits_first) (auto split: sum.split)

lemma ok_or_break_goes_on:
  "ok_or_break m leave f w = (Done (Inl k), w') \<Longrightarrow> \<exists>x w1. m w = (Done (Inr x), w1) \<and> f x w1 = (Done (Inl k), w')"
  by (auto simp: ok_or_break_def and_then_def ret_def split: prod.splits outcome.splits sum.splits)

lemma awaits_looping:
  assumes "\<And>k. awaits (body k)"
  shows "awaits (looping body k)"
  unfolding awaits_def
proof (intro allI impI)
  fix w x w'
  assume "looping body k w = (Done x, w')"
  then have "loop_opt (loop_turn body) (k, w) = Some (Done x, w')"
    by (auto simp: looping_def split: option.splits)
  then have "(\<lambda>r. fst r = Done x \<longrightarrow> length (w_script (snd r)) < length (w_script w)) (Done x, w')"
  proof (rule loop_opt_partial [where I = "\<lambda>(k', w'). w' = w \<or> length (w_script w') < length (w_script w)"], goal_cases)
    case (2 k1 k2)
    then show ?case
      using awaitsD [OF assms, of "fst k1" "snd k1"]
      by (fastforce simp: loop_turn_def split: prod.splits outcome.splits sum.splits)
  next
    case (3 k1 r)
    then show ?case
      using awaitsD [OF assms, of "fst k1" "snd k1"]
      by (fastforce simp: loop_turn_def split: prod.splits outcome.splits sum.splits)
  qed simp
  then show "length (w_script w') < length (w_script w)" by simp
qed

text \<open>A turn that goes on has awaited something.\<close>

definition advances :: "('s, 'r, 'e, 'k + 'b) task \<Rightarrow> bool" where
  "advances t \<longleftrightarrow> (\<forall>w k w'. t w = (Done (Inl k), w') \<longrightarrow> length (w_script w') < length (w_script w))"

lemma advancesD: "advances t \<Longrightarrow> t w = (Done (Inl k), w') \<Longrightarrow> length (w_script w') < length (w_script w)"
  by (simp add: advances_def)

lemma advances_leave [simp]: "advances (ret (Inr x))" "advances (panics p)"
  by (simp_all add: advances_def ret_def panics_def)

lemma advances_awaits: "awaits t \<Longrightarrow> advances t"
  by (simp add: advances_def awaits_def)

lemma advances_and_then:
  assumes "consumes m" and "\<And>x. advances (f x)"
  shows "advances (and_then m f)"
  unfolding advances_def
proof (intro allI impI)
  fix w k w'
  assume "and_then m f w = (Done (Inl k), w')"
  then obtain x w1 where "m w = (Done x, w1)" "f x w1 = (Done (Inl k), w')"
    by (auto simp: and_then_def split: prod.splits outcome.splits)
  with consumesD [OF assms(1)] advancesD [OF assms(2)]
  show "length (w_script w') < length (w_script w)" by fastforce
qed

lemma advances_ok_or_break:
  "consumes m \<Longrightarrow> (\<And>x. advances (f x)) \<Longrightarrow> advances (ok_or_break m leave f)"
  unfolding ok_or_break_def by (rule advances_and_then) (auto split: sum.split)

lemma triple_looping_advances:
  assumes "\<And>k. triple R W (I k) (body k) (\<lambda>r s l. case r of Inl k' \<Rightarrow> I k' s l | Inr x \<Rightarrow> Q x s l)"
    and "\<And>k. advances (body k)"
  shows "triple R W (I k) (looping body k) Q"
  by (rule triple_looping_awaits) (use assms in \<open>auto dest: advancesD\<close>)

section \<open>Tasks that run alone\<close>

text \<open>
  A task whose state nothing else touches upholds an invariant of the state and the log, at every
  await and when it returns, and returns only values that satisfy \<open>Q\<close>.
\<close>

definition upholds :: "('s \<Rightarrow> 'e list \<Rightarrow> bool) \<Rightarrow> ('s, 'r, 'e, 'a) task \<Rightarrow> ('a \<Rightarrow> bool) \<Rightarrow> bool" where
  "upholds J t Q \<longleftrightarrow> triple (=) J J t (\<lambda>x s l. J s l \<and> Q x)"

lemma upholds_ret: "Q x \<Longrightarrow> upholds J (ret x) Q"
  unfolding upholds_def by (rule triple_ret) simp

lemma upholds_and_then:
  assumes "upholds J m M" and "\<And>x. M x \<Longrightarrow> upholds J (f x) Q"
  shows "upholds J (and_then m f) Q"
  unfolding upholds_def
proof (rule triple_and_then [OF assms(1) [unfolded upholds_def]])
  fix x
  show "triple (=) J (\<lambda>s l. J s l \<and> M x) (f x) (\<lambda>x s l. J s l \<and> Q x)"
    using triple_pure [of "M x", OF assms(2) [unfolded upholds_def]] by (simp add: conj_commute)
qed

lemma upholds_try_then:
  assumes "upholds J m M" and "\<And>e. M (Inl e) \<Longrightarrow> Q (Inl e)" and "\<And>x. M (Inr x) \<Longrightarrow> upholds J (f x) Q"
  shows "upholds J (try_then m f) Q"
  unfolding try_then_def
  by (rule upholds_and_then [OF assms(1)]) (auto intro: assms(3) upholds_ret assms(2) split: sum.split)

lemma upholds_ok_or_break:
  assumes "upholds J m M" and "\<And>e. M (Inl e) \<Longrightarrow> Q (Inr (leave e))" and "\<And>x. M (Inr x) \<Longrightarrow> upholds J (f x) Q"
  shows "upholds J (ok_or_break m leave f) Q"
  unfolding ok_or_break_def
  by (rule upholds_and_then [OF assms(1)]) (auto intro: assms(3) upholds_ret assms(2) split: sum.split)

lemma upholds_weaken: "upholds J t M \<Longrightarrow> (\<And>x. M x \<Longrightarrow> Q x) \<Longrightarrow> upholds J t Q"
  unfolding upholds_def by (erule triple_weaken) auto

lemma upholds_time_now: "upholds J time_now (\<lambda>_. True)"
  unfolding upholds_def by (rule triple_time_now) simp

lemma upholds_sync: "(\<And>now. \<exists>x. f now = Some x \<and> Q x) \<Longrightarrow> upholds J (sync f) Q"
  unfolding upholds_def by (rule triple_sync) auto

lemma upholds_await: "upholds J (await sel) (\<lambda>_. True)"
  unfolding upholds_def by (rule triple_await) auto

lemma upholds_emit: "(\<And>s l. J s l \<Longrightarrow> J s (l @ es)) \<Longrightarrow> upholds J (emit es) (\<lambda>_. True)"
  unfolding upholds_def by (rule triple_emit) auto

lemma upholds_access:
  "(\<And>n s l x s'. J s l \<Longrightarrow> f n s = (x, s') \<Longrightarrow> J s' l) \<Longrightarrow> upholds J (access f) (\<lambda>_. True)"
  unfolding upholds_def by (rule triple_access) auto

lemma upholds_looping_rank:
  assumes "\<And>k. I k \<Longrightarrow> upholds J (body k)
      (\<lambda>r. case r of Inl k' \<Rightarrow> I k' \<and> rank k' < (rank k :: nat) | Inr x \<Rightarrow> Q x)" and "I k"
  shows "upholds J (looping body k) Q"
proof -
  have "triple (=) J (\<lambda>s l. I k \<and> J s l) (looping body k) (\<lambda>x s l. J s l \<and> Q x)" for k
  proof (rule triple_looping_rank [where rank = rank])
    fix k
    show "triple (=) J (\<lambda>s l. I k \<and> J s l) (body k)
        (\<lambda>r s l. case r of Inl k' \<Rightarrow> (I k' \<and> J s l) \<and> rank k' < rank k | Inr x \<Rightarrow> J s l \<and> Q x)"
      by (rule triple_pure, rule triple_weaken [OF assms(1) [unfolded upholds_def]]) (auto split: sum.splits)
  qed
  then show ?thesis
    unfolding upholds_def by (rule triple_weaken [where P = J]) (use assms(2) in auto)
qed

lemma upholds_looping_advances:
  assumes "\<And>k. I k \<Longrightarrow> upholds J (body k) (\<lambda>r. case r of Inl k' \<Rightarrow> I k' | Inr x \<Rightarrow> Q x)"
    and "\<And>k. advances (body k)" and "I k"
  shows "upholds J (looping body k) Q"
proof -
  have "triple (=) J (\<lambda>s l. I k \<and> J s l) (looping body k) (\<lambda>x s l. J s l \<and> Q x)" for k
  proof (rule triple_looping_advances [OF _ assms(2)])
    fix k
    show "triple (=) J (\<lambda>s l. I k \<and> J s l) (body k)
        (\<lambda>r s l. case r of Inl k' \<Rightarrow> I k' \<and> J s l | Inr x \<Rightarrow> J s l \<and> Q x)"
      by (rule triple_pure, rule triple_weaken [OF assms(1) [unfolded upholds_def]]) (auto split: sum.splits)
  qed
  then show ?thesis
    unfolding upholds_def by (rule triple_weaken [where P = J]) (use assms(3) in auto)
qed

lemma upholdsD:
  assumes "upholds J t Q" and "env_respects (=) w" and "J (w_state w) (w_log w)" and "t w = (r, w')"
  shows "r = Done x \<Longrightarrow> Q x" and "J (w_state w') (w_log w')" and "r = Done x \<Longrightarrow> env_respects (=) w'"
    and "r \<noteq> Panicked p" and "r \<noteq> Diverged"
proof -
  note D = tripleD [OF assms(1) [unfolded upholds_def] assms(2-4)]
  show "r = Done x \<Longrightarrow> Q x" "r = Done x \<Longrightarrow> env_respects (=) w'" "r \<noteq> Panicked p" "r \<noteq> Diverged"
    using D by auto
  show "J (w_state w') (w_log w')" using D by (cases r) auto
qed

end
