(* ===== verification/Spike.thy ===== *)
theory Spike
  imports Streams Loops
begin

text \<open>
  Model of \<open>guest/src/endpoint.rs\<close>, the spike from which the endpoint grew: one QUIC connection over
  one wire, a WebRTC data channel or a relay connection bound to one peer, and the demo application
  that runs on it. A run is a single task; its local variables are the values of the loops, and the
  shared state holds the cells for the peer a wire or a signaling exchange is bound to. Awaits are
  answered by the script. Rendering of noq's errors, and the Unicode case mapping of
  \<open>str::to_uppercase\<close>, are arguments.
\<close>

section \<open>Definitions\<close>

subsection \<open>The run's surroundings\<close>

text \<open>The \<open>Cell\<close>s of \<open>Signaling\<close> and of \<open>Wire::Relay\<close>.\<close>

record spike_cells =
  cell_signal :: "endpoint_id option"
  cell_wire :: "endpoint_id option"

datatype wire_input = ChannelInput "channel_message sresult" | RelayInput "datagram sresult"

text \<open>Which future a select found ready: the wire's \<open>receive\<close> or the clock tick.\<close>

datatype spike_ready = RecvReady wire_input | TickFired

record spike_answer = rtc_answer +
  sa_send :: "unit sresult"
  sa_ready :: spike_ready
  sa_datagram :: "datagram sresult"
  sa_identity :: "identity sresult"
  sa_relay :: "unit sresult"

datatype spike_effect =
    Announce endpoint_id
  | ConnectRelay string endpoint_id
  | SendToPeer endpoint_id bytes
  | SendOnChannel bytes
  | RtcCall rtc_effect
  | CloseDataChannel
  | CloseRelayConn
  | ClosePeerConnection

type_synonym 'a spike_task = "(spike_cells, spike_answer, spike_effect, 'a) task"

text \<open>The operations of noq the spike uses beyond the endpoint's, and how its errors render.\<close>

record ('n, 'c, 'i, 'ce, 'ee, 'cfg) noq_spike = "('n, 'c, 'i, 'ce, 'ee, 'cfg) noq_streams" +
  nq_accept_cause :: "'i \<Rightarrow> nat \<Rightarrow> 'n \<Rightarrow> string"
  nc_identity_is_chain :: "'c \<Rightarrow> bool"
  nc_recv_open :: "bool \<Rightarrow> nat \<Rightarrow> 'c \<Rightarrow> (readable_error + unit) \<times> 'c"
  nc_chunks_next :: "nat \<Rightarrow> 'c \<Rightarrow> (read_error + bytes option) \<times> 'c"
  nc_chunks_finalize :: "nat \<Rightarrow> 'c \<Rightarrow> 'c"
  text_write :: "write_error \<Rightarrow> string"
  text_finish :: "finish_error \<Rightarrow> string"
  text_read :: "read_error \<Rightarrow> string"
  text_send_datagram :: "send_datagram_error \<Rightarrow> string"
  text_loss :: "connection_error \<Rightarrow> string"

subsection \<open>The wire\<close>

datatype spike_wire = WireChannel | WireRelay

definition wire_receive :: "wire_input \<Rightarrow> spike_cells \<Rightarrow> bytes option sresult \<times> spike_cells" where
  "wire_receive input s =
     (case input of
        ChannelInput (Inr (ChannelBinary d)) \<Rightarrow> (Inr (Some d), s)
      | ChannelInput (Inr (ChannelString _)) \<Rightarrow> (Inr None, s)
      | ChannelInput (Inl err) \<Rightarrow> (Inl (''data channel: '' @ err), s)
      | RelayInput (Inl err) \<Rightarrow> (Inl err, s)
      | RelayInput (Inr d) \<Rightarrow>
          (case cell_wire s of
             None \<Rightarrow> (Inr (Some (payload d)), s\<lparr>cell_wire := Some (source d)\<rparr>)
           | Some expected \<Rightarrow> (Inr (if expected = source d then Some (payload d) else None), s)))"

definition wire_send :: "spike_wire \<Rightarrow> bytes \<Rightarrow> unit sresult spike_task" where
  "wire_send wire data =
     (case wire of
        WireChannel \<Rightarrow>
          and_then (emit [SendOnChannel data]) (\<lambda>_.
          and_then (await sa_send) (\<lambda>r. ret (map_err ((@) ''data channel: '') r)))
      | WireRelay \<Rightarrow>
          and_then (access (\<lambda>_ s. (cell_wire s, s))) (\<lambda>peer.
            case peer of
              None \<Rightarrow> ret (Inl ''relay wire has no peer yet'')
            | Some p \<Rightarrow> and_then (emit [SendToPeer p data]) (\<lambda>_. await sa_send)))"

definition wire_close :: "spike_wire \<Rightarrow> unit spike_task" where
  "wire_close wire = emit [case wire of WireChannel \<Rightarrow> CloseDataChannel | WireRelay \<Rightarrow> CloseRelayConn]"

definition wire_peer :: "spike_wire \<Rightarrow> spike_cells \<Rightarrow> endpoint_id option" where
  "wire_peer wire s = (case wire of WireChannel \<Rightarrow> None | WireRelay \<Rightarrow> cell_wire s)"

subsection \<open>Constants\<close>

definition CLIENT_ADDR :: socket_addr where
  "CLIENT_ADDR = V4 (10, 0, 0, 1) 1111"

definition SERVER_ADDR :: socket_addr where
  "SERVER_ADDR = V4 (10, 0, 0, 2) 4433"

definition SPIKE_ALPN :: bytes where
  "SPIKE_ALPN = string_bytes ''iroh-spike/0''"

definition SPIKE_LINGER :: nat where
  "SPIKE_LINGER = 500000000"

definition RUN_DEADLINE :: nat where
  "RUN_DEADLINE = 30000000000"

definition DATAGRAM_COPIES :: nat where
  "DATAGRAM_COPIES = 3"

subsection \<open>The demo application\<close>

datatype spike_role = SpikeClient string | SpikeServer

record spike_outcome =
  so_peer_id :: endpoint_id
  so_handshake_ms :: u64
  so_roundtrip_ms :: u64
  so_received :: string

record app =
  ap_role :: spike_role
  ap_handshake_ms :: "u64 option"
  ap_peer_id :: "endpoint_id option"
  ap_stream :: "nat option"
  ap_inbound :: bytes
  ap_sent_at :: "nat option"
  ap_roundtrip_ms :: u64
  ap_received :: "string option"
  ap_datagram_sent :: bool
  ap_datagram_received :: "bytes option"
  ap_done_at :: "nat option"
  ap_close_sent :: bool

definition app_new :: "spike_role \<Rightarrow> app" where
  "app_new role =
     \<lparr>ap_role = role, ap_handshake_ms = None, ap_peer_id = None, ap_stream = None, ap_inbound = [],
      ap_sent_at = None, ap_roundtrip_ms = 0, ap_received = None, ap_datagram_sent = False,
      ap_datagram_received = None, ap_done_at = None, ap_close_sent = False\<rparr>"

definition peer_endpoint_id ::
  "('n, 'c, 'i, 'ce, 'ee, 'cfg, 'z) noq_spike_scheme \<Rightarrow> 'c \<Rightarrow> endpoint_id sresult" where
  "peer_endpoint_id N c =
     (case nc_peer_identity N c of
        None \<Rightarrow> Inl ''peer presented no identity''
      | Some certs \<Rightarrow>
          if \<not> nc_identity_is_chain N c then Inl ''unexpected peer identity type''
          else
            (case certs of
               [] \<Rightarrow> Inl ''empty peer certificate list''
             | spki # _ \<Rightarrow>
                 (case endpoint_id_from_spki (spki_key N) spki of
                    None \<Rightarrow> Inl ''peer key is not Ed25519''
                  | Some pid \<Rightarrow> Inr pid)))"

text \<open>Write all of a message in one call and finish the stream; the texts name the message.\<close>

definition write_whole ::
  "('n, 'c, 'i, 'ce, 'ee, 'cfg, 'z) noq_spike_scheme \<Rightarrow> string \<Rightarrow> string \<Rightarrow> nat \<Rightarrow> bytes \<Rightarrow> 'c \<Rightarrow> 'c sresult" where
  "write_whole N what too_long sid bs c =
     (case nc_send_write N sid bs c of
        (Inl e, _) \<Rightarrow> Inl (what @ '' write: '' @ text_write N e)
      | (Inr accepted, c1) \<Rightarrow>
          if accepted \<noteq> length bs then Inl too_long
          else
            (case nc_send_finish N sid c1 of
               (Inl e, _) \<Rightarrow> Inl (what @ '' finish: '' @ text_finish N e)
             | (Inr _, c2) \<Rightarrow> Inr c2))"

definition app_connected ::
  "('n, 'c, 'i, 'ce, 'ee, 'cfg, 'z) noq_spike_scheme \<Rightarrow> nat \<Rightarrow> nat \<Rightarrow> app \<Rightarrow> 'c \<Rightarrow> (app \<times> 'c) sresult" where
  "app_connected N now started a c =
     (case peer_endpoint_id N c of
        Inl e \<Rightarrow> Inl e
      | Inr pid \<Rightarrow>
          (let a1 = a\<lparr>ap_handshake_ms := Some (millis (now - started)), ap_peer_id := Some pid\<rparr>
           in case ap_role a of
                SpikeServer \<Rightarrow> Inr (a1, c)
              | SpikeClient message \<Rightarrow>
                  (case nc_streams_open N Bi c of
                     (None, _) \<Rightarrow> Inl ''no bidirectional stream credit''
                   | (Some sid, c1) \<Rightarrow>
                       (case write_whole N ''stream'' ''demo message did not fit the stream window'' sid
                               (string_bytes message) c1 of
                          Inl e \<Rightarrow> Inl e
                        | Inr c2 \<Rightarrow> Inr (a1\<lparr>ap_stream := Some sid, ap_sent_at := Some now\<rparr>, c2)))))"

text \<open>Reading a stream: the chunks at hand, and whether the stream ended.\<close>

definition read_chunks ::
  "('n, 'c, 'i, 'ce, 'ee, 'cfg, 'z) noq_spike_scheme \<Rightarrow> nat \<Rightarrow> bytes \<Rightarrow> 'c \<Rightarrow> (bool \<times> bytes \<times> 'c) sresult option" where
  "read_chunks N sid got_bytes c =
     loop_opt (\<lambda>(got_bytes, c).
       case nc_chunks_next N sid c of
         (Inr (Some chunk), c') \<Rightarrow> Inl (got_bytes @ chunk, c')
       | (Inr None, c') \<Rightarrow> Inr (Inr (True, got_bytes, c'))
       | (Inl ReadBlocked, c') \<Rightarrow> Inr (Inr (False, got_bytes, c'))
       | (Inl e, _) \<Rightarrow> Inr (Inl (''stream read: '' @ text_read N e))) (got_bytes, c)"

definition complete_read ::
  "('n, 'c, 'i, 'ce, 'ee, 'cfg, 'z) noq_spike_scheme \<Rightarrow> (string \<Rightarrow> string) \<Rightarrow> nat \<Rightarrow> nat \<Rightarrow> app \<Rightarrow> 'c \<Rightarrow> (app \<times> 'c) sresult" where
  "complete_read N to_uppercase now sid a c =
     (let text = from_utf8_lossy (ap_inbound a);
          a1 = a\<lparr>ap_received := Some text\<rparr>
      in case ap_role a of
           SpikeClient _ \<Rightarrow>
             Inr (a1\<lparr>ap_roundtrip_ms := (case ap_sent_at a of Some at \<Rightarrow> millis (now - at) | None \<Rightarrow> 0)\<rparr>, c)
         | SpikeServer \<Rightarrow>
             map_sum id (\<lambda>c'. (a1, c'))
               (write_whole N ''echo'' ''echo did not fit the stream window'' sid
                  (string_bytes (to_uppercase text)) c))"

definition read_stream ::
  "('n, 'c, 'i, 'ce, 'ee, 'cfg, 'z) noq_spike_scheme \<Rightarrow> (string \<Rightarrow> string) \<Rightarrow> nat \<Rightarrow> nat \<Rightarrow> app \<Rightarrow> 'c
     \<Rightarrow> (app \<times> 'c) sresult option" where
  "read_stream N to_uppercase now sid a c =
     (case nc_recv_open N True sid c of
        (Inl _, c1) \<Rightarrow> Some (Inr (a, c1))
      | (Inr _, c1) \<Rightarrow>
          Option.bind (read_chunks N sid (ap_inbound a) c1) (\<lambda>r.
            case r of
              Inl e \<Rightarrow> Some (Inl e)
            | Inr (finished, got_bytes, c2) \<Rightarrow>
                (let a1 = a\<lparr>ap_inbound := got_bytes\<rparr>; c3 = nc_chunks_finalize N sid c2
                 in Some (if finished then complete_read N to_uppercase now sid a1 c3 else Inr (a1, c3)))))"

text \<open>The datagram leg.\<close>

primrec send_copies ::
  "('n, 'c, 'i, 'ce, 'ee, 'cfg, 'z) noq_spike_scheme \<Rightarrow> string \<Rightarrow> nat \<Rightarrow> bytes \<Rightarrow> 'c \<Rightarrow> 'c sresult" where
  "send_copies N what 0 data c = Inr c"
| "send_copies N what (Suc n) data c =
     (case nc_datagrams_send N data c of
        (Inl e, _) \<Rightarrow> Inl (what @ text_send_datagram N e)
      | (Inr _, c') \<Rightarrow> send_copies N what n data c')"

definition demo_datagram :: "string \<Rightarrow> bytes" where
  "demo_datagram message = string_bytes (''datagram '' @ message)"

definition take_datagrams ::
  "('n, 'c, 'i, 'ce, 'ee, 'cfg, 'z) noq_spike_scheme \<Rightarrow> app \<Rightarrow> 'c \<Rightarrow> (app \<times> 'c) sresult option" where
  "take_datagrams N a c =
     loop_opt (\<lambda>(a, c).
       case nc_datagrams_recv N c of
         (None, c') \<Rightarrow> Inr (Inr (a, c'))
       | (Some data, c') \<Rightarrow>
           (case ap_role a of
              SpikeClient message \<Rightarrow>
                (let expect = demo_datagram message
                 in if data \<noteq> expect
                    then Inr (Inl (''datagram echo mismatch: expected '' @ dec_string (length expect)
                           @ '' bytes, got '' @ dec_string (length data)))
                    else Inl (a\<lparr>ap_datagram_received := Some data\<rparr>, c'))
            | SpikeServer \<Rightarrow>
                (case send_copies N ''datagram echo: '' DATAGRAM_COPIES data c' of
                   Inl e \<Rightarrow> Inr (Inl e)
                 | Inr c2 \<Rightarrow> Inl (a, c2)))) (a, c)"

definition app_handle_event ::
  "('n, 'c, 'i, 'ce, 'ee, 'cfg, 'z) noq_spike_scheme \<Rightarrow> (string \<Rightarrow> string) \<Rightarrow> nat \<Rightarrow> nat \<Rightarrow> event \<Rightarrow> app \<Rightarrow> 'c
     \<Rightarrow> (app \<times> 'c) sresult option" where
  "app_handle_event N to_uppercase now started ev a c =
     (case ev of
        Connected \<Rightarrow> Some (app_connected N now started a c)
      | StreamOpened Bi \<Rightarrow>
          if ap_role a = SpikeServer \<and> ap_stream a = None
          then (case nc_streams_accept N Bi c of
                  (sid, c1) \<Rightarrow>
                    (let a1 = a\<lparr>ap_stream := sid\<rparr>
                     in case sid of
                          None \<Rightarrow> Some (Inr (a1, c1))
                        | Some i \<Rightarrow> read_stream N to_uppercase now i a1 c1))
          else Some (Inr (a, c))
      | StreamReadable i \<Rightarrow>
          if ap_stream a = Some i then read_stream N to_uppercase now i a c else Some (Inr (a, c))
      | DatagramReceived \<Rightarrow> take_datagrams N a c
      | ConnectionLost reason \<Rightarrow>
          if reason = ApplicationClosed \<and> ap_received a \<noteq> None
          then Some (Inr (a\<lparr>ap_done_at := Some (case ap_done_at a of Some at \<Rightarrow> at | None \<Rightarrow> now)\<rparr>, c))
          else Some (Inl (''connection lost: '' @ text_loss N reason))
      | _ \<Rightarrow> Some (Inr (a, c)))"

definition app_drive ::
  "('n, 'c, 'i, 'ce, 'ee, 'cfg, 'z) noq_spike_scheme \<Rightarrow> nat \<Rightarrow> app \<Rightarrow> 'c \<Rightarrow> (app \<times> 'c) sresult" where
  "app_drive N now a c =
     (case ap_role a of
        SpikeServer \<Rightarrow> Inr (a, c)
      | SpikeClient message \<Rightarrow>
          (case (if ap_received a \<noteq> None \<and> \<not> ap_datagram_sent a
                 then map_sum id (\<lambda>c'. (a\<lparr>ap_datagram_sent := True\<rparr>, c'))
                        (send_copies N ''datagram send: '' DATAGRAM_COPIES (demo_datagram message) c)
                 else Inr (a, c)) of
             Inl e \<Rightarrow> Inl e
           | Inr (a1, c1) \<Rightarrow>
               if ap_datagram_received a1 \<noteq> None \<and> \<not> ap_close_sent a1
               then Inr (a1\<lparr>ap_close_sent := True, ap_done_at := Some now\<rparr>,
                         nc_close N now 0 (string_bytes ''done'') c1)
               else Inr (a1, c1)))"

definition app_finish :: "app \<Rightarrow> spike_outcome sresult" where
  "app_finish a =
     (case ap_peer_id a of
        None \<Rightarrow> Inl ''finished without a peer identity''
      | Some pid \<Rightarrow>
          (case ap_handshake_ms a of
             None \<Rightarrow> Inl ''finished without a handshake''
           | Some ms \<Rightarrow>
               (case ap_received a of
                  None \<Rightarrow> Inl ''finished without a payload''
                | Some text \<Rightarrow>
                    Inr \<lparr>so_peer_id = pid, so_handshake_ms = ms, so_roundtrip_ms = ap_roundtrip_ms a,
                         so_received = text\<rparr>)))"

subsection \<open>Setting up\<close>

record ('n, 'rpk, 'ctls, 'stls, 'cfg, 'quic) spike_deps =
  sd_reset_key :: "bytes sresult"
  sd_token_master :: "bytes sresult"
  sd_external :: "webcrypto_ed25519 \<Rightarrow> 'rpk sresult"
  sd_rpk_client_config :: "'rpk \<Rightarrow> endpoint_id \<Rightarrow> bytes list \<Rightarrow> 'ctls sresult"
  sd_rpk_server_config :: "'rpk \<Rightarrow> bytes list \<Rightarrow> 'stls sresult"
  sd_quic_client :: "'ctls \<Rightarrow> 'cfg sresult"
  sd_quic_server :: "'stls \<Rightarrow> 'quic sresult"
  sd_noq_new :: "bytes \<Rightarrow> ('quic \<times> bytes \<times> quic_transport) option \<Rightarrow> 'n"

definition spike_endpoint_config :: "('n, 'rpk, 'ctls, 'stls, 'cfg, 'quic, 'y) spike_deps_scheme \<Rightarrow> bytes sresult" where
  "spike_endpoint_config D = map_err ((@) ''getrandom: '') (sd_reset_key D)"

definition setup_client ::
  "('n, 'c, 'i, 'ce, 'ee, 'cfg, 'z) noq_spike_scheme \<Rightarrow> ('n, 'rpk, 'ctls, 'stls, 'cfg, 'quic, 'y) spike_deps_scheme
     \<Rightarrow> identity \<Rightarrow> endpoint_id option \<Rightarrow> nat \<Rightarrow> ('n \<times> (nat \<times> 'c) option) sresult" where
  "setup_client N D i peer_arg now =
     (case peer_arg of
        None \<Rightarrow> Inl ''client role requires the peer's endpoint id''
      | Some peer \<Rightarrow>
          (case spike_endpoint_config D of
             Inl e \<Rightarrow> Inl e
           | Inr reset_key \<Rightarrow>
               (case client_config (sd_external D) (sd_rpk_client_config D) i peer [SPIKE_ALPN] of
                  Inl e \<Rightarrow> Inl (''client tls config: '' @ e)
                | Inr tls \<Rightarrow>
                    (case sd_quic_client D tls of
                       Inl e \<Rightarrow> Inl (''client quic config: '' @ e)
                     | Inr config \<Rightarrow>
                         (case nq_connect N now config transport_config SERVER_ADDR SERVER_NAME
                                 (sd_noq_new D reset_key None) of
                            (Inl e, _) \<Rightarrow> Inl (''connect: '' @ e)
                          | (Inr pair, n) \<Rightarrow> Inr (n, Some pair))))))"

definition setup_server ::
  "('n, 'rpk, 'ctls, 'stls, 'cfg, 'quic, 'y) spike_deps_scheme \<Rightarrow> identity \<Rightarrow> ('n \<times> (nat \<times> 'c) option) sresult" where
  "setup_server D i =
     (case server_config (sd_external D) (sd_rpk_server_config D) i [SPIKE_ALPN] of
        Inl e \<Rightarrow> Inl (''server tls config: '' @ e)
      | Inr tls \<Rightarrow>
          (case sd_token_master D of
             Inl e \<Rightarrow> Inl (''getrandom: '' @ e)
           | Inr token_master \<Rightarrow>
               (case sd_quic_server D tls of
                  Inl e \<Rightarrow> Inl (''server quic config: '' @ e)
                | Inr quic \<Rightarrow>
                    (case spike_endpoint_config D of
                       Inl e \<Rightarrow> Inl e
                     | Inr reset_key \<Rightarrow>
                         Inr (sd_noq_new D reset_key (Some (quic, token_master, transport_config)), None)))))"

definition run_setup ::
  "('n, 'c, 'i, 'ce, 'ee, 'cfg, 'z) noq_spike_scheme \<Rightarrow> ('n, 'rpk, 'ctls, 'stls, 'cfg, 'quic, 'y) spike_deps_scheme
     \<Rightarrow> identity \<Rightarrow> endpoint_id option \<Rightarrow> spike_role \<Rightarrow> nat \<Rightarrow> ('n \<times> (nat \<times> 'c) option) sresult" where
  "run_setup N D i peer_arg role now =
     (case role of
        SpikeClient _ \<Rightarrow> setup_client N D i peer_arg now
      | SpikeServer \<Rightarrow> setup_server D i)"

subsection \<open>Draining the connection\<close>

definition spike_endpoint_events ::
  "('n, 'c, 'i, 'ce, 'ee, 'cfg, 'z) noq_spike_scheme \<Rightarrow> nat \<Rightarrow> 'n \<Rightarrow> 'c \<Rightarrow> ('n \<times> 'c \<times> bool) option" where
  "spike_endpoint_events N h n c =
     loop_opt (\<lambda>(n, c, progressed).
       case nc_poll_endpoint_events N c of
         (None, c') \<Rightarrow> Inr (n, c', progressed)
       | (Some ev, c') \<Rightarrow>
           (case nq_handle_event N h ev n of
              (back, n') \<Rightarrow> Inl (n', case back of None \<Rightarrow> c' | Some b \<Rightarrow> nc_handle_event N b c', True)))
       (n, c, False)"

definition spike_app_events ::
  "('n, 'c, 'i, 'ce, 'ee, 'cfg, 'z) noq_spike_scheme \<Rightarrow> (string \<Rightarrow> string) \<Rightarrow> nat \<Rightarrow> app \<Rightarrow> 'c \<Rightarrow> bool
     \<Rightarrow> (app \<times> 'c \<times> bool) sresult spike_task" where
  "spike_app_events N to_uppercase started a c progressed =
     looping (\<lambda>(a, c, progressed).
       case nc_poll N c of
         (None, c') \<Rightarrow> ret (Inr (Inr (a, c', progressed)))
       | (Some ev, c') \<Rightarrow>
           ok_or_break (sync (\<lambda>now. app_handle_event N to_uppercase now started ev a c')) Inl
             (\<lambda>(a', c''). ret (Inl (a', c'', True)))) (a, c, progressed)"

definition spike_transmits ::
  "('n, 'c, 'i, 'ce, 'ee, 'cfg, 'z) noq_spike_scheme \<Rightarrow> spike_wire \<Rightarrow> 'c \<Rightarrow> bool \<Rightarrow> ('c \<times> bool) sresult spike_task" where
  "spike_transmits N wire c progressed =
     looping (\<lambda>(c, progressed).
       and_then time_now (\<lambda>now.
         case nc_poll_transmit N now c of
           (None, _, c') \<Rightarrow> ret (Inr (Inr (c', progressed)))
         | (Some tx, buf, c') \<Rightarrow>
             (case slice_to (tx_size tx) buf of
                Inl p \<Rightarrow> panics p
              | Inr data \<Rightarrow> ok_or_break (wire_send wire data) Inl (\<lambda>_. ret (Inl (c', True)))))) (c, progressed)"

text \<open>The inner loop: all three until none makes progress.\<close>

definition spike_quiesce ::
  "('n, 'c, 'i, 'ce, 'ee, 'cfg, 'z) noq_spike_scheme \<Rightarrow> (string \<Rightarrow> string) \<Rightarrow> spike_wire \<Rightarrow> nat \<Rightarrow> nat \<Rightarrow> 'n \<Rightarrow> app \<Rightarrow> 'c
     \<Rightarrow> ('n \<times> app \<times> 'c) sresult spike_task" where
  "spike_quiesce N to_uppercase wire started h n a c =
     looping (\<lambda>(n, a, c).
       and_then (sync (\<lambda>_. spike_endpoint_events N h n c)) (\<lambda>(n1, c1, p1).
       ok_or_break (spike_app_events N to_uppercase started a c1 p1) Inl (\<lambda>(a2, c2, p2).
       ok_or_break (spike_transmits N wire c2 p2) Inl (\<lambda>(c3, p3).
         ret (if p3 then Inl (n1, a2, c3) else Inr (Inr (n1, a2, c3))))))) (n, a, c)"

subsection \<open>The pump\<close>

text \<open>Only an armed receive of this wire's kind can be ready.\<close>

definition is_ready :: "spike_wire \<Rightarrow> spike_ready \<Rightarrow> bool" where
  "is_ready wire ready =
     (case ready of
        RecvReady (ChannelInput _) \<Rightarrow> wire = WireChannel
      | RecvReady (RelayInput _) \<Rightarrow> wire = WireRelay
      | TickFired \<Rightarrow> True)"

definition spike_select :: "spike_wire \<Rightarrow> spike_ready spike_task" where
  "spike_select wire =
     looping (\<lambda>_. and_then (await sa_ready) (\<lambda>ready.
       ret (if is_ready wire ready then Inr ready else Inl ()))) ()"

definition spike_handle_datagram ::
  "('n, 'c, 'i, 'ce, 'ee, 'cfg, 'z) noq_spike_scheme \<Rightarrow> spike_wire \<Rightarrow> bytes \<Rightarrow> 'n \<Rightarrow> (nat \<times> 'c) option
     \<Rightarrow> ('n \<times> (nat \<times> 'c) option) sresult spike_task" where
  "spike_handle_datagram N wire data n conn =
     and_then time_now (\<lambda>now.
       let remote = (case conn of
                       None \<Rightarrow> CLIENT_ADDR
                     | Some (_, c) \<Rightarrow> (case nc_network_path N c of None \<Rightarrow> CLIENT_ADDR | Some addr \<Rightarrow> addr))
       in case nq_handle N now remote data n of
            (Some (ConnectionEvent h ev), _, n1) \<Rightarrow>
              ret (Inr (n1, map_option (\<lambda>(ours, c). (ours, if ours = h then nc_handle_event N ev c else c)) conn))
          | (Some (NewConnection inc), _, n1) \<Rightarrow>
              (case conn of
                 Some _ \<Rightarrow> ret (Inr (n1, conn))
               | None \<Rightarrow>
                   (case nq_accept N inc now n1 of
                      (Inl _, _, _) \<Rightarrow> ret (Inl (''accept: '' @ nq_accept_cause N inc now n1))
                    | (Inr pair, _, n2) \<Rightarrow> ret (Inr (n2, Some pair))))
          | (Some (Response tx), buf, n1) \<Rightarrow>
              (case slice_to (tx_size tx) buf of
                 Inl p \<Rightarrow> panics p
               | Inr resp \<Rightarrow> try_then (wire_send wire resp) (\<lambda>_. ret (Inr (n1, conn))))
          | (None, _, n1) \<Rightarrow> ret (Inr (n1, conn)))"

text \<open>The pump's variables. It leaves with the outcome and whether the receive is still in flight.\<close>

record ('n, 'c) run_vars =
  rv_endpoint :: 'n
  rv_connection :: "(nat \<times> 'c) option"
  rv_app :: app

definition spike_timeout ::
  "('n, 'c, 'i, 'ce, 'ee, 'cfg, 'z) noq_spike_scheme \<Rightarrow> nat \<Rightarrow> 'c \<Rightarrow> 'c" where
  "spike_timeout N now c =
     (case nc_poll_timeout N c of
        (Some deadline, c') \<Rightarrow> if deadline \<le> now then nc_handle_timeout N now c' else c'
      | (None, c') \<Rightarrow> c')"

definition spike_select_turn ::
  "('n, 'c, 'i, 'ce, 'ee, 'cfg, 'z) noq_spike_scheme \<Rightarrow> spike_wire \<Rightarrow> ('n, 'c) run_vars
     \<Rightarrow> (('n, 'c) run_vars + spike_outcome sresult \<times> bool) spike_task" where
  "spike_select_turn N wire v =
     and_then (spike_select wire) (\<lambda>ready.
       case ready of
         RecvReady input \<Rightarrow>
           and_then (access (\<lambda>_. wire_receive input)) (\<lambda>received.
             case received of
               Inr None \<Rightarrow> ret (Inl v)
             | Inr (Some data) \<Rightarrow>
                 ok_or_break (spike_handle_datagram N wire data (rv_endpoint v) (rv_connection v))
                   (\<lambda>e. (Inl e, True))
                   (\<lambda>(n, conn). ret (Inl (v\<lparr>rv_endpoint := n, rv_connection := conn\<rparr>)))
             | Inl err \<Rightarrow>
                 ret (Inr (if ap_done_at (rv_app v) \<noteq> None \<and> rv_connection v \<noteq> None
                           then app_finish (rv_app v) else Inl err, False)))
       | TickFired \<Rightarrow>
           and_then time_now (\<lambda>now.
             ret (Inl (v\<lparr>rv_connection := map_option (map_prod id (spike_timeout N now)) (rv_connection v)\<rparr>))))"

definition spike_finished ::
  "('n, 'c, 'i, 'ce, 'ee, 'cfg, 'z) noq_spike_scheme \<Rightarrow> nat \<Rightarrow> app \<Rightarrow> 'c \<Rightarrow> bool" where
  "spike_finished N now a c =
     (case ap_done_at a of
        None \<Rightarrow> False
      | Some done_at \<Rightarrow> SPIKE_LINGER \<le> now - done_at \<or> nc_is_drained N c)"

definition spike_turn ::
  "('n, 'c, 'i, 'ce, 'ee, 'cfg, 'z) noq_spike_scheme \<Rightarrow> (string \<Rightarrow> string) \<Rightarrow> spike_wire \<Rightarrow> nat \<Rightarrow> ('n, 'c) run_vars
     \<Rightarrow> (('n, 'c) run_vars + spike_outcome sresult \<times> bool) spike_task" where
  "spike_turn N to_uppercase wire started v =
     and_then time_now (\<lambda>now.
       if RUN_DEADLINE < now - started then ret (Inr (Inl ''run deadline exceeded'', True))
       else
         (case rv_connection v of
            None \<Rightarrow> spike_select_turn N wire v
          | Some (h, c) \<Rightarrow>
              ok_or_break (spike_quiesce N to_uppercase wire started h (rv_endpoint v) (rv_app v) c)
                (\<lambda>e. (Inl e, True)) (\<lambda>(n, a, c1).
              ok_or_break (and_then time_now (\<lambda>now. ret (app_drive N now a c1)))
                (\<lambda>e. (Inl e, True)) (\<lambda>(a1, c2).
              and_then time_now (\<lambda>now.
                if spike_finished N now a1 c2 then ret (Inr (app_finish a1, True))
                else spike_select_turn N wire
                       \<lparr>rv_endpoint = n, rv_connection = Some (h, c2), rv_app = a1\<rparr>)))))"

text \<open>Resolving the pinned imports: drain the receive to its error, then one more tick.\<close>

definition drain_recv :: "spike_wire \<Rightarrow> unit spike_task" where
  "drain_recv wire =
     looping (\<lambda>_. and_then (spike_select wire) (\<lambda>ready.
       case ready of
         RecvReady input \<Rightarrow>
           and_then (access (\<lambda>_. wire_receive input)) (\<lambda>received.
             ret (case received of Inr _ \<Rightarrow> Inl () | Inl _ \<Rightarrow> Inr ()))
       | TickFired \<Rightarrow> ret (Inl ()))) ()"

definition spike_teardown :: "spike_wire \<Rightarrow> bool \<Rightarrow> unit spike_task" where
  "spike_teardown wire armed =
     and_then (wire_close wire) (\<lambda>_.
     and_then (if armed then drain_recv wire else ret ()) (\<lambda>_.
       await (\<lambda>_. ())))"

definition spike_run ::
  "('n, 'c, 'i, 'ce, 'ee, 'cfg, 'z) noq_spike_scheme \<Rightarrow> ('n, 'rpk, 'ctls, 'stls, 'cfg, 'quic, 'y) spike_deps_scheme
     \<Rightarrow> (string \<Rightarrow> string) \<Rightarrow> identity \<Rightarrow> endpoint_id option \<Rightarrow> spike_wire \<Rightarrow> spike_role
     \<Rightarrow> spike_outcome sresult spike_task" where
  "spike_run N D to_uppercase i peer_arg wire role =
     try_then (and_then time_now (\<lambda>now. ret (run_setup N D i peer_arg role now))) (\<lambda>(n, conn).
     and_then time_now (\<lambda>started.
     and_then (looping (spike_turn N to_uppercase wire started)
                 \<lparr>rv_endpoint = n, rv_connection = conn, rv_app = app_new role\<rparr>) (\<lambda>(result, armed).
     and_then (spike_teardown wire armed) (\<lambda>_.
       ret result))))"

section \<open>Lemmas\<close>

subsection \<open>What noq promises\<close>

text \<open>
  The queues of noq are finite: beyond \<^const>\<open>noq_finite_backlog\<close>, an operation on a stream or a
  datagram adds at most \<open>step\<close> to what there is to poll, an event is worth more than five of them and
  a received datagram more than the three copies of its echo.
\<close>

definition spike_backlog ::
  "('n, 'c, 'i, 'ce, 'ee, 'cfg, 'z) noq_spike_scheme \<Rightarrow> ('c \<Rightarrow> nat) \<Rightarrow> nat \<Rightarrow> nat \<Rightarrow> bool" where
  "spike_backlog N rank fed step \<longleftrightarrow>
     noq_finite_backlog N rank fed (5 * step)
     \<and> (\<forall>d c r c'. nc_streams_open N d c = (r, c') \<longrightarrow> rank c' \<le> rank c + step)
     \<and> (\<forall>sid bs c r c'. nc_send_write N sid bs c = (r, c') \<longrightarrow> rank c' \<le> rank c + step)
     \<and> (\<forall>sid c r c'. nc_send_finish N sid c = (r, c') \<longrightarrow> rank c' \<le> rank c + step)
     \<and> (\<forall>ordered sid c r c'. nc_recv_open N ordered sid c = (r, c') \<longrightarrow> rank c' \<le> rank c + step)
     \<and> (\<forall>sid c. rank (nc_chunks_finalize N sid c) \<le> rank c + step)
     \<and> (\<forall>sid c r c'. nc_chunks_next N sid c = (r, c') \<longrightarrow>
          rank c' + (case r of Inr (Some _) \<Rightarrow> 1 | _ \<Rightarrow> 0) \<le> rank c)
     \<and> (\<forall>bs c r c'. nc_datagrams_send N bs c = (r, c') \<longrightarrow> rank c' \<le> rank c + step)
     \<and> (\<forall>c r c'. nc_datagrams_recv N c = (r, c') \<longrightarrow>
          rank c' + (if r = None then 0 else DATAGRAM_COPIES * step + 1) \<le> rank c)"

lemma spike_backlogD:
  assumes "spike_backlog N rank fed step"
  shows "noq_finite_backlog N rank fed (5 * step)"
    and "nc_streams_open N d c = (so, c') \<Longrightarrow> rank c' \<le> rank c + step"
    and "nc_send_write N sid bs c = (rw, c') \<Longrightarrow> rank c' \<le> rank c + step"
    and "nc_send_finish N sid c = (rf, c') \<Longrightarrow> rank c' \<le> rank c + step"
    and "nc_recv_open N ordered sid c = (ro, c') \<Longrightarrow> rank c' \<le> rank c + step"
    and "rank (nc_chunks_finalize N sid c) \<le> rank c + step"
    and "nc_chunks_next N sid c = (rc, c') \<Longrightarrow> rank c' + (case rc of Inr (Some _) \<Rightarrow> 1 | _ \<Rightarrow> 0) \<le> rank c"
    and "nc_datagrams_send N bs c = (rd, c') \<Longrightarrow> rank c' \<le> rank c + step"
    and "nc_datagrams_recv N c = (rr, c') \<Longrightarrow>
      rank c' + (if rr = None then 0 else DATAGRAM_COPIES * step + 1) \<le> rank c"
  by (insert assms [unfolded spike_backlog_def], (blast | metis))+

lemma finite_backlogD:
  assumes "noq_finite_backlog N rank fed closing"
  shows "nc_poll_endpoint_events N c = (re, c') \<Longrightarrow> rank c' + (if re = None then 0 else fed + 1) \<le> rank c"
    and "nc_poll N c = (rp, c') \<Longrightarrow> rank c' + (if rp = None then 0 else closing + 1) \<le> rank c"
    and "nc_poll_transmit N now c = (rt, buf, c') \<Longrightarrow> rank c' + (if rt = None then 0 else 1) \<le> rank c"
    and "nc_streams_accept N d c = (rs, c') \<Longrightarrow> rank c' + (if rs = None then 0 else 1) \<le> rank c"
    and "nq_handle_event N h ev n = (Some b, n') \<Longrightarrow> rank (nc_handle_event N b c) \<le> rank c + fed"
  by (insert assms [unfolded noq_finite_backlog_def], (blast | metis))+

lemma map_sum_InrD: "map_sum f g x = Inr y \<Longrightarrow> \<exists>z. x = Inr z \<and> y = g z"
  by (cases x) auto

lemma write_whole_rank:
  assumes "spike_backlog N rank fed step" and "write_whole N what long sid bs c = Inr c'"
  shows "rank c' \<le> rank c + 2 * step"
  using assms(2) spike_backlogD(3) [OF assms(1), of sid bs c] spike_backlogD(4) [OF assms(1), of sid]
  by (fastforce simp: write_whole_def split: prod.splits sum.splits if_splits)

lemma send_copies_rank:
  assumes "spike_backlog N rank fed step"
  shows "send_copies N what n data c = Inr c' \<Longrightarrow> rank c' \<le> rank c + n * step"
  using spike_backlogD(8) [OF assms, of data]
  by (induction n arbitrary: c) (fastforce split: prod.splits sum.splits)+

subsection \<open>The application\<close>

text \<open>A key some connection presented when it reported \<open>Connected\<close>.\<close>

definition connected_as :: "('n, 'c, 'i, 'ce, 'ee, 'cfg, 'z) noq_spike_scheme \<Rightarrow> endpoint_id \<Rightarrow> bool" where
  "connected_as N pid \<longleftrightarrow> (\<exists>c0 c. nc_poll N c0 = (Some Connected, c) \<and> peer_endpoint_id N c = Inr pid)"

text \<open>A text decoded from the front of what was read.\<close>

definition read_from :: "bytes \<Rightarrow> string \<Rightarrow> bool" where
  "read_from bs text \<longleftrightarrow> (\<exists>front rest. bs = front @ rest \<and> text = from_utf8_lossy front)"

lemma read_from_self [simp]: "read_from bs (from_utf8_lossy bs)"
  unfolding read_from_def by (metis append_Nil2)

lemma read_from_append: "read_from bs text \<Longrightarrow> read_from (bs @ cs) text"
  unfolding read_from_def by (metis append_assoc)

definition app_ok :: "('n, 'c, 'i, 'ce, 'ee, 'cfg, 'z) noq_spike_scheme \<Rightarrow> app \<Rightarrow> bool" where
  "app_ok N a \<longleftrightarrow>
     (\<forall>pid. ap_peer_id a = Some pid \<longrightarrow> connected_as N pid)
     \<and> (\<forall>text. ap_received a = Some text \<longrightarrow> read_from (ap_inbound a) text)
     \<and> (\<forall>data. ap_datagram_received a = Some data \<longrightarrow>
          (\<exists>message. ap_role a = SpikeClient message \<and> data = demo_datagram message))
     \<and> (ap_datagram_sent a \<longrightarrow> ap_received a \<noteq> None)
     \<and> (ap_close_sent a \<longrightarrow> ap_datagram_received a \<noteq> None)
     \<and> (ap_done_at a \<noteq> None \<longrightarrow> ap_received a \<noteq> None \<or> ap_close_sent a)"

lemma app_ok_new [simp]: "app_ok N (app_new role)"
  by (simp add: app_ok_def app_new_def)

lemma app_ok_inbound: "app_ok N a \<Longrightarrow> app_ok N (a\<lparr>ap_inbound := ap_inbound a @ bs\<rparr>)"
  by (simp add: app_ok_def read_from_append)

text \<open>What handling may do: keep the application sound and its role, and add bounded work.\<close>

definition app_step ::
  "('n, 'c, 'i, 'ce, 'ee, 'cfg, 'z) noq_spike_scheme \<Rightarrow> app \<Rightarrow> nat \<Rightarrow> ('c \<Rightarrow> nat) \<Rightarrow> (app \<times> 'c) sresult \<Rightarrow> bool" where
  "app_step N a bound rank r \<longleftrightarrow>
     (case r of Inl _ \<Rightarrow> True | Inr (a', c') \<Rightarrow> app_ok N a' \<and> ap_role a' = ap_role a \<and> rank c' \<le> bound)"

lemma app_step_simps [simp]:
  "app_step N a bound rank (Inl e)"
  "app_step N a bound rank (Inr (a', c')) \<longleftrightarrow> app_ok N a' \<and> ap_role a' = ap_role a \<and> rank c' \<le> bound"
  by (simp_all add: app_step_def)

lemma app_connected_step:
  assumes B: "spike_backlog N rank fed step" and "app_ok N a" and "nc_poll N c0 = (Some Connected, c)"
  shows "app_step N a (rank c + 3 * step) rank (app_connected N now started a c)"
proof (cases "peer_endpoint_id N c")
  case (Inr pid)
  then have id: "connected_as N pid" using assms(3) by (auto simp: connected_as_def)
  have "rank c2 \<le> rank c + 3 * step"
    if "nc_streams_open N Bi c = (Some sid, c1)" "write_whole N what long sid bs c1 = Inr c2" for sid c1 what long bs c2
    using spike_backlogD(2) [OF B that(1)] write_whole_rank [OF B that(2)] by simp
  with Inr id assms(2) show ?thesis
    by (auto simp: app_connected_def app_ok_def Let_def split: spike_role.splits prod.splits option.splits sum.splits)
qed (simp add: app_connected_def)

lemma read_chunks_total:
  assumes B: "spike_backlog N rank fed step"
  shows "\<exists>r. read_chunks N sid acc c = Some r \<and>
     (case r of Inl _ \<Rightarrow> True | Inr (fin, acc', c') \<Rightarrow> (\<exists>more. acc' = acc @ more) \<and> rank c' \<le> rank c)"
  unfolding read_chunks_def
proof (rule loop_opt_rank [where rank = "rank \<circ> snd" and
      I = "\<lambda>(acc', c'). (\<exists>more. acc' = acc @ more) \<and> rank c' \<le> rank c"], goal_cases)
  case (2 k k')
  then show ?case
    using spike_backlogD(7) [OF B, of sid "snd k"]
    by (fastforce split: prod.splits sum.splits option.splits read_error.splits)
next
  case (3 k x)
  then show ?case
    using spike_backlogD(7) [OF B, of sid "snd k"]
    by (fastforce split: prod.splits sum.splits option.splits read_error.splits)
qed simp

lemma complete_read_step:
  assumes B: "spike_backlog N rank fed step" and ok: "app_ok N a"
  shows "app_step N a (rank c + 2 * step) rank (complete_read N up now sid a c)"
proof -
  have "app_ok N (a\<lparr>ap_received := Some (from_utf8_lossy (ap_inbound a))\<rparr>)"
    "app_ok N (a\<lparr>ap_received := Some (from_utf8_lossy (ap_inbound a)), ap_roundtrip_ms := ms\<rparr>)" for ms
    using ok by (auto simp: app_ok_def)
  then show ?thesis
    using write_whole_rank [OF B, of "''echo''" "''echo did not fit the stream window''" sid _ c]
    by (auto simp: complete_read_def Let_def app_step_def split: spike_role.splits sum.splits dest!: map_sum_InrD)
qed

lemma read_stream_step:
  assumes B: "spike_backlog N rank fed step" and "app_ok N a"
  shows "\<exists>r. read_stream N up now sid a c = Some r \<and> app_step N a (rank c + 4 * step) rank r"
proof (cases "nc_recv_open N True sid c")
  case (Pair ro c1)
  note le1 = spike_backlogD(5) [OF B Pair]
  show ?thesis
  proof (cases ro)
    case (Inl e)
    with Pair le1 assms(2) show ?thesis by (simp add: read_stream_def)
  next
    case (Inr u)
    obtain r where r: "read_chunks N sid (ap_inbound a) c1 = Some r"
      "case r of Inl _ \<Rightarrow> True | Inr (fin, acc', c') \<Rightarrow> (\<exists>more. acc' = ap_inbound a @ more) \<and> rank c' \<le> rank c1"
      using read_chunks_total [OF B] by blast
    show ?thesis
    proof (cases r)
      case (Inl e)
      with r(1) Pair Inr show ?thesis by (simp add: read_stream_def)
    next
      case right: (Inr x)
      obtain fin acc' c2 where x: "x = (fin, acc', c2)" by (metis prod_cases3)
      obtain more where more: "acc' = ap_inbound a @ more" and le2: "rank c2 \<le> rank c1"
        using r(2) right x by auto
      let ?a = "a\<lparr>ap_inbound := acc'\<rparr>" and ?c = "nc_chunks_finalize N sid c2"
      have le3: "rank ?c \<le> rank c + 2 * step" using spike_backlogD(6) [OF B, of sid c2] le1 le2 by simp
      have ok: "app_ok N ?a" using app_ok_inbound [OF assms(2)] more by simp
      have "app_step N a (rank c + 4 * step) rank (complete_read N up now sid ?a ?c)"
        using complete_read_step [OF B ok, of ?c up now sid] le3 by (auto simp: app_step_def split: sum.splits)
      with r(1) right x Pair Inr ok le3 show ?thesis by (simp add: read_stream_def Let_def)
    qed
  qed
qed

lemma take_datagrams_step:
  assumes B: "spike_backlog N rank fed step" and "app_ok N a"
  shows "\<exists>r. take_datagrams N a c = Some r \<and> app_step N a (rank c) rank r"
  unfolding take_datagrams_def
proof (rule loop_opt_rank [where rank = "rank \<circ> snd" and
      I = "\<lambda>(a', c'). app_ok N a' \<and> ap_role a' = ap_role a \<and> rank c' \<le> rank c"], goal_cases)
  case 1
  with assms(2) show ?case by simp
next
  case (2 k k')
  then show ?case
    using spike_backlogD(9) [OF B, of "snd k"] send_copies_rank [OF B, of "''datagram echo: ''" DATAGRAM_COPIES]
    by (fastforce simp: app_ok_def Let_def split: prod.splits sum.splits option.splits spike_role.splits if_splits)
next
  case (3 k x)
  then show ?case
    using spike_backlogD(9) [OF B, of "snd k"]
    by (fastforce simp: Let_def split: prod.splits sum.splits option.splits spike_role.splits if_splits)
qed

lemma app_handle_event_step:
  assumes B: "spike_backlog N rank fed step" and ok: "app_ok N a" and "nc_poll N c0 = (Some ev, c)"
  shows "\<exists>r. app_handle_event N up now started ev a c = Some r \<and> app_step N a (rank c + 5 * step) rank r"
proof -
  have up: "app_step N a (rank c + 5 * step) rank r" if "app_step N a b rank r" "b \<le> rank c + 5 * step" for b r
    using that by (auto simp: app_step_def split: sum.splits)
  show ?thesis
  proof (cases ev)
    case Connected
    then show ?thesis
      using up [OF app_connected_step [OF B ok assms(3) [unfolded Connected]]] by (simp add: app_handle_event_def)
  next
    case (StreamOpened d)
    obtain sid c1 where acc: "nc_streams_accept N Bi c = (sid, c1)" by force
    have le: "rank c1 \<le> rank c"
      using finite_backlogD(4) [OF spike_backlogD(1) [OF B] acc] by (auto split: if_splits)
    have ok1: "app_ok N (a\<lparr>ap_stream := sid\<rparr>)" using ok by (simp add: app_ok_def)
    have "\<exists>r. read_stream N up now i (a\<lparr>ap_stream := sid\<rparr>) c1 = Some r
        \<and> app_step N a (rank c + 5 * step) rank r" for i
      using read_stream_step [OF B ok1, of up now i c1] le by (fastforce simp: app_step_def split: sum.splits)
    with StreamOpened acc ok ok1 le show ?thesis
      by (cases d; cases sid) (auto simp: app_handle_event_def Let_def)
  next
    case (StreamReadable i)
    with read_stream_step [OF B ok, of up now i c] up ok show ?thesis
      by (fastforce simp: app_handle_event_def)
  next
    case DatagramReceived
    with take_datagrams_step [OF B ok, of c] up show ?thesis by (fastforce simp: app_handle_event_def)
  next
    case (ConnectionLost reason)
    with ok show ?thesis by (auto simp: app_handle_event_def app_ok_def split: option.splits)
  qed (use ok in \<open>simp_all add: app_handle_event_def\<close>)
qed

lemma app_drive_ok:
  assumes "app_ok N a" and "app_drive N now a c = Inr (a', c')"
  shows "app_ok N a' \<and> ap_role a' = ap_role a"
proof (cases "ap_role a")
  case (SpikeClient message)
  define r where "r = (if ap_received a \<noteq> None \<and> \<not> ap_datagram_sent a
      then map_sum id (\<lambda>c'. (a\<lparr>ap_datagram_sent := True\<rparr>, c'))
             (send_copies N ''datagram send: '' DATAGRAM_COPIES (demo_datagram message) c)
      else Inr (a, c))"
  then obtain a1 c1 where r: "r = Inr (a1, c1)"
    using assms(2) SpikeClient by (auto simp: app_drive_def split: sum.splits)
  then have a1: "app_ok N a1 \<and> ap_role a1 = ap_role a"
    using assms(1) unfolding r_def
    by (auto simp: app_ok_def split: if_splits dest!: map_sum_InrD)
  have "a' = a1 \<or> ap_datagram_received a1 \<noteq> None \<and> a' = a1\<lparr>ap_close_sent := True, ap_done_at := Some now\<rparr>"
    using assms(2) SpikeClient r unfolding r_def by (auto simp: app_drive_def split: if_splits)
  then show ?thesis
  proof
    assume "ap_datagram_received a1 \<noteq> None \<and> a' = a1\<lparr>ap_close_sent := True, ap_done_at := Some now\<rparr>"
    with a1 show ?thesis by (auto simp: app_ok_def)
  qed (use a1 in simp)
qed (use assms in \<open>simp add: app_drive_def\<close>)

subsection \<open>The wire during a run\<close>

text \<open>
  The run is one task: nothing else touches its cells. What it put on the log since it began are
  sends on its own wire, and on the relay to the one peer the wire is bound to; a bound wire stays
  bound.
\<close>

definition on_wire :: "spike_wire \<Rightarrow> spike_cells \<Rightarrow> spike_effect \<Rightarrow> bool" where
  "on_wire wire s e =
     (case e of
        SendOnChannel _ \<Rightarrow> wire = WireChannel
      | SendToPeer q _ \<Rightarrow> wire = WireRelay \<and> cell_wire s = Some q
      | _ \<Rightarrow> False)"

definition wire_inv ::
  "spike_wire \<Rightarrow> spike_cells \<Rightarrow> spike_effect list \<Rightarrow> spike_cells \<Rightarrow> spike_effect list \<Rightarrow> bool" where
  "wire_inv wire s0 l0 s l \<longleftrightarrow>
     (\<exists>es. l = l0 @ es \<and> (\<forall>e\<in>set es. on_wire wire s e))
     \<and> cell_signal s = cell_signal s0
     \<and> (cell_wire s0 \<noteq> None \<longrightarrow> cell_wire s = cell_wire s0)"

lemma wire_inv_start: "wire_inv wire s l s l"
  by (simp add: wire_inv_def)

lemma wire_inv_emit:
  assumes "wire_inv wire s0 l0 s l" and "on_wire wire s e"
  shows "wire_inv wire s0 l0 s (l @ [e])"
proof -
  obtain es where es: "l = l0 @ es" "\<forall>e\<in>set es. on_wire wire s e" using assms(1) by (auto simp: wire_inv_def)
  then have "l @ [e] = l0 @ (es @ [e]) \<and> (\<forall>e\<in>set (es @ [e]). on_wire wire s e)" using assms(2) by auto
  with assms(1) show ?thesis unfolding wire_inv_def by blast
qed

lemma wire_inv_receive:
  assumes "wire_inv wire s0 l0 s l" and "wire_receive input s = (r, s')"
  shows "wire_inv wire s0 l0 s' l"
proof -
  have "cell_signal s' = cell_signal s \<and> (cell_wire s \<noteq> None \<longrightarrow> cell_wire s' = cell_wire s)"
    using assms(2) by (auto simp: wire_receive_def
        split: wire_input.splits sum.splits channel_message.splits option.splits)
  moreover from this have "on_wire wire s e \<Longrightarrow> on_wire wire s' e" for e
    by (auto simp: on_wire_def split: spike_effect.splits)
  ultimately show ?thesis using assms(1) unfolding wire_inv_def by (metis option.distinct(1))
qed

text \<open>A relayed datagram is delivered only from the peer the wire is then bound to.\<close>

lemma wire_receive_source:
  "wire_receive (RelayInput (Inr d)) s = (Inr (Some data), s') \<Longrightarrow> data = payload d \<and> cell_wire s' = Some (source d)"
  by (auto simp: wire_receive_def split: option.splits if_splits)

lemma spike_receive: "upholds (wire_inv wire s0 l0) (access (\<lambda>_. wire_receive input)) (\<lambda>_. True)"
  unfolding upholds_def by (rule triple_access) (auto intro: wire_inv_receive)

text \<open>An effect on this wire.\<close>

lemma spike_emit:
  "(\<And>s. on_wire wire s e) \<Longrightarrow> upholds (wire_inv wire s0 l0) (emit [e]) (\<lambda>_. True)"
  unfolding upholds_def by (rule triple_emit) (auto intro: wire_inv_emit)

lemma relay_send_triple: "upholds (wire_inv WireRelay s0 l0) (wire_send WireRelay data) (\<lambda>_. True)"
proof -
  let ?to = "\<lambda>p s l. wire_inv WireRelay s0 l0 s l \<and> cell_wire s = p"
  have read: "triple (=) (wire_inv WireRelay s0 l0) (wire_inv WireRelay s0 l0) (access (\<lambda>_ s. (cell_wire s, s))) ?to"
    by (rule triple_access) auto
  have "triple (=) (wire_inv WireRelay s0 l0) (?to p)
      ((case p of None \<Rightarrow> ret (Inl ''relay wire has no peer yet'')
        | Some q \<Rightarrow> and_then (emit [SendToPeer q data]) (\<lambda>_. await sa_send)) :: unit sresult spike_task)
      (\<lambda>x s l. wire_inv WireRelay s0 l0 s l \<and> True)" for p
  proof (cases p)
    case None
    then show ?thesis by (auto intro: triple_ret)
  next
    case (Some q)
    have "triple (=) (wire_inv WireRelay s0 l0) (?to p) (emit [SendToPeer q data] :: unit spike_task)
        (\<lambda>_. wire_inv WireRelay s0 l0)"
      by (rule triple_emit) (auto intro: wire_inv_emit simp: on_wire_def Some)
    then show ?thesis
      unfolding Some option.case by (rule triple_and_then) (rule upholds_await [unfolded upholds_def])
  qed
  with read show ?thesis
    unfolding wire_send_def upholds_def spike_wire.case by (rule triple_and_then)
qed

lemma spike_wire_send: "upholds (wire_inv wire s0 l0) (wire_send wire data) (\<lambda>_. True)"
proof (cases wire)
  case WireChannel
  have "upholds (wire_inv wire s0 l0) (emit [SendOnChannel data]) (\<lambda>_. True)"
    by (rule spike_emit) (simp add: on_wire_def WireChannel)
  then show ?thesis
    unfolding wire_send_def WireChannel spike_wire.case
    by (rule upholds_and_then) (rule upholds_and_then [OF upholds_await], rule upholds_ret, simp)
next
  case WireRelay
  then show ?thesis using relay_send_triple by simp
qed

subsection \<open>The run\<close>

text \<open>A flag of progress is justified by a smaller rank.\<close>

definition progress_ok :: "nat \<Rightarrow> bool \<Rightarrow> nat \<Rightarrow> bool \<Rightarrow> bool" where
  "progress_ok m p m' p' \<longleftrightarrow> m' \<le> m \<and> (p' \<longrightarrow> p \<or> m' < m)"

lemma spike_endpoint_events_total:
  assumes "noq_finite_backlog N rank fed closing"
  shows "\<exists>r. spike_endpoint_events N h n c = Some r \<and> (case r of (n', c', p') \<Rightarrow> progress_ok (rank c) False (rank c') p')"
  unfolding spike_endpoint_events_def
proof (rule loop_opt_rank [where rank = "\<lambda>(n, c, p). rank c" and
      I = "\<lambda>(n', c', p'). progress_ok (rank c) False (rank c') p'"], goal_cases)
  case 1
  show ?case by (simp add: progress_ok_def)
next
  case (2 k k')
  obtain n1 c1 p1 where k: "k = (n1, c1, p1)" by (metis prod_cases3)
  obtain ev c2 where poll: "nc_poll_endpoint_events N c1 = (Some ev, c2)"
    using 2 k by (auto split: prod.splits option.splits)
  obtain bk n2 where hb: "nq_handle_event N h ev n1 = (bk, n2)" by force
  have "rank (case bk of None \<Rightarrow> c2 | Some b \<Rightarrow> nc_handle_event N b c2) < rank c1"
    using finite_backlogD(1) [OF assms poll] finite_backlogD(5) [OF assms, of h ev n1 _ n2 c2] hb
    by (cases bk) fastforce+
  with 2 k poll hb show ?case by (auto simp: progress_ok_def)
next
  case (3 k x)
  then show ?case
    using finite_backlogD(1) [OF assms, of "fst (snd k)"]
    by (fastforce simp: progress_ok_def split: prod.splits option.splits)
qed

lemma spike_app_events_triple:
  assumes B: "spike_backlog N rank fed step" and "app_ok N a"
  shows "upholds (wire_inv wire s0 l0) (spike_app_events N up started a c p)
     (\<lambda>r. case r of Inl _ \<Rightarrow> True
        | Inr (a', c', p') \<Rightarrow> app_ok N a' \<and> ap_role a' = ap_role a \<and> progress_ok (rank c) p (rank c') p')"
  unfolding spike_app_events_def
proof (rule upholds_looping_rank [where rank = "\<lambda>(a, c, p). rank c" and
      I = "\<lambda>(a', c', p'). app_ok N a' \<and> ap_role a' = ap_role a \<and> progress_ok (rank c) p (rank c') p'"], goal_cases)
  case (1 k)
  obtain a1 c1 p1 where k: "k = (a1, c1, p1)" by (metis prod_cases3)
  have I: "app_ok N a1" "ap_role a1 = ap_role a" "progress_ok (rank c) p (rank c1) p1" using 1 k by auto
  obtain ev c2 where poll: "nc_poll N c1 = (ev, c2)" by force
  note le = finite_backlogD(2) [OF spike_backlogD(1) [OF B] poll]
  show ?case
  proof (cases ev)
    case None
    with k poll I le show ?thesis by (auto intro!: upholds_ret simp: progress_ok_def)
  next
    case (Some e)
    have "\<exists>x. app_handle_event N up now started e a1 c2 = Some x \<and> app_step N a1 (rank c2 + 5 * step) rank x" for now
      using app_handle_event_step [OF B I(1)] poll Some by blast
    then have "upholds (wire_inv wire s0 l0) (sync (\<lambda>now. app_handle_event N up now started e a1 c2))
        (app_step N a1 (rank c2 + 5 * step) rank)"
      by (rule upholds_sync)
    then have "upholds (wire_inv wire s0 l0)
        (ok_or_break (sync (\<lambda>now. app_handle_event N up now started e a1 c2)) Inl (\<lambda>(a', c''). ret (Inl (a', c'', True))))
        (\<lambda>r. case r of Inl k' \<Rightarrow> (case k' of (a', c', p') \<Rightarrow>
              app_ok N a' \<and> ap_role a' = ap_role a \<and> progress_ok (rank c) p (rank c') p')
            \<and> (case k' of (a, c, p) \<Rightarrow> rank c) < rank c1
          | Inr x \<Rightarrow> (case x of Inl _ \<Rightarrow> True | Inr (a', c', p') \<Rightarrow>
              app_ok N a' \<and> ap_role a' = ap_role a \<and> progress_ok (rank c) p (rank c') p'))"
      by (rule upholds_ok_or_break) (use I le Some in \<open>auto intro!: upholds_ret simp: progress_ok_def\<close>)
    then show ?thesis unfolding k poll Some prod.case option.case .
  qed
next
  case 2
  with assms(2) show ?case by (simp add: progress_ok_def)
qed

lemma spike_transmits_triple:
  assumes B: "noq_finite_backlog N rank fed closing" and Z: "noq_sizes N"
  shows "upholds (wire_inv wire s0 l0) (spike_transmits N wire c p)
     (\<lambda>r. case r of Inl _ \<Rightarrow> True | Inr (c', p') \<Rightarrow> progress_ok (rank c) p (rank c') p')"
  unfolding spike_transmits_def
proof (rule upholds_looping_rank [where rank = "\<lambda>(c, p). rank c" and
      I = "\<lambda>(c', p'). progress_ok (rank c) p (rank c') p'"], goal_cases)
  case (1 k)
  obtain c1 p1 where k: "k = (c1, p1)" by force
  have I: "progress_ok (rank c) p (rank c1) p1" using 1 k by simp
  show ?case
    unfolding k prod.case
  proof (rule upholds_and_then [OF upholds_time_now])
    fix now
    obtain tx buf c2 where poll: "nc_poll_transmit N now c1 = (tx, buf, c2)" by (metis prod_cases3)
    note le = finite_backlogD(3) [OF B poll]
    show "upholds (wire_inv wire s0 l0)
       (case nc_poll_transmit N now c1 of
          (None, _, c') \<Rightarrow> ret (Inr (Inr (c', p1)))
        | (Some tx, buf, c') \<Rightarrow>
            (case slice_to (tx_size tx) buf of
               Inl p \<Rightarrow> panics p
             | Inr data \<Rightarrow> ok_or_break (wire_send wire data) Inl (\<lambda>_. ret (Inl (c', True)))))
       (\<lambda>r. case r of Inl k' \<Rightarrow> (case k' of (c', p') \<Rightarrow> progress_ok (rank c) p (rank c') p')
            \<and> (case k' of (c, p) \<Rightarrow> rank c) < rank c1
          | Inr x \<Rightarrow> (case x of Inl _ \<Rightarrow> True | Inr (c', p') \<Rightarrow> progress_ok (rank c) p (rank c') p'))"
    proof (cases tx)
      case None
      with poll I le show ?thesis by (auto intro!: upholds_ret simp: progress_ok_def)
    next
      case (Some t)
      have "tx_size t \<le> length buf" using Z poll Some unfolding noq_sizes_def by blast
      then have "slice_to (tx_size t) buf = Inr (take (tx_size t) buf)" by (simp add: slice_to_def)
      then show ?thesis
        using poll Some I le
        by (auto intro!: upholds_ok_or_break [OF spike_wire_send] upholds_ret simp: progress_ok_def)
    qed
  qed
next
  case 2
  show ?case by (simp add: progress_ok_def)
qed

lemma spike_quiesce_triple:
  assumes B: "spike_backlog N rank fed step" and Z: "noq_sizes N" and "app_ok N a"
  shows "upholds (wire_inv wire s0 l0) (spike_quiesce N up wire started h n a c)
     (\<lambda>r. case r of Inl _ \<Rightarrow> True | Inr (n', a', c') \<Rightarrow> app_ok N a' \<and> ap_role a' = ap_role a)"
  unfolding spike_quiesce_def
proof (rule upholds_looping_rank [where rank = "\<lambda>(n, a, c). rank c" and
      I = "\<lambda>(n', a', c'). app_ok N a' \<and> ap_role a' = ap_role a"], goal_cases)
  case (1 k)
  obtain n1 a1 c1 where k: "k = (n1, a1, c1)" by (metis prod_cases3)
  have I: "app_ok N a1" "ap_role a1 = ap_role a" using 1 k by auto
  note ends = upholds_sync [OF spike_endpoint_events_total [OF spike_backlogD(1) [OF B]]]
  show ?case
    unfolding k prod.case
  proof (rule upholds_and_then [OF ends], clarify, goal_cases)
    case (1 n2 c2 p2)
    show ?case
    proof (rule upholds_ok_or_break [OF spike_app_events_triple [OF B I(1), where p = p2]], simp, clarify, goal_cases)
      case (1 a3 c3 p3)
      show ?case
        by (rule upholds_ok_or_break [OF spike_transmits_triple [OF spike_backlogD(1) [OF B] Z]])
           (use 1 \<open>progress_ok (rank c1) False (rank c2) p2\<close> I in \<open>auto intro!: upholds_ret simp: progress_ok_def\<close>)
    qed
  qed
qed (use assms(3) in simp)

text \<open>What a run may leave with: a success only from a sound application that is done.\<close>

definition completed ::
  "('n, 'c, 'i, 'ce, 'ee, 'cfg, 'z) noq_spike_scheme \<Rightarrow> spike_role \<Rightarrow> spike_outcome sresult \<Rightarrow> bool" where
  "completed N role result \<longleftrightarrow>
     (\<forall>out. result = Inr out \<longrightarrow>
        (\<exists>a. app_ok N a \<and> ap_role a = role \<and> ap_done_at a \<noteq> None \<and> app_finish a = Inr out))"

lemma completed_Inl [simp]: "completed N role (Inl e)"
  by (simp add: completed_def)

lemma completed_finish:
  "app_ok N a \<Longrightarrow> ap_role a = role \<Longrightarrow> ap_done_at a \<noteq> None \<Longrightarrow> completed N role (app_finish a)"
  by (auto simp: completed_def)

lemma select_body_advances:
  "advances (and_then (await sa_ready) (\<lambda>ready. ret (if is_ready wire ready then Inr ready else Inl ())) ::
     (unit + spike_ready) spike_task)"
  by (rule advances_awaits) simp

lemma spike_select_triple: "upholds (wire_inv wire s0 l0) (spike_select wire) (is_ready wire)"
  unfolding spike_select_def
  by (rule upholds_looping_advances [where I = "\<lambda>_. True"])
     (auto intro!: upholds_and_then [OF upholds_await] upholds_ret select_body_advances)

lemma spike_select_awaits [simp]: "awaits (spike_select wire)"
  unfolding spike_select_def by (rule awaits_looping) simp

lemma spike_select_consumes [simp]: "consumes (spike_select wire)"
  unfolding spike_select_def by (rule consumes_looping) simp

lemma spike_handle_datagram_triple:
  assumes "noq_sizes N"
  shows "upholds (wire_inv wire s0 l0) (spike_handle_datagram N wire data n conn) (\<lambda>_. True)"
proof -
  have "slice_to (tx_size tx) buf = Inr (take (tx_size tx) buf)"
    if "nq_handle N now a d n = (Some (Response tx), buf, n1)" for now a d n tx buf n1
  proof -
    have "tx_size tx \<le> length buf" using assms that unfolding noq_sizes_def by blast
    then show ?thesis by (simp add: slice_to_def)
  qed
  then show ?thesis
    unfolding spike_handle_datagram_def try_then_def Let_def
    by (intro upholds_and_then [OF upholds_time_now])
       (auto intro!: upholds_ret upholds_and_then [OF spike_wire_send]
         split: prod.split option.split datagram_event.split sum.split)
qed

text \<open>The variables of the pump are sound when the application is.\<close>

lemma spike_select_turn_triple:
  assumes Z: "noq_sizes N" and ok: "app_ok N (rv_app v)" "ap_role (rv_app v) = role"
  shows "upholds (wire_inv wire s0 l0) (spike_select_turn N wire v)
     (\<lambda>r. case r of Inl v' \<Rightarrow> app_ok N (rv_app v') \<and> ap_role (rv_app v') = role
        | Inr (result, armed) \<Rightarrow> completed N role result)"
  unfolding spike_select_turn_def
proof (rule upholds_and_then [OF spike_select_triple])
  fix ready
  show "upholds (wire_inv wire s0 l0)
     (case ready of
         RecvReady input \<Rightarrow>
           and_then (access (\<lambda>_. wire_receive input)) (\<lambda>received.
             case received of
               Inr None \<Rightarrow> ret (Inl v)
             | Inr (Some data) \<Rightarrow>
                 ok_or_break (spike_handle_datagram N wire data (rv_endpoint v) (rv_connection v))
                   (\<lambda>e. (Inl e, True))
                   (\<lambda>(n, conn). ret (Inl (v\<lparr>rv_endpoint := n, rv_connection := conn\<rparr>)))
             | Inl err \<Rightarrow>
                 ret (Inr (if ap_done_at (rv_app v) \<noteq> None \<and> rv_connection v \<noteq> None
                           then app_finish (rv_app v) else Inl err, False)))
       | TickFired \<Rightarrow>
           and_then time_now (\<lambda>now.
             ret (Inl (v\<lparr>rv_connection := map_option (map_prod id (spike_timeout N now)) (rv_connection v)\<rparr>))))
     (\<lambda>r. case r of Inl v' \<Rightarrow> app_ok N (rv_app v') \<and> ap_role (rv_app v') = role
        | Inr (result, armed) \<Rightarrow> completed N role result)"
  proof (cases ready)
    case (RecvReady input)
    show ?thesis
      unfolding RecvReady spike_ready.case
      by (rule upholds_and_then [OF spike_receive])
         (auto intro!: upholds_ret upholds_ok_or_break [OF spike_handle_datagram_triple [OF Z]] completed_finish
           simp: ok split: sum.split option.split prod.split)
  next
    case TickFired
    show ?thesis
      unfolding TickFired spike_ready.case
      by (rule upholds_and_then [OF upholds_time_now], rule upholds_ret) (simp add: ok)
  qed
qed

lemma wire_send_consumes [simp]: "consumes (wire_send wire data)"
  by (cases wire) (auto simp: wire_send_def split: option.split intro!: consumes_and_then)

lemma spike_handle_datagram_consumes [simp]: "consumes (spike_handle_datagram N wire data n conn)"
  unfolding spike_handle_datagram_def Let_def
  by (auto intro!: consumes_and_then consumes_try_then
      split: prod.split option.split datagram_event.split sum.split)

lemma spike_select_turn_advances: "advances (spike_select_turn N wire v)"
  unfolding spike_select_turn_def
  by (rule advances_awaits, rule awaits_first)
     (auto intro!: consumes_and_then consumes_ok_or_break split: spike_ready.split sum.split option.split prod.split)

lemma spike_quiesce_consumes [simp]: "consumes (spike_quiesce N up wire started h n a c)"
  unfolding spike_quiesce_def spike_app_events_def spike_transmits_def
  by (auto intro!: consumes_looping consumes_and_then consumes_ok_or_break
      split: prod.split option.split sum.split)

lemma spike_turn_advances: "advances (spike_turn N up wire started v)"
  unfolding spike_turn_def
  by (auto intro!: advances_and_then advances_ok_or_break spike_select_turn_advances
      split: option.split prod.split)

lemma spike_turn_triple:
  assumes B: "spike_backlog N rank fed step" and Z: "noq_sizes N"
    and ok: "app_ok N (rv_app v)" "ap_role (rv_app v) = role"
  shows "upholds (wire_inv wire s0 l0) (spike_turn N up wire started v)
     (\<lambda>r. case r of Inl v' \<Rightarrow> app_ok N (rv_app v') \<and> ap_role (rv_app v') = role
        | Inr (result, armed) \<Rightarrow> completed N role result)"
proof -
  let ?Q = "\<lambda>r. case r of Inl v' \<Rightarrow> app_ok N (rv_app v') \<and> ap_role (rv_app v') = role
        | Inr (result, armed) \<Rightarrow> completed N role result"
  have tail: "upholds (wire_inv wire s0 l0)
       (ok_or_break (and_then time_now (\<lambda>now. ret (app_drive N now a c1)))
                (\<lambda>e. (Inl e, True)) (\<lambda>(a1, c2).
          and_then time_now (\<lambda>now.
                if spike_finished N now a1 c2 then ret (Inr (app_finish a1, True))
                else spike_select_turn N wire
                       \<lparr>rv_endpoint = n, rv_connection = Some (h, c2), rv_app = a1\<rparr>))) ?Q"
    if a: "app_ok N a" "ap_role a = role" for a n h c1
  proof (rule upholds_ok_or_break [where M = "\<lambda>r. case r of Inl _ \<Rightarrow> True | Inr (a1, c2) \<Rightarrow> app_ok N a1 \<and> ap_role a1 = role"])
    show "upholds (wire_inv wire s0 l0) (and_then time_now (\<lambda>now. ret (app_drive N now a c1)))
        (\<lambda>r. case r of Inl _ \<Rightarrow> True | Inr (a1, c2) \<Rightarrow> app_ok N a1 \<and> ap_role a1 = role)"
      by (rule upholds_and_then [OF upholds_time_now], rule upholds_ret)
         (use app_drive_ok [OF a(1)] a(2) in \<open>auto split: sum.split\<close>)
  qed (auto intro!: upholds_and_then [OF upholds_time_now] upholds_ret completed_finish
        spike_select_turn_triple [OF Z] simp: spike_finished_def split: option.splits)
  have conn: "upholds (wire_inv wire s0 l0)
      (ok_or_break (spike_quiesce N up wire started h (rv_endpoint v) (rv_app v) c) (\<lambda>e. (Inl e, True)) (\<lambda>(n, a, c1).
         ok_or_break (and_then time_now (\<lambda>now. ret (app_drive N now a c1)))
                (\<lambda>e. (Inl e, True)) (\<lambda>(a1, c2).
          and_then time_now (\<lambda>now.
                if spike_finished N now a1 c2 then ret (Inr (app_finish a1, True))
                else spike_select_turn N wire
                       \<lparr>rv_endpoint = n, rv_connection = Some (h, c2), rv_app = a1\<rparr>)))) ?Q" for h c
  proof (rule upholds_ok_or_break [OF spike_quiesce_triple [OF B Z ok(1)]], simp, clarify, goal_cases)
    case (1 n a c1)
    then show ?case using tail [of a c1 n h] ok(2) by simp
  qed
  show ?thesis
    unfolding spike_turn_def
    by (rule upholds_and_then [OF upholds_time_now])
       (auto intro!: upholds_ret conn spike_select_turn_triple [OF Z ok] split: option.split)
qed

text \<open>The teardown closes the wire once and, whatever it still receives, sends nothing.\<close>

definition close_effect :: "spike_wire \<Rightarrow> spike_effect" where
  "close_effect wire = (case wire of WireChannel \<Rightarrow> CloseDataChannel | WireRelay \<Rightarrow> CloseRelayConn)"

definition closed_inv ::
  "spike_wire \<Rightarrow> spike_cells \<Rightarrow> spike_effect list \<Rightarrow> spike_cells \<Rightarrow> spike_effect list \<Rightarrow> bool" where
  "closed_inv wire s0 l0 s l \<longleftrightarrow> (\<exists>l1. l = l1 @ [close_effect wire] \<and> wire_inv wire s0 l0 s l1)"

lemma select_keeps:
  assumes "\<And>s l. P s l \<Longrightarrow> W s l"
  shows "triple (=) W P (spike_select wire) (\<lambda>_. P)"
  unfolding spike_select_def
proof (rule triple_looping_advances [where I = "\<lambda>_. P"])
  show "triple (=) W P (and_then (await sa_ready) (\<lambda>ready.
      ret (if is_ready wire ready then Inr ready else Inl ())) :: (unit + spike_ready) spike_task)
      (\<lambda>r s l. case r of Inl k' \<Rightarrow> P s l | Inr x \<Rightarrow> P s l)" for k :: unit
    by (rule triple_and_then [where M = "\<lambda>_. P"])
       (auto intro!: triple_await triple_ret assms)
qed (rule select_body_advances)

lemma spike_teardown_triple:
  "triple (=) (\<lambda>s l. wire_inv wire s0 l0 s l \<or> closed_inv wire s0 l0 s l) (wire_inv wire s0 l0)
     (spike_teardown wire armed) (\<lambda>_. closed_inv wire s0 l0)"
proof -
  let ?W = "\<lambda>s l. wire_inv wire s0 l0 s l \<or> closed_inv wire s0 l0 s l"
  let ?C = "closed_inv wire s0 l0"
  have receive: "triple (=) ?W ?C (access (\<lambda>_. wire_receive input) :: bytes option sresult spike_task) (\<lambda>_. ?C)" for input
    by (rule triple_access) (auto simp: closed_inv_def dest: wire_inv_receive)
  have body: "triple (=) ?W ?C
      (and_then (spike_select wire) (\<lambda>ready. case ready of
         RecvReady input \<Rightarrow> and_then (access (\<lambda>_. wire_receive input)) (\<lambda>received.
             ret (case received of Inr _ \<Rightarrow> Inl () | Inl _ \<Rightarrow> Inr ()))
       | TickFired \<Rightarrow> ret (Inl ())))
      (\<lambda>r s l. case r of Inl k' \<Rightarrow> ?C s l | Inr x \<Rightarrow> ?C s l)"
    by (rule triple_and_then [OF select_keeps])
       (auto intro!: triple_ret triple_and_then [OF receive] split: spike_ready.split sum.split)
  have drain: "triple (=) ?W ?C (drain_recv wire) (\<lambda>_. ?C)"
    unfolding drain_recv_def
    by (rule triple_looping_advances [where I = "\<lambda>_. ?C", OF body])
       (auto intro!: advances_awaits awaits_first split: spike_ready.split)
  have "triple (=) ?W (wire_inv wire s0 l0) (wire_close wire) (\<lambda>_. ?C)"
    unfolding wire_close_def by (rule triple_emit) (auto simp: closed_inv_def close_effect_def split: spike_wire.split)
  moreover have "triple (=) ?W ?C (if armed then drain_recv wire else ret ()) (\<lambda>_. ?C)"
    using drain by (auto intro: triple_ret)
  moreover have "triple (=) ?W ?C (await (\<lambda>_. ()) :: unit spike_task) (\<lambda>_. ?C)"
    by (rule triple_await) auto
  ultimately show ?thesis
    unfolding spike_teardown_def by (blast intro: triple_and_then)
qed

lemma spike_run_triple:
  assumes B: "spike_backlog N rank fed step" and Z: "noq_sizes N"
  shows "triple (=) (\<lambda>s l. wire_inv wire s0 l0 s l \<or> closed_inv wire s0 l0 s l) (\<lambda>s l. s = s0 \<and> l = l0)
     (spike_run N D up i peer_arg wire role)
     (\<lambda>r s l. completed N role r \<and> (closed_inv wire s0 l0 s l \<or> (\<exists>e. r = Inl e) \<and> s = s0 \<and> l = l0))"
proof -
  let ?W = "\<lambda>s l. wire_inv wire s0 l0 s l \<or> closed_inv wire s0 l0 s l"
  let ?at = "\<lambda>s l. s = s0 \<and> l = l0"
  let ?loop = "\<lambda>started n conn. looping (spike_turn N up wire started)
                 \<lparr>rv_endpoint = n, rv_connection = conn, rv_app = app_new role\<rparr>"
  have "upholds (wire_inv wire s0 l0) (?loop started n conn) (\<lambda>(result, armed). completed N role result)" for started n conn
    by (rule upholds_looping_advances [where I = "\<lambda>v. app_ok N (rv_app v) \<and> ap_role (rv_app v) = role"])
       (auto intro!: spike_turn_triple [OF B Z] spike_turn_advances simp: app_new_def [of role]
         app_ok_new [of N role, unfolded app_new_def])
  then have pump: "triple (=) ?W ?at (?loop started n conn)
      (\<lambda>(result, armed) s l. wire_inv wire s0 l0 s l \<and> completed N role result)" for started n conn
    unfolding upholds_def by (rule triple_weaken) (auto simp: wire_inv_start split: prod.splits)
  have teardown: "triple (=) ?W (\<lambda>s l. wire_inv wire s0 l0 s l \<and> completed N role result)
      (and_then (spike_teardown wire armed) (\<lambda>_. ret result))
      (\<lambda>r s l. completed N role r \<and> (closed_inv wire s0 l0 s l \<or> (\<exists>e. r = Inl e) \<and> s = s0 \<and> l = l0))"
    for result armed
  proof -
    have "triple (=) ?W (\<lambda>s l. completed N role result \<and> wire_inv wire s0 l0 s l)
      (and_then (spike_teardown wire armed) (\<lambda>_. ret result))
      (\<lambda>r s l. completed N role r \<and> (closed_inv wire s0 l0 s l \<or> (\<exists>e. r = Inl e) \<and> s = s0 \<and> l = l0))"
      by (rule triple_pure, rule triple_and_then [OF spike_teardown_triple], rule triple_ret) simp
    then show ?thesis by (simp add: conj_commute)
  qed
  show ?thesis
    unfolding spike_run_def
  proof (rule triple_try_then [where M = "\<lambda>_. ?at"])
    show "triple (=) ?W ?at (and_then time_now (\<lambda>now. ret (run_setup N D i peer_arg role now))) (\<lambda>_. ?at)"
      by (rule triple_and_then [OF triple_time_now [where Q = "\<lambda>_. ?at"]]) (auto intro: triple_ret)
  next
    fix x
    show "triple (=) ?W ?at (case x of (n, conn) \<Rightarrow>
        and_then time_now (\<lambda>started. and_then (?loop started n conn) (\<lambda>(result, armed).
          and_then (spike_teardown wire armed) (\<lambda>_. ret result))))
        (\<lambda>r s l. completed N role r \<and> (closed_inv wire s0 l0 s l \<or> (\<exists>e. r = Inl e) \<and> s = s0 \<and> l = l0))"
      by (cases x, simp, rule triple_and_then [OF triple_time_now [where Q = "\<lambda>_. ?at"]])
         (auto intro!: triple_and_then [OF pump] teardown)
  qed simp
qed

section \<open>Properties\<close>

text \<open>A run of the spike never panics and never spins, and it succeeds only with the key that some
  connection presented in its TLS handshake when it reported that it was connected.\<close>

theorem spike_run_authenticates:
  assumes "spike_backlog N rank fed step" and "noq_sizes N" and "env_respects (=) w"
    and "spike_run N D to_uppercase i peer_arg wire role w = (r, w')"
  shows "(\<forall>p. r \<noteq> Panicked p) \<and> r \<noteq> Diverged \<and> (\<forall>out. r = Done (Inr out) \<longrightarrow> connected_as N (so_peer_id out))"
proof -
  note T = tripleD [OF spike_run_triple [OF assms(1,2), where ?s0.0 = "w_state w" and ?l0.0 = "w_log w"]
      assms(3) _ assms(4), simplified]
  have "connected_as N (so_peer_id out)" if "r = Done (Inr out)" for out
  proof -
    have "completed N role (Inr out)" using T(1) [OF that] by blast
    then obtain a where "app_ok N a" "app_finish a = Inr out" by (auto simp: completed_def)
    then show ?thesis by (auto simp: app_ok_def app_finish_def split: option.splits)
  qed
  with T(4,5) show ?thesis by blast
qed

text \<open>C33. A run sends only on its own wire, over the relay only to the one peer the wire is bound to,
  and a wire that was bound stays bound; when it returns after its set-up it has closed the wire, once
  and after everything it sent.\<close>

theorem spike_run_one_peer:
  assumes "spike_backlog N rank fed step" and "noq_sizes N" and "env_respects (=) w"
    and "spike_run N D to_uppercase i peer_arg wire role w = (r, w')"
  shows "\<exists>es. (\<forall>e\<in>set es. on_wire wire (w_state w') e)
     \<and> (w_log w' = w_log w @ es @ [close_effect wire]
        \<or> w_log w' = w_log w @ es \<and> (r = Waiting \<or> es = [] \<and> (\<exists>err. r = Done (Inl err))))
     \<and> (cell_wire (w_state w) \<noteq> None \<longrightarrow> cell_wire (w_state w') = cell_wire (w_state w))"
proof -
  note T = tripleD [OF spike_run_triple [OF assms(1,2), where ?s0.0 = "w_state w" and ?l0.0 = "w_log w"]
      assms(3) _ assms(4), simplified]
  show ?thesis
  proof (cases r)
    case Waiting
    with T(3) show ?thesis by (auto simp: wire_inv_def closed_inv_def)
  next
    case (Done x)
    from T(1) [OF Done] consider "closed_inv wire (w_state w) (w_log w) (w_state w') (w_log w')"
      | e where "x = Inl e" "w_state w' = w_state w" "w_log w' = w_log w" by blast
    then show ?thesis
    proof cases
      case 1
      then show ?thesis by (auto simp: closed_inv_def wire_inv_def)
    next
      case 2
      with Done show ?thesis by simp
    qed
  qed (use T(4,5) in auto)
qed

text \<open>Every event of the connection is handled in finitely many steps, and either ends the run or
  keeps the application sound: its peer was authenticated, its text is a decoding of what it read, the
  datagram it accepted as an echo is the demo datagram, and it closes only after that echo.\<close>

theorem app_events_sound:
  assumes "spike_backlog N rank fed step" and "app_ok N a" and "nc_poll N c0 = (Some ev, c)"
  shows "\<exists>r. app_handle_event N to_uppercase now started ev a c = Some r
     \<and> (\<forall>a' c'. r = Inr (a', c') \<longrightarrow> app_ok N a' \<and> (\<forall>now. \<forall>a'' c''. app_drive N now a' c' = Inr (a'', c'') \<longrightarrow> app_ok N a''))"
proof -
  obtain r where r: "app_handle_event N to_uppercase now started ev a c = Some r"
    "app_step N a (rank c + 5 * step) rank r"
    using app_handle_event_step [OF assms] by blast
  show ?thesis
  proof (intro exI conjI allI impI)
    show "app_handle_event N to_uppercase now started ev a c = Some r" by (rule r(1))
    fix a' c'
    assume "r = Inr (a', c')"
    then show ok: "app_ok N a'" using r(2) by simp
    show "app_ok N a''" if "app_drive N now' a' c' = Inr (a'', c'')" for now' a'' c''
      using app_drive_ok [OF ok that] by blast
  qed
qed

text \<open>
  What reading does to the bytes a stream has sent: nothing.
\<close>

definition reading_keeps ::
  "('n, 'c, 'i, 'ce, 'ee, 'cfg, 'z) noq_spike_scheme \<Rightarrow> ('c \<Rightarrow> nat \<Rightarrow> bytes) \<Rightarrow> bool" where
  "reading_keeps N sent \<longleftrightarrow>
     (\<forall>ordered sid c r c'. nc_recv_open N ordered sid c = (r, c') \<longrightarrow> sent c' = sent c)
     \<and> (\<forall>sid c r c'. nc_chunks_next N sid c = (r, c') \<longrightarrow> sent c' = sent c)
     \<and> (\<forall>sid c. sent (nc_chunks_finalize N sid c) = sent c)"

lemma read_chunks_keeps:
  assumes "reading_keeps N sent" and "read_chunks N sid acc c = Some (Inr (fin, acc', c'))"
  shows "sent c' = sent c"
proof -
  have "(\<lambda>r. \<forall>fin acc' c'. r = Inr (fin, acc', c') \<longrightarrow> sent c' = sent c) (Inr (fin, acc', c') :: (bool \<times> bytes \<times> 'b) sresult)"
    using assms(2) unfolding read_chunks_def
  proof (rule loop_opt_partial [where I = "\<lambda>(acc', c'). sent c' = sent c"], goal_cases)
    case (2 k k')
    have "nc_chunks_next N sid (snd k) = (r, c') \<Longrightarrow> sent c' = sent (snd k)" for r c'
      using assms(1) unfolding reading_keeps_def by blast
    with 2 show ?case by (fastforce split: prod.splits sum.splits option.splits read_error.splits)
  next
    case (3 k x)
    have "nc_chunks_next N sid (snd k) = (r, c') \<Longrightarrow> sent c' = sent (snd k)" for r c'
      using assms(1) unfolding reading_keeps_def by blast
    with 3 show ?case by (fastforce split: prod.splits sum.splits option.splits read_error.splits)
  qed simp
  then show ?thesis by blast
qed

text \<open>The server's read either leaves the stream alone, or the stream ended and the server has
  written exactly the upper-cased text of all it read, once, and recorded that text.\<close>

theorem server_echoes:
  assumes "stream_sends N sent" and "reading_keeps N sent" and "ap_role a = SpikeServer"
    and "read_stream N to_uppercase now sid a c = Some (Inr (a', c'))"
  shows "sent c' sid = sent c sid \<and> ap_received a' = ap_received a
     \<or> ap_received a' = Some (from_utf8_lossy (ap_inbound a'))
        \<and> sent c' sid = sent c sid @ string_bytes (to_uppercase (from_utf8_lossy (ap_inbound a')))"
proof -
  have keep: "nc_recv_open N ordered sid c = (r, c1) \<Longrightarrow> sent c1 = sent c" "sent (nc_chunks_finalize N sid c2) = sent c2"
    for ordered r c1 c2
    using assms(2) unfolding reading_keeps_def by blast+
  have written_all: "sent c2 sid = sent c1 sid @ bs" if whole: "write_whole N what long sid bs c1 = Inr c2" for what long bs c1 c2
  proof -
    obtain c3 where w: "nc_send_write N sid bs c1 = (Inr (length bs), c3)" "nc_send_finish N sid c3 = (Inr (), c2)"
      using whole by (auto simp: write_whole_def split: prod.splits sum.splits if_splits)
    have "sent c3 sid = sent c1 sid @ take (length bs) bs" using assms(1) w(1) unfolding stream_sends_def by fastforce
    moreover have "sent c2 sid = sent c3 sid" using assms(1) w(2) unfolding stream_sends_def by blast
    ultimately show ?thesis by simp
  qed
  obtain ro c1 where opened: "nc_recv_open N True sid c = (ro, c1)" by force
  show ?thesis
  proof (cases ro)
    case (Inl e)
    with opened assms(4) keep(1) [OF opened] show ?thesis by (auto simp: read_stream_def)
  next
    case (Inr u)
    then obtain y where y: "read_chunks N sid (ap_inbound a) c1 = Some y"
      using assms(4) opened by (auto simp: read_stream_def bind_eq_Some_conv)
    then obtain fin acc c2 where ch: "read_chunks N sid (ap_inbound a) c1 = Some (Inr (fin, acc, c2))"
      using assms(4) opened Inr by (cases y) (auto simp: read_stream_def)
    then have res: "(if fin then complete_read N to_uppercase now sid (a\<lparr>ap_inbound := acc\<rparr>) (nc_chunks_finalize N sid c2)
                 else Inr (a\<lparr>ap_inbound := acc\<rparr>, nc_chunks_finalize N sid c2)) = Inr (a', c')"
      using assms(4) opened Inr by (simp add: read_stream_def Let_def)
    have s3: "sent (nc_chunks_finalize N sid c2) = sent c"
      using keep(1) [OF opened] keep(2) read_chunks_keeps [OF assms(2) ch] by simp
    show ?thesis
    proof (cases fin)
      case True
      with res assms(3) obtain c4 where
        w: "write_whole N ''echo'' ''echo did not fit the stream window'' sid
              (string_bytes (to_uppercase (from_utf8_lossy acc))) (nc_chunks_finalize N sid c2) = Inr c4"
        and a': "a' = a\<lparr>ap_inbound := acc, ap_received := Some (from_utf8_lossy acc)\<rparr>" "c' = c4"
        by (auto simp: complete_read_def Let_def dest!: map_sum_InrD)
      from written_all [OF w] s3 a' show ?thesis by simp
    next
      case False
      with res s3 show ?thesis by auto
    qed
  qed
qed

text \<open>
  The client takes its peer's close for the end of the exchange as soon as it has the stream echo:
  the datagram echo is then not required.
\<close>

lemma client_done_without_datagram_echo:
  assumes "ap_role a = SpikeClient message" and "ap_received a = Some text" and "ap_datagram_received a = None"
    and "ap_peer_id a = Some pid" and "ap_handshake_ms a = Some ms" and "ap_done_at a = None"
  shows "\<exists>a'. app_handle_event N to_uppercase now started (ConnectionLost ApplicationClosed) a c = Some (Inr (a', c))
     \<and> ap_done_at a' = Some now \<and> ap_datagram_received a' = None
     \<and> (\<exists>out. app_finish a' = Inr out \<and> so_received out = text)"
  using assms by (simp add: app_handle_event_def app_finish_def)

section \<open>Witnesses\<close>

text \<open>
  A small QUIC implementation for the spike: a datagram starting with 1 opens connection 0 with the
  rest as its key, 2, 4 and 5 make it report \<open>Connected\<close>, an opened stream and the peer's close; its
  one stream is empty.
\<close>

definition toy_spike :: "(nat, toy_conn, bytes, event, nat, bytes) noq_spike" where
  "toy_spike =
     (noq_streams.extend toy_streams (noq_spike.fields
       (\<lambda>i now n. ''refused'') (\<lambda>c. True)
       (\<lambda>ordered sid c. (Inr (), c)) (\<lambda>sid c. (Inr None, c)) (\<lambda>sid c. c)
       (\<lambda>e. ''write'') (\<lambda>e. ''finish'') (\<lambda>e. ''read'') (\<lambda>e. ''send'') (\<lambda>e. ''lost'')))
     \<lparr>nq_handle := (\<lambda>now a d n.
        case d of
          [] \<Rightarrow> (None, [], n)
        | b # rest \<Rightarrow>
            if b = 1 then (Some (NewConnection rest), [], n)
            else if b = 2 then (Some (ConnectionEvent 0 Connected), [], n)
            else if b = 4 then (Some (ConnectionEvent 0 (StreamOpened Bi)), [], n)
            else if b = 5 then (Some (ConnectionEvent 0 (ConnectionLost ApplicationClosed)), [], n)
            else (None, [], n)),
      nq_accept := (\<lambda>i now n. (Inr (0, (toy_start i)\<lparr>tc_streams := 1\<rparr>), [], n + 1))\<rparr>"

lemmas toy_spike_defs = toy_spike_def toy_streams_def toy_api_def toy_noq_def noq_spike.defs noq_streams.defs
  noq_api.defs noq.defs

lemma toy_spike_sizes: "noq_sizes toy_spike"
  by (auto simp: noq_sizes_def toy_spike_defs split: list.splits if_splits)

lemma toy_spike_backlog: "spike_backlog toy_spike toy_rank 0 0"
  by (auto simp: spike_backlog_def noq_finite_backlog_def toy_spike_defs toy_rank_def split: list.splits if_splits)

definition toy_spike_deps :: "(nat, unit, bytes, unit, bytes, unit) spike_deps" where
  "toy_spike_deps =
     \<lparr>sd_reset_key = Inr [], sd_token_master = Inr [], sd_external = (\<lambda>_. Inr ()),
      sd_rpk_client_config = (\<lambda>_ peer _. Inr peer), sd_rpk_server_config = (\<lambda>_ _. Inr ()),
      sd_quic_client = Inr, sd_quic_server = Inr, sd_noq_new = (\<lambda>_ _. 0)\<rparr>"

definition toy_ready :: "spike_ready \<Rightarrow> spike_answer" where
  "toy_ready ready =
     \<lparr>ra_unit = Inr (), ra_sdp = Inr ''sdp'', ra_candidates = (True, []), ra_states = (True, [ChannelOpen]),
      ra_channels = [0], sa_send = Inr (), sa_ready = ready, sa_datagram = Inl ''gone'',
      sa_identity = Inr sample_identity, sa_relay = Inr ()\<rparr>"

definition toy_in :: "bytes \<Rightarrow> spike_answer \<times> nat \<times> (spike_cells \<Rightarrow> spike_cells)" where
  "toy_in d = (toy_ready (RecvReady (RelayInput (Inr \<lparr>source = [9], payload = d\<rparr>))), 1, id)"

definition toy_spike_world :: "(spike_cells, spike_answer, spike_effect) world" where
  "toy_spike_world =
     \<lparr>w_now = 0, w_state = \<lparr>cell_signal = None, cell_wire = None\<rparr>,
      w_script = [toy_in [1, 9], toy_in [2], toy_in [4], toy_in [5], (toy_ready TickFired, 600000000, id),
                  (toy_ready (RecvReady (RelayInput (Inl ''closed''))), 1, id), (toy_ready TickFired, 1, id)],
      w_log = []\<rparr>"

lemma toy_spike_env: "env_respects (=) toy_spike_world"
  by (simp add: env_respects_def toy_spike_world_def toy_in_def)

lemmas toy_run_defs = spike_run_def run_setup_def setup_server_def spike_endpoint_config_def server_config_def
  rpk_identity_def toy_spike_deps_def map_err_def toy_spike_world_def
  and_then_def try_then_def ok_or_break_def ret_def time_now_def access_def emit_def await_def sync_def
  looping_def loop_turn_def spike_turn_def spike_select_turn_def spike_select_def spike_handle_datagram_def
  spike_quiesce_def spike_app_events_def spike_transmits_def spike_endpoint_events_def
  toy_in_def toy_ready_def is_ready_def wire_receive_def Let_def toy_start_def
  app_new_def app_handle_event_def app_connected_def app_drive_def app_finish_def spike_finished_def
  peer_endpoint_id_def endpoint_id_from_spki_def read_stream_def read_chunks_def complete_read_def write_whole_def
  spike_timeout_def spike_teardown_def drain_recv_def wire_close_def RUN_DEADLINE_def SPIKE_LINGER_def

lemma lossy_empty: "from_utf8_lossy [] = []"
  by code_simp

lemma toy_spike_run:
  "\<exists>out w'. spike_run toy_spike toy_spike_deps id sample_identity None WireRelay SpikeServer toy_spike_world
     = (Done (Inr out), w') \<and> so_peer_id out = [9] \<and> w_log w' = [CloseRelayConn]"
  by (simp add: toy_run_defs toy_spike_defs loop_opt.simps lossy_empty string_bytes_def)

theorem spike_run_authenticates_witness:
  "\<exists>out w'. spike_run toy_spike toy_spike_deps id sample_identity None WireRelay SpikeServer toy_spike_world
     = (Done (Inr out), w') \<and> so_peer_id out = [9] \<and> connected_as toy_spike [9]"
proof -
  obtain out w' where run: "spike_run toy_spike toy_spike_deps id sample_identity None WireRelay SpikeServer toy_spike_world
      = (Done (Inr out), w')" "so_peer_id out = [9]"
    using toy_spike_run by blast
  from spike_run_authenticates [OF toy_spike_backlog toy_spike_sizes toy_spike_env run(1)] run show ?thesis by auto
qed

theorem spike_run_one_peer_witness:
  "\<exists>r w'. spike_run toy_spike toy_spike_deps id sample_identity None WireRelay SpikeServer toy_spike_world = (Done r, w')
     \<and> (\<exists>es. w_log w' = es @ [CloseRelayConn] \<and> (\<forall>e\<in>set es. on_wire WireRelay (w_state w') e))"
proof -
  obtain out w' where run: "spike_run toy_spike toy_spike_deps id sample_identity None WireRelay SpikeServer toy_spike_world
      = (Done (Inr out), w')"
    using toy_spike_run by blast
  from spike_run_one_peer [OF toy_spike_backlog toy_spike_sizes toy_spike_env run] run show ?thesis
    by (auto simp: toy_spike_world_def close_effect_def)
qed

theorem app_events_sound_witness:
  "\<exists>a' c'. app_handle_event toy_spike id 5 0 Connected (app_new SpikeServer) (toy_start [9]) = Some (Inr (a', c'))
     \<and> ap_peer_id a' = Some [9] \<and> app_ok toy_spike a'"
proof -
  have poll: "nc_poll toy_spike ((toy_start [9])\<lparr>tc_events := [Connected]\<rparr>) = (Some Connected, toy_start [9])"
    by (simp add: toy_spike_defs toy_start_def)
  have run: "app_handle_event toy_spike id 5 0 Connected (app_new SpikeServer) (toy_start [9])
      = Some (Inr ((app_new SpikeServer)\<lparr>ap_handshake_ms := Some (millis 5), ap_peer_id := Some [9]\<rparr>, toy_start [9]))"
    by (simp add: toy_run_defs toy_spike_defs)
  from app_events_sound [OF toy_spike_backlog app_ok_new [of _ SpikeServer] poll, of id 5 0] run show ?thesis by auto
qed

theorem server_echoes_witness:
  "\<exists>a' c'. read_stream toy_spike id 0 1 ((app_new SpikeServer)\<lparr>ap_inbound := [104]\<rparr>) (toy_start [9]) = Some (Inr (a', c'))
     \<and> ap_received a' = Some ''h'' \<and> tc_key c' = [9, 104]"
proof -
  have sends: "stream_sends toy_spike (\<lambda>c _. tc_key c)"
    by (auto simp: stream_sends_def toy_spike_defs min_def)
  have keeps: "reading_keeps toy_spike (\<lambda>c _. tc_key c)"
    by (auto simp: reading_keeps_def toy_spike_defs)
  have decoded: "from_utf8_lossy [104] = ''h''" by code_simp
  obtain a' c' where run: "read_stream toy_spike id 0 1 ((app_new SpikeServer)\<lparr>ap_inbound := [104]\<rparr>) (toy_start [9])
      = Some (Inr (a', c'))" "ap_inbound a' = [104]" "ap_received a' \<noteq> None"
    by (simp add: toy_run_defs toy_spike_defs loop_opt.simps string_bytes_def decoded)
  from server_echoes [OF sends keeps _ run(1)] run(2,3)
  have "ap_received a' = Some ''h''" "tc_key c' = [9, 104]"
    by (auto simp: decoded app_new_def toy_start_def string_bytes_def char_byte_def)
  with run(1) show ?thesis by blast
qed

end
