(* ===== verification/Spike_Demo.thy ===== *)
theory Spike_Demo
  imports Spike
begin

text \<open>
  Model of \<open>guest/src/lib.rs\<close>, the exported \<open>run\<close> of the spike: identity and relay, the WebRTC signaling
  exchange carried as relay datagrams with one peer, the offerer's and answerer's halves, and the
  check that the key QUIC authenticated is the peer the relay authenticated. The JSON codec, the hex
  codec and the construction of the data channel are arguments.
\<close>

section \<open>Definitions\<close>

subsection \<open>Signaling\<close>

record spike_json = json_codec +
  json_error :: "bytes \<Rightarrow> string"
  debug_signal :: "signal option \<Rightarrow> string"

definition signaling_publish :: "('z) spike_json_scheme \<Rightarrow> signal \<Rightarrow> unit sresult spike_task" where
  "signaling_publish J signal =
     and_then (access (\<lambda>_ s. (cell_signal s, s))) (\<lambda>peer.
       case peer of
         None \<Rightarrow> ret (Inl ''no signaling peer yet'')
       | Some p \<Rightarrow>
           (case to_json J signal of
              Inl e \<Rightarrow> ret (Inl (''encode signal: '' @ e))
            | Inr json \<Rightarrow> and_then (emit [SendToPeer p (SIGNAL_PREFIX # json)]) (\<lambda>_. await sa_send)))"

text \<open>Whether a datagram comes from the signaling peer; the first one decides who that is.\<close>

definition admit_source :: "endpoint_id \<Rightarrow> spike_cells \<Rightarrow> bool \<times> spike_cells" where
  "admit_source src s =
     (case cell_signal s of
        None \<Rightarrow> (True, s\<lparr>cell_signal := Some src\<rparr>)
      | Some expected \<Rightarrow> (expected = src, s))"

definition signaling_recv :: "('z) spike_json_scheme \<Rightarrow> signal option sresult spike_task" where
  "signaling_recv J =
     looping (\<lambda>_.
       ok_or_break (await sa_datagram) Inl (\<lambda>d.
       and_then (access (\<lambda>_. admit_source (source d))) (\<lambda>admitted.
         if \<not> admitted then ret (Inl ())
         else
           (case payload d of
              [] \<Rightarrow> ret (Inl ())
            | b # json \<Rightarrow>
                if b \<noteq> SIGNAL_PREFIX then ret (Inl ())
                else
                  ret (Inr (case from_json J json of
                              None \<Rightarrow> Inl (''decode signal: '' @ json_error J json)
                            | Some SignalDone \<Rightarrow> Inr None
                            | Some other \<Rightarrow> Inr (Some other))))))) ()"

definition spike_call :: "rtc_effect \<Rightarrow> (spike_answer \<Rightarrow> 'a sresult) \<Rightarrow> 'a sresult spike_task" where
  "spike_call eff sel =
     and_then (emit [RtcCall eff]) (\<lambda>_. and_then (await sel) (\<lambda>r. ret (map_err ((@) ''webrtc: '') r)))"

definition spike_gather :: "ice_candidate list spike_task" where
  "spike_gather =
     looping (\<lambda>acc. and_then (await ra_candidates) (\<lambda>(ended, batch).
       ret (if ended then Inr (acc @ batch) else Inl (acc @ batch)))) []"

primrec publish_each :: "('z) spike_json_scheme \<Rightarrow> ice_candidate list \<Rightarrow> unit sresult spike_task" where
  "publish_each J [] = ret (Inr ())"
| "publish_each J (c # cs) =
     try_then (signaling_publish J (Candidate (candidate c) (sdp_mid c) (sdp_mline_index c)))
       (\<lambda>_. publish_each J cs)"

definition spike_publish_candidates :: "('z) spike_json_scheme \<Rightarrow> unit sresult spike_task" where
  "spike_publish_candidates J =
     and_then spike_gather (\<lambda>candidates.
     try_then (publish_each J candidates) (\<lambda>_. signaling_publish J EndOfCandidates))"

definition spike_consume_signaling :: "('z) spike_json_scheme \<Rightarrow> unit sresult spike_task" where
  "spike_consume_signaling J =
     looping (\<lambda>_.
       ok_or_break (signaling_recv J) Inl (\<lambda>sig.
         case sig of
           None \<Rightarrow> ret (Inr (Inr ()))
         | Some (Answer sdp) \<Rightarrow>
             ok_or_break (spike_call (SetRemoteDescription SdpAnswer sdp) ra_unit) Inl (\<lambda>_. ret (Inl ()))
         | Some (Offer _) \<Rightarrow> ret (Inr (Inl ''unexpected second offer''))
         | Some (Candidate c m i) \<Rightarrow>
             ok_or_break (spike_call (AddIceCandidate \<lparr>candidate = c, sdp_mid = m, sdp_mline_index = i\<rparr>) ra_unit)
               Inl (\<lambda>_. ret (Inl ()))
         | Some EndOfCandidates \<Rightarrow> ret (Inl ())
         | Some SignalDone \<Rightarrow> panics (ExpectFailed ''recv maps done to none''))) ()"

subsection \<open>The two halves\<close>

definition spike_wait_open :: "unit sresult spike_task" where
  "spike_wait_open =
     looping (\<lambda>_. and_then (await ra_states) (\<lambda>(ended, batch).
       ret (if ChannelOpen \<in> set batch then Inr (Inr ())
            else if ChannelClosed \<in> set batch \<or> ended then Inr (Inl ''data channel closed before opening'')
            else Inl ()))) ()"

text \<open>\<open>create\<close> is the synchronous \<open>create_data_channel\<close>.\<close>

definition connect_offerer ::
  "('z) spike_json_scheme \<Rightarrow> (data_channel_options \<Rightarrow> unit sresult) \<Rightarrow> unit sresult spike_task" where
  "connect_offerer J create =
     (case create quic_channel_options of
        Inl e \<Rightarrow> ret (Inl (''webrtc: '' @ e))
      | Inr _ \<Rightarrow>
          and_then (emit [RtcCall (CreateDataChannel quic_channel_options)]) (\<lambda>_.
          try_then (and_then (await ra_sdp) (\<lambda>r. ret (map_err ((@) ''webrtc: '') r))) (\<lambda>offer_sdp.
          try_then (spike_call (SetLocalDescription SdpOffer offer_sdp) ra_unit) (\<lambda>_.
          try_then (signaling_publish J (Offer offer_sdp)) (\<lambda>_.
          try_then (spike_publish_candidates J) (\<lambda>_.
          try_then (signaling_publish J SignalDone) (\<lambda>_.
          try_then (spike_consume_signaling J) (\<lambda>_.
          try_then (and_then (await ra_unit) (\<lambda>r. ret (map_err ((@) ''webrtc: '') r))) (\<lambda>_.
            spike_wait_open)))))))))"

definition connect_answerer :: "('z) spike_json_scheme \<Rightarrow> unit sresult spike_task" where
  "connect_answerer J =
     try_then (signaling_recv J) (\<lambda>sig.
       case sig of
         Some (Offer offer) \<Rightarrow>
           try_then (spike_call (SetRemoteDescription SdpOffer offer) ra_unit) (\<lambda>_.
           try_then (and_then (await ra_sdp) (\<lambda>r. ret (map_err ((@) ''webrtc: '') r))) (\<lambda>answer_sdp.
           try_then (spike_call (SetLocalDescription SdpAnswer answer_sdp) ra_unit) (\<lambda>_.
           try_then (signaling_publish J (Answer answer_sdp)) (\<lambda>_.
           try_then (spike_publish_candidates J) (\<lambda>_.
           try_then (signaling_publish J SignalDone) (\<lambda>_.
           try_then (spike_consume_signaling J) (\<lambda>_.
           try_then (and_then (await ra_unit) (\<lambda>r. ret (map_err ((@) ''webrtc: '') r))) (\<lambda>_.
           and_then (await ra_channels) (\<lambda>batch.
             ret (case batch of [] \<Rightarrow> Inl ''no incoming data channel'' | _ # _ \<Rightarrow> Inr ()))))))))))
       | other \<Rightarrow> ret (Inl (''expected offer, got '' @ debug_signal J other)))"

subsection \<open>The exported run\<close>

datatype demo_role = DemoClient | DemoServer

datatype demo_transport = TransportWebrtc | TransportRelay

record run_config =
  rc_server :: string
  rc_role :: demo_role
  rc_transport :: demo_transport
  rc_peer :: "string option"
  rc_message :: string

record run_report =
  rr_endpoint_id :: string
  rr_peer_id :: string
  rr_handshake_ms :: u64
  rr_roundtrip_ms :: u64
  rr_received :: string

definition parse_endpoint_id :: "('z) hex_codec_scheme \<Rightarrow> string \<Rightarrow> endpoint_id sresult" where
  "parse_endpoint_id H text =
     (case hex_decode H text of
        Inl e \<Rightarrow> Inl (''bad endpoint id: '' @ e)
      | Inr bs \<Rightarrow>
          (case try_into_array 32 bs of
             None \<Rightarrow> Inl ''endpoint id is not 32 bytes''
           | Some peer \<Rightarrow> Inr peer))"

definition parse_peer :: "('z) hex_codec_scheme \<Rightarrow> string option \<Rightarrow> endpoint_id option sresult" where
  "parse_peer H peer =
     (case peer of None \<Rightarrow> Inr None | Some text \<Rightarrow> map_sum id Some (parse_endpoint_id H text))"

text \<open>The WebRTC exchange, when it is asked for: the peer it signaled with.\<close>

definition signal_phase ::
  "('z) spike_json_scheme \<Rightarrow> (data_channel_options \<Rightarrow> unit sresult) \<Rightarrow> demo_role \<Rightarrow> endpoint_id option
     \<Rightarrow> endpoint_id sresult spike_task" where
  "signal_phase J create role peer_arg =
     and_then (access (\<lambda>_ s. ((), s\<lparr>cell_signal := peer_arg\<rparr>))) (\<lambda>_.
     try_then (case role of DemoClient \<Rightarrow> connect_offerer J create | DemoServer \<Rightarrow> connect_answerer J) (\<lambda>_.
     and_then (access (\<lambda>_ s. (cell_signal s, s))) (\<lambda>peer.
       ret (case peer of None \<Rightarrow> Inl ''signaling completed without a peer'' | Some p \<Rightarrow> Inr p))))"

definition quic_phase ::
  "('n, 'c, 'i, 'ce, 'ee, 'cfg, 'z) noq_spike_scheme \<Rightarrow> ('n, 'rpk, 'ctls, 'stls, 'cfg, 'quic, 'y) spike_deps_scheme
     \<Rightarrow> (string \<Rightarrow> string) \<Rightarrow> identity \<Rightarrow> run_config \<Rightarrow> endpoint_id option \<Rightarrow> endpoint_id option
     \<Rightarrow> spike_outcome sresult spike_task" where
  "quic_phase N D to_uppercase i cfg peer_arg signaled =
     (let wire = (case rc_transport cfg of TransportWebrtc \<Rightarrow> WireChannel | TransportRelay \<Rightarrow> WireRelay);
          role = (case rc_role cfg of DemoClient \<Rightarrow> SpikeClient (rc_message cfg) | DemoServer \<Rightarrow> SpikeServer)
      in and_then (access (\<lambda>_ s. ((), s\<lparr>cell_wire := peer_arg\<rparr>))) (\<lambda>_.
         try_then (spike_run N D to_uppercase i peer_arg wire role) (\<lambda>out.
         and_then (access (\<lambda>_ s. (wire_peer wire s, s))) (\<lambda>bound.
           case (case peer_arg of Some p \<Rightarrow> Some p | None \<Rightarrow> (case signaled of Some p \<Rightarrow> Some p | None \<Rightarrow> bound)) of
             None \<Rightarrow> ret (Inl ''finished without an expected peer identity'')
           | Some expected \<Rightarrow>
               if so_peer_id out \<noteq> expected
               then ret (Inl ''authenticated peer key differs from the relay-authenticated one'')
               else ret (Inr out)))))"

definition demo_report ::
  "('h) hex_codec_scheme \<Rightarrow> run_config \<Rightarrow> identity \<Rightarrow> spike_outcome \<Rightarrow> run_report sresult spike_task" where
  "demo_report H cfg i out =
     and_then (emit ((if rc_transport cfg = TransportWebrtc then [ClosePeerConnection] else []) @ [CloseRelayConn])) (\<lambda>_.
       ret (Inr \<lparr>rr_endpoint_id = hex_encode H (endpoint_id i), rr_peer_id = hex_encode H (so_peer_id out),
                 rr_handshake_ms = so_handshake_ms out, rr_roundtrip_ms = so_roundtrip_ms out,
                 rr_received = so_received out\<rparr>))"

definition demo_session ::
  "('n, 'c, 'i, 'ce, 'ee, 'cfg, 'z) noq_spike_scheme \<Rightarrow> ('n, 'rpk, 'ctls, 'stls, 'cfg, 'quic, 'y) spike_deps_scheme
     \<Rightarrow> (string \<Rightarrow> string) \<Rightarrow> ('j) spike_json_scheme \<Rightarrow> ('h) hex_codec_scheme
     \<Rightarrow> (data_channel_options \<Rightarrow> unit sresult) \<Rightarrow> run_config \<Rightarrow> identity \<Rightarrow> endpoint_id option
     \<Rightarrow> run_report sresult spike_task" where
  "demo_session N D to_uppercase J H create cfg i peer_arg =
     try_then (and_then (emit [ConnectRelay (rc_server cfg) (endpoint_id i)]) (\<lambda>_. await sa_relay)) (\<lambda>_.
     try_then (case rc_transport cfg of
                 TransportWebrtc \<Rightarrow>
                   try_then (signal_phase J create (rc_role cfg) peer_arg) (\<lambda>p. ret (Inr (Some p)))
               | TransportRelay \<Rightarrow> ret (Inr None)) (\<lambda>signaled.
     try_then (quic_phase N D to_uppercase i cfg peer_arg signaled) (\<lambda>out.
       demo_report H cfg i out)))"

definition demo_run ::
  "('n, 'c, 'i, 'ce, 'ee, 'cfg, 'z) noq_spike_scheme \<Rightarrow> ('n, 'rpk, 'ctls, 'stls, 'cfg, 'quic, 'y) spike_deps_scheme
     \<Rightarrow> (string \<Rightarrow> string) \<Rightarrow> ('j) spike_json_scheme \<Rightarrow> ('h) hex_codec_scheme
     \<Rightarrow> (data_channel_options \<Rightarrow> unit sresult) \<Rightarrow> run_config \<Rightarrow> run_report sresult spike_task" where
  "demo_run N D to_uppercase J H create cfg =
     try_then (await sa_identity) (\<lambda>i.
     and_then (emit [Announce (endpoint_id i)]) (\<lambda>_.
       case parse_peer H (rc_peer cfg) of
         Inl e \<Rightarrow> ret (Inl e)
       | Inr peer_arg \<Rightarrow>
           if rc_role cfg = DemoClient \<and> peer_arg = None
           then ret (Inl ''the client role requires the server's endpoint id (peer)'')
           else demo_session N D to_uppercase J H create cfg i peer_arg))"

section \<open>Lemmas\<close>

subsection \<open>One signaling peer\<close>

text \<open>All relay sends so far went to the signaling peer, which a preset one is for good.\<close>

definition sig_inv :: "endpoint_id option \<Rightarrow> spike_cells \<Rightarrow> spike_effect list \<Rightarrow> bool" where
  "sig_inv preset s l \<longleftrightarrow>
     (\<forall>q d. SendToPeer q d \<in> set l \<longrightarrow> cell_signal s = Some q)
     \<and> (preset \<noteq> None \<longrightarrow> cell_signal s = preset)"

lemma publish_upholds: "upholds (sig_inv preset) (signaling_publish J signal) (\<lambda>_. True)"
proof -
  let ?to = "\<lambda>p s l. sig_inv preset s l \<and> cell_signal s = p"
  have sent: "triple (=) (sig_inv preset) (?to (Some p))
      (and_then (emit [SendToPeer p d]) (\<lambda>_. await sa_send) :: unit sresult spike_task)
      (\<lambda>x s l. sig_inv preset s l \<and> True)" for p d
    by (rule triple_and_then [OF triple_emit [where Q = "\<lambda>_. sig_inv preset"]
        upholds_await [unfolded upholds_def]]) (auto simp: sig_inv_def)
  show ?thesis
    unfolding upholds_def signaling_publish_def
    by (rule triple_and_then [OF triple_access [where Q = ?to]])
       (auto intro!: triple_ret sent [simplified] split: option.split sum.split)
qed

lemma admit_upholds: "upholds (sig_inv preset) (access (\<lambda>_. admit_source src)) (\<lambda>_. True)"
  by (rule upholds_access) (auto simp: admit_source_def sig_inv_def split: option.splits)

lemma signaling_recv_awaits [simp]: "awaits (signaling_recv J)"
  unfolding signaling_recv_def
  by (rule awaits_looping, rule awaits_ok_or_break) (auto intro!: consumes_and_then split: list.split)

lemma signaling_recv_consumes [simp]: "consumes (signaling_recv J)"
  unfolding signaling_recv_def
  by (rule consumes_looping) (auto intro!: consumes_and_then consumes_ok_or_break split: list.split)

lemma signaling_recv_upholds: "upholds (sig_inv preset) (signaling_recv J) (\<lambda>r. r \<noteq> Inr (Some SignalDone))"
  unfolding signaling_recv_def
proof (rule upholds_looping_advances [where I = "\<lambda>_. True"], goal_cases)
  case (1 k)
  show ?case
    by (rule upholds_ok_or_break [OF upholds_await], simp, rule upholds_and_then [OF admit_upholds])
       (auto intro!: upholds_ret split: list.split option.split signal.split)
next
  case (2 k)
  show ?case
    by (rule advances_awaits, rule awaits_ok_or_break) (auto intro!: consumes_and_then split: list.split)
qed simp

lemma spike_call_upholds: "upholds (sig_inv preset) (spike_call eff sel) (\<lambda>_. True)"
  unfolding spike_call_def
  by (rule upholds_and_then [OF upholds_emit], simp add: sig_inv_def)
     (rule upholds_and_then [OF upholds_await], rule upholds_ret, simp)

lemma spike_call_awaits [simp]: "awaits (spike_call eff sel)" "consumes (spike_call eff sel)"
  unfolding spike_call_def by (auto intro!: awaits_then awaits_first consumes_and_then)

lemma gather_upholds: "upholds (sig_inv preset) spike_gather (\<lambda>_. True)"
  unfolding spike_gather_def
  by (rule upholds_looping_advances [where I = "\<lambda>_. True"])
     (auto intro!: upholds_and_then [OF upholds_await] upholds_ret advances_awaits awaits_first split: prod.split)

lemma publish_each_upholds: "upholds (sig_inv preset) (publish_each J cs) (\<lambda>_. True)"
  by (induction cs) (auto intro!: upholds_ret upholds_try_then [OF publish_upholds])

lemma publish_candidates_upholds: "upholds (sig_inv preset) (spike_publish_candidates J) (\<lambda>_. True)"
  unfolding spike_publish_candidates_def
  by (rule upholds_and_then [OF gather_upholds], rule upholds_try_then [OF publish_each_upholds])
     (auto intro: publish_upholds)

lemma consume_upholds: "upholds (sig_inv preset) (spike_consume_signaling J) (\<lambda>_. True)"
  unfolding spike_consume_signaling_def
proof (rule upholds_looping_advances [where I = "\<lambda>_. True"], goal_cases)
  case (1 k)
  show ?case
    by (rule upholds_ok_or_break [OF signaling_recv_upholds])
       (auto intro!: upholds_ret upholds_ok_or_break [OF spike_call_upholds] split: option.split signal.split)
next
  case (2 k)
  show ?case
    by (rule advances_awaits, rule awaits_ok_or_break)
       (auto intro!: consumes_ok_or_break split: option.split signal.split)
qed simp

lemma wait_open_upholds: "upholds (sig_inv preset) spike_wait_open (\<lambda>_. True)"
  unfolding spike_wait_open_def
  by (rule upholds_looping_advances [where I = "\<lambda>_. True"])
     (auto intro!: upholds_and_then [OF upholds_await] upholds_ret advances_awaits awaits_first split: prod.split)

lemma rtc_await_upholds:
  "upholds (sig_inv preset) (and_then (await sel) (\<lambda>r. ret (map_err f r))) (\<lambda>_. True)"
  by (rule upholds_and_then [OF upholds_await], rule upholds_ret) simp

lemmas session_upholds = upholds_try_then [OF rtc_await_upholds] upholds_try_then [OF spike_call_upholds]
  upholds_try_then [OF publish_upholds] upholds_try_then [OF publish_candidates_upholds]
  upholds_try_then [OF consume_upholds] upholds_try_then [OF signaling_recv_upholds]
  upholds_and_then [OF upholds_await]

lemma offerer_upholds: "upholds (sig_inv preset) (connect_offerer J create) (\<lambda>_. True)"
proof (cases "create quic_channel_options")
  case (Inr u)
  show ?thesis
    unfolding connect_offerer_def Inr sum.case
    by (rule upholds_and_then [OF upholds_emit], simp add: sig_inv_def)
       (intro session_upholds TrueI wait_open_upholds)
qed (simp add: connect_offerer_def upholds_ret)

lemma answerer_upholds: "upholds (sig_inv preset) (connect_answerer J) (\<lambda>_. True)"
  unfolding connect_answerer_def
proof (rule upholds_try_then [OF signaling_recv_upholds], simp, goal_cases)
  case (1 sig)
  show ?case
    by (auto intro!: upholds_ret session_upholds split: option.split signal.split)
qed

subsection \<open>The exported run\<close>

text \<open>Relay sends went to \<open>p\<close> only, to nobody when there is no peer yet.\<close>

definition sent_to :: "endpoint_id option \<Rightarrow> spike_effect list \<Rightarrow> bool" where
  "sent_to p l \<longleftrightarrow> (\<forall>q d. SendToPeer q d \<in> set l \<longrightarrow> p = Some q)"

lemma sent_to_simps [simp]:
  "sent_to p []" "sent_to p (l @ l') \<longleftrightarrow> sent_to p l \<and> sent_to p l'" "sent_to p [Announce i]" "sent_to p [ConnectRelay url i]"
  "sent_to p [ClosePeerConnection]" "sent_to p [CloseRelayConn]" "sent_to p [ClosePeerConnection, CloseRelayConn]"
  by (auto simp: sent_to_def)

lemma signal_phase_triple:
  "triple (=) (\<lambda>_ _. True) (\<lambda>s l. sent_to None l) (signal_phase J create role peer_arg)
     (\<lambda>r s l. \<forall>p. r = Inr p \<longrightarrow> sent_to (Some p) l \<and> (peer_arg \<noteq> None \<longrightarrow> peer_arg = Some p))"
proof -
  let ?T = "\<lambda>_ _. True"
  have start: "triple (=) ?T (\<lambda>s l. sent_to None l)
      (access (\<lambda>_ s. ((), s\<lparr>cell_signal := peer_arg\<rparr>)) :: unit spike_task) (\<lambda>_. sig_inv peer_arg)"
    by (rule triple_access) (auto simp: sent_to_def sig_inv_def)
  have "upholds (sig_inv peer_arg)
      (case role of DemoClient \<Rightarrow> connect_offerer J create | DemoServer \<Rightarrow> connect_answerer J) (\<lambda>_. True)"
    by (auto intro: offerer_upholds answerer_upholds split: demo_role.split)
  then have halves: "triple (=) ?T (sig_inv peer_arg)
      (case role of DemoClient \<Rightarrow> connect_offerer J create | DemoServer \<Rightarrow> connect_answerer J) (\<lambda>_. sig_inv peer_arg)"
    unfolding upholds_def by (rule triple_weaken) auto
  have finish: "triple (=) ?T (sig_inv peer_arg)
      (and_then (access (\<lambda>_ s. (cell_signal s, s))) (\<lambda>peer.
         ret (case peer of None \<Rightarrow> Inl ''signaling completed without a peer'' | Some p \<Rightarrow> Inr p)) :: endpoint_id sresult spike_task)
      (\<lambda>r s l. \<forall>p. r = Inr p \<longrightarrow> sent_to (Some p) l \<and> (peer_arg \<noteq> None \<longrightarrow> peer_arg = Some p))"
    by (rule triple_and_then [OF triple_access [where Q = "\<lambda>x s l. sig_inv peer_arg s l \<and> cell_signal s = x"]])
       (auto intro!: triple_ret simp: sig_inv_def sent_to_def split: option.splits)
  show ?thesis
    unfolding signal_phase_def
    by (rule triple_and_then [OF start], rule triple_try_then [OF halves], simp, rule finish)
qed

lemma quic_phase_triple:
  assumes B: "spike_backlog N rank fed step" and Z: "noq_sizes N"
    and webrtc: "rc_transport cfg = TransportWebrtc \<longleftrightarrow> signaled \<noteq> None"
    and agree: "\<And>p. signaled = Some p \<Longrightarrow> peer_arg \<noteq> None \<Longrightarrow> peer_arg = Some p"
  shows "triple (=) (\<lambda>_ _. True) (\<lambda>s l. sent_to signaled l) (quic_phase N D up i cfg peer_arg signaled)
     (\<lambda>r s l. \<forall>out. r = Inr out \<longrightarrow> connected_as N (so_peer_id out) \<and> sent_to (Some (so_peer_id out)) l
        \<and> (peer_arg \<noteq> None \<longrightarrow> peer_arg = Some (so_peer_id out)))"
proof -
  let ?T = "\<lambda>_ _. True"
  define wire where "wire = (case rc_transport cfg of TransportWebrtc \<Rightarrow> WireChannel | TransportRelay \<Rightarrow> WireRelay)"
  define role where "role = (case rc_role cfg of DemoClient \<Rightarrow> SpikeClient (rc_message cfg) | DemoServer \<Rightarrow> SpikeServer)"
  let ?out = "\<lambda>out s l. connected_as N (so_peer_id out)
     \<and> sent_to (case signaled of Some p \<Rightarrow> Some p | None \<Rightarrow> wire_peer wire s) l
     \<and> (peer_arg \<noteq> None \<longrightarrow> signaled = None \<longrightarrow> wire_peer wire s = peer_arg)"
  let ?expect = "\<lambda>s. (case peer_arg of Some p \<Rightarrow> Some p | None \<Rightarrow> (case signaled of Some p \<Rightarrow> Some p | None \<Rightarrow> wire_peer wire s))"
  have wire: "wire = WireChannel \<longleftrightarrow> signaled \<noteq> None" "signaled = None \<Longrightarrow> wire = WireRelay"
    using webrtc unfolding wire_def by (cases "rc_transport cfg"; simp)+
  have run: "triple (=) ?T (\<lambda>s l. sent_to signaled l \<and> cell_wire s = peer_arg)
      (spike_run N D up i peer_arg wire role) (\<lambda>r s l. \<forall>out. r = Inr out \<longrightarrow> ?out out s l)"
  proof (rule triple_fix)
    fix s0 :: spike_cells and l0
    assume start: "sent_to signaled l0 \<and> cell_wire s0 = peer_arg"
    show "triple (=) ?T (\<lambda>s l. s = s0 \<and> l = l0) (spike_run N D up i peer_arg wire role)
        (\<lambda>r s l. \<forall>out. r = Inr out \<longrightarrow> ?out out s l)"
    proof (rule triple_weaken [OF spike_run_triple [OF B Z]])
      fix r s l
      assume post: "completed N role r \<and> (closed_inv wire s0 l0 s l \<or> (\<exists>e. r = Inl e) \<and> s = s0 \<and> l = l0)"
      show "\<forall>out. r = Inr out \<longrightarrow> ?out out s l"
      proof (intro allI impI)
        fix out
        assume r: "r = Inr out"
        then obtain a where "app_ok N a" "app_finish a = Inr out" using post by (auto simp: completed_def)
        then have auth: "connected_as N (so_peer_id out)"
          by (auto simp: app_ok_def app_finish_def split: option.splits)
        obtain es where l: "l = l0 @ es @ [close_effect wire]" and es: "\<forall>e\<in>set es. on_wire wire s e"
          and bound: "cell_wire s0 \<noteq> None \<longrightarrow> cell_wire s = cell_wire s0"
          using post r by (auto simp: closed_inv_def wire_inv_def)
        have "sent_to (if wire = WireRelay then cell_wire s else None) es"
          using es by (fastforce simp: sent_to_def on_wire_def)
        moreover have "SendToPeer q d \<noteq> close_effect wire" for q d
          by (simp add: close_effect_def split: spike_wire.split)
        ultimately have "sent_to (case signaled of Some p \<Rightarrow> Some p | None \<Rightarrow> wire_peer wire s) l"
          using start wire l by (cases signaled) (auto simp: wire_peer_def sent_to_def)
        with auth bound start wire show "?out out s l" by (auto simp: wire_peer_def)
      qed
    qed auto
  qed
  have check: "triple (=) ?T (?out out)
      (and_then (access (\<lambda>_ s. (wire_peer wire s, s))) (\<lambda>bound.
           case (case peer_arg of Some p \<Rightarrow> Some p | None \<Rightarrow> (case signaled of Some p \<Rightarrow> Some p | None \<Rightarrow> bound)) of
             None \<Rightarrow> ret (Inl ''finished without an expected peer identity'')
           | Some expected \<Rightarrow>
               if so_peer_id out \<noteq> expected
               then ret (Inl ''authenticated peer key differs from the relay-authenticated one'')
               else ret (Inr out)) :: spike_outcome sresult spike_task)
      (\<lambda>r s l. \<forall>out. r = Inr out \<longrightarrow> connected_as N (so_peer_id out) \<and> sent_to (Some (so_peer_id out)) l
        \<and> (peer_arg \<noteq> None \<longrightarrow> peer_arg = Some (so_peer_id out)))" for out
    by (rule triple_and_then [OF triple_access [where Q = "\<lambda>x s l. ?out out s l \<and> wire_peer wire s = x"]])
       (use agree in \<open>auto intro!: triple_ret split: option.splits\<close>)
  have "triple (=) ?T (\<lambda>s l. sent_to signaled l)
      (access (\<lambda>_ s. ((), s\<lparr>cell_wire := peer_arg\<rparr>)) :: unit spike_task)
      (\<lambda>_ s l. sent_to signaled l \<and> cell_wire s = peer_arg)"
    by (rule triple_access) auto
  then show ?thesis
    unfolding quic_phase_def Let_def wire_def [symmetric] role_def [symmetric]
    by (rule triple_and_then) (rule triple_try_then [OF run], simp, rule triple_weaken [OF check], auto)
qed

lemma demo_run_triple:
  assumes B: "spike_backlog N rank fed step" and Z: "noq_sizes N"
  shows "triple (=) (\<lambda>_ _. True) (\<lambda>s l. sent_to None l) (demo_run N D up J H create cfg)
     (\<lambda>r s l. \<forall>report. r = Inr report \<longrightarrow>
        (\<exists>pid. rr_peer_id report = hex_encode H pid \<and> connected_as N pid \<and> sent_to (Some pid) l
           \<and> (\<forall>text. rc_peer cfg = Some text \<longrightarrow> parse_endpoint_id H text = Inr pid)))"
    (is "triple _ ?T _ _ ?Q")
proof -
  let ?none = "\<lambda>_ l. sent_to None l"
  let ?signaled = "\<lambda>peer_arg r s l. \<forall>x. r = Inr x \<longrightarrow> sent_to x l
     \<and> (rc_transport cfg = TransportWebrtc \<longleftrightarrow> x \<noteq> None)
     \<and> (\<forall>p. x = Some p \<longrightarrow> peer_arg \<noteq> None \<longrightarrow> peer_arg = Some p)"
  have signal: "triple (=) ?T ?none
      ((case rc_transport cfg of
          TransportWebrtc \<Rightarrow> try_then (signal_phase J create (rc_role cfg) peer_arg) (\<lambda>p. ret (Inr (Some p)))
        | TransportRelay \<Rightarrow> ret (Inr None)) :: endpoint_id option sresult spike_task) (?signaled peer_arg)" for peer_arg
  proof (cases "rc_transport cfg")
    case TransportWebrtc
    show ?thesis
      unfolding TransportWebrtc demo_transport.case
      by (rule triple_try_then [OF signal_phase_triple]) (auto intro: triple_ret)
  next
    case TransportRelay
    show ?thesis unfolding TransportRelay demo_transport.case by (rule triple_ret) simp
  qed
  let ?auth = "\<lambda>out s l. sent_to (Some (so_peer_id out)) l \<and> connected_as N (so_peer_id out)
        \<and> (\<forall>text. rc_peer cfg = Some text \<longrightarrow> parse_endpoint_id H text = Inr (so_peer_id out))"
  have last: "triple (=) ?T (?auth out) (demo_report H cfg i out) ?Q" for out i
    unfolding demo_report_def
    by (rule triple_and_then [OF triple_emit [where Q = "\<lambda>_. ?auth out"]]) (auto intro!: triple_ret)
  have quic: "triple (=) ?T (?signaled peer_arg (Inr signaled))
      (try_then (quic_phase N D up i cfg peer_arg signaled) (demo_report H cfg i)) ?Q"
    if arg: "parse_peer H (rc_peer cfg) = Inr peer_arg" for peer_arg signaled i
  proof (rule triple_fix)
    fix s0 :: spike_cells and l0
    assume pre: "?signaled peer_arg (Inr signaled) s0 l0"
    have "(\<forall>text. rc_peer cfg = Some text \<longrightarrow> parse_endpoint_id H text = Inr p)" if "peer_arg \<noteq> None \<longrightarrow> peer_arg = Some p" for p
      using arg that by (auto simp: parse_peer_def dest!: map_sum_InrD)
    then have post: "triple (=) ?T (\<lambda>s l. s = s0 \<and> l = l0) (quic_phase N D up i cfg peer_arg signaled)
        (\<lambda>r s l. \<forall>out. r = Inr out \<longrightarrow> ?auth out s l)"
      by (intro triple_weaken [OF quic_phase_triple [OF B Z, of cfg signaled peer_arg]]) (use pre in auto)
    show "triple (=) ?T (\<lambda>s l. s = s0 \<and> l = l0)
        (try_then (quic_phase N D up i cfg peer_arg signaled) (demo_report H cfg i)) ?Q"
      by (rule triple_try_then [OF post], simp, rule triple_weaken [OF last], auto)
  qed
  have waited: "triple (=) ?T ?none (await sel :: 'x spike_task) (\<lambda>_. ?none)" for sel :: "spike_answer \<Rightarrow> 'x"
    by (rule triple_await) auto
  have announced: "triple (=) ?T ?none (emit [Announce j] :: unit spike_task) (\<lambda>_. ?none)" for j
    by (rule triple_emit) simp
  have "triple (=) ?T ?none (emit [ConnectRelay url j] :: unit spike_task) (\<lambda>_. ?none)" for url j
    by (rule triple_emit) simp
  note dialed = triple_and_then [OF this waited]
  show ?thesis
    unfolding demo_run_def
  proof (rule triple_try_then [OF waited], simp, rule triple_and_then [OF announced])
    fix i :: identity and u :: unit
    show "triple (=) ?T ?none
      (case parse_peer H (rc_peer cfg) of
         Inl e \<Rightarrow> ret (Inl e)
       | Inr peer_arg \<Rightarrow>
           if rc_role cfg = DemoClient \<and> peer_arg = None
           then ret (Inl ''the client role requires the server's endpoint id (peer)'')
           else demo_session N D up J H create cfg i peer_arg) ?Q"
    proof (cases "parse_peer H (rc_peer cfg)")
      case (Inr peer_arg)
      have "triple (=) ?T ?none (demo_session N D up J H create cfg i peer_arg) ?Q"
        unfolding demo_session_def
        by (rule triple_try_then [OF dialed], simp, rule triple_try_then [OF signal], simp, rule quic [OF Inr])
      with Inr show ?thesis by (auto intro: triple_ret)
    qed (auto intro: triple_ret)
  qed
qed

text \<open>
  The comment of \<open>Signaling\<close> has the server learn its peer from the first signal. The cell is set
  before the prefix is looked at, so the source of the first datagram is bound even when the datagram is
  no signal, and a later offer from the real peer is then not admitted.
\<close>

lemma first_datagram_binds_signaling:
  assumes "cell_signal (w_state w) = None" and "w_script w = [(r, k, id)]" and "sa_datagram r = Inr d"
    and "payload d = b # json" and "b \<noteq> SIGNAL_PREFIX"
  shows "\<exists>w'. signaling_recv J w = (Waiting, w') \<and> cell_signal (w_state w') = Some (source d)
     \<and> (\<forall>p s. p \<noteq> source d \<longrightarrow> cell_signal s = cell_signal (w_state w') \<longrightarrow> \<not> fst (admit_source p s))"
  using assms
  by (simp add: signaling_recv_def looping_def loop_opt.simps loop_turn_def ok_or_break_def and_then_def
      await_def access_def ret_def admit_source_def)

section \<open>Properties\<close>

text \<open>C29. The exported run of the spike never panics and never spins. When it reports success, the peer
  it names presented its key in a TLS handshake, it is the peer given as argument when there was one, and
  every datagram the run addressed through the relay, signals included, went to that peer.\<close>

theorem demo_run_authenticated:
  assumes "spike_backlog N rank fed step" and "noq_sizes N" and "env_respects (=) w" and "w_log w = []"
    and "demo_run N D to_uppercase J H create cfg w = (r, w')"
  shows "(\<forall>p. r \<noteq> Panicked p) \<and> r \<noteq> Diverged
     \<and> (\<forall>report. r = Done (Inr report) \<longrightarrow>
          (\<exists>pid. rr_peer_id report = hex_encode H pid \<and> connected_as N pid
             \<and> (\<forall>q d. SendToPeer q d \<in> set (w_log w') \<longrightarrow> q = pid)
             \<and> (\<forall>text. rc_peer cfg = Some text \<longrightarrow> parse_endpoint_id H text = Inr pid)))"
proof -
  have start: "sent_to None (w_log w)" using assms(4) by simp
  note T = tripleD [OF demo_run_triple [OF assms(1,2)] assms(3) start assms(5)]
  have "\<exists>pid. rr_peer_id report = hex_encode H pid \<and> connected_as N pid
       \<and> (\<forall>q d. SendToPeer q d \<in> set (w_log w') \<longrightarrow> q = pid)
       \<and> (\<forall>text. rc_peer cfg = Some text \<longrightarrow> parse_endpoint_id H text = Inr pid)"
    if "r = Done (Inr report)" for report
    using T(1) [OF that] by (auto simp: sent_to_def)
  with T(4,5) show ?thesis by blast
qed

section \<open>Witnesses\<close>

definition toy_hex :: hex_codec where
  "toy_hex = \<lparr>hex_encode = map byte_char, hex_decode = (\<lambda>s. Inr (string_bytes s))\<rparr>"

definition toy_json :: spike_json where
  "toy_json = \<lparr>to_json = (\<lambda>_. Inr []), from_json = (\<lambda>_. None), json_error = (\<lambda>_. ''''), debug_signal = (\<lambda>_. '''')\<rparr>"

definition toy_config :: run_config where
  "toy_config = \<lparr>rc_server = ''http://relay'', rc_role = DemoServer, rc_transport = TransportRelay, rc_peer = None, rc_message = ''''\<rparr>"

definition toy_demo_world :: "(spike_cells, spike_answer, spike_effect) world" where
  "toy_demo_world =
     toy_spike_world\<lparr>w_script := (toy_ready TickFired, 1, id) # (toy_ready TickFired, 1, id) # w_script toy_spike_world\<rparr>"

lemma toy_demo_run:
  "\<exists>report w'. demo_run toy_spike toy_spike_deps id toy_json toy_hex (\<lambda>_. Inr ()) toy_config toy_demo_world = (Done (Inr report), w')
     \<and> rr_peer_id report = [CHR 0x09]"
  by (simp add: demo_run_def demo_session_def quic_phase_def demo_report_def parse_peer_def toy_config_def
      toy_demo_world_def wire_peer_def toy_hex_def byte_char_def toy_run_defs toy_spike_defs loop_opt.simps
      lossy_empty string_bytes_def) code_simp

theorem demo_run_authenticated_witness:
  "\<exists>report w'. demo_run toy_spike toy_spike_deps id toy_json toy_hex (\<lambda>_. Inr ()) toy_config toy_demo_world
       = (Done (Inr report), w')
     \<and> (\<exists>pid. rr_peer_id report = hex_encode toy_hex pid \<and> connected_as toy_spike pid
          \<and> (\<forall>q d. SendToPeer q d \<in> set (w_log w') \<longrightarrow> q = pid))"
proof -
  obtain report w' where run: "demo_run toy_spike toy_spike_deps id toy_json toy_hex (\<lambda>_. Inr ()) toy_config toy_demo_world
      = (Done (Inr report), w')"
    using toy_demo_run by blast
  have env: "env_respects (=) toy_demo_world" "w_log toy_demo_world = []"
    using toy_spike_env by (auto simp: env_respects_def toy_demo_world_def toy_spike_world_def)
  from demo_run_authenticated [OF toy_spike_backlog toy_spike_sizes env run] run show ?thesis by blast
qed

end
