(* ===== verification/Demo.thy ===== *)
theory Demo
  imports Streams Loops
begin

text \<open>
  Model of \<open>endpoint-demo/src/lib.rs\<close>, the application that runs on the exported endpoint: the identity
  and options it binds with, the client's and the server's halves of the echo, and the exported run. It
  is composed of the endpoint's own methods (\<open>Endpoint_Api\<close>, \<open>Streams\<close>), so its tasks run beside the
  pump and the sessions. The debug rendering of the interface error, the hex codec and the Unicode
  case mapping of \<open>to_uppercase\<close> are arguments.
\<close>

section \<open>Definitions\<close>

subsection \<open>Configuration and report\<close>

datatype ed_role = EdClient | EdServer

record ed_config =
  dc_relay_url :: string
  dc_role :: ed_role
  dc_peer :: "string option"
  dc_alpn :: "string option"
  dc_udp_bind :: "string option"
  dc_direct :: "string option"
  dc_webrtc :: bool
  dc_peer_relay :: "string option"
  dc_payload_bytes :: "u64 option"
  dc_datagram :: bool
  dc_inject_identity :: bool
  dc_message :: string

record ed_report =
  dr_endpoint_id :: string
  dr_peer_id :: string
  dr_path :: string
  dr_handshake_ms :: u64
  dr_roundtrip_ms :: u64
  dr_received :: string
  dr_datagram :: "string option"

definition DEMO_ALPN :: bytes where
  "DEMO_ALPN = string_bytes ''iroh-demo/0''"

definition READ_MAX :: u32 where
  "READ_MAX = 16384"

definition ED_DATAGRAM_COPIES :: nat where
  "ED_DATAGRAM_COPIES = 3"

definition UPGRADE_DEADLINE_POLLS :: u32 where
  "UPGRADE_DEADLINE_POLLS = 30000 div 5"

definition SUMMARY_LIMIT :: nat where
  "SUMMARY_LIMIT = 4096"

definition path_name :: "path_kind \<Rightarrow> string" where
  "path_name path = (case path of PathRelay \<Rightarrow> ''relay'' | PathIp \<Rightarrow> ''ip'' | PathWebrtc \<Rightarrow> ''webrtc'')"

definition fail :: "(error \<Rightarrow> string) \<Rightarrow> string \<Rightarrow> error \<Rightarrow> string" where
  "fail debug what err = what @ '': '' @ debug err"

text \<open>\<open>.map_err(fail(what))\<close> on a call.\<close>

definition or_fail ::
  "(error \<Rightarrow> string) \<Rightarrow> string \<Rightarrow> ('n, 'c, 'a result) api_task \<Rightarrow> ('n, 'c, 'a sresult) api_task" where
  "or_fail debug what t = and_then t (\<lambda>r. ret (map_err (fail debug what) r))"

subsection \<open>The exchange\<close>

text \<open>Read to the end of the stream.\<close>

definition read_to_end ::
  "('n, 'c, 'i, 'ce, 'ee, 'cfg, 'z) noq_streams_scheme \<Rightarrow> (error \<Rightarrow> string) \<Rightarrow> recv_stream_res
     \<Rightarrow> ('n, 'c, bytes sresult) api_task" where
  "read_to_end N debug recv =
     looping (\<lambda>acc. ok_or_break (or_fail debug ''read'' (recv_stream_read N recv READ_MAX)) Inl (\<lambda>chunk.
       ret (case chunk of None \<Rightarrow> Inr (Inr acc) | Some bs \<Rightarrow> Inl (acc @ bs)))) []"

definition write_and_finish ::
  "('n, 'c, 'i, 'ce, 'ee, 'cfg, 'z) noq_streams_scheme \<Rightarrow> (error \<Rightarrow> string) \<Rightarrow> send_stream_res \<Rightarrow> bytes
     \<Rightarrow> ('n, 'c, unit sresult) api_task" where
  "write_and_finish N debug send data =
     try_then (or_fail debug ''write'' (send_stream_write N send data)) (\<lambda>_.
       or_fail debug ''finish'' (access_or_panic (\<lambda>_. send_stream_finish N send)))"

primrec ed_send_copies ::
  "('n, 'c, 'i, 'ce, 'ee, 'cfg, 'z) noq_streams_scheme \<Rightarrow> (error \<Rightarrow> string) \<Rightarrow> nat \<Rightarrow> bytes \<Rightarrow> nat
     \<Rightarrow> ('n, 'c, unit sresult) api_task" where
  "ed_send_copies N debug conn data 0 = ret (Inr ())"
| "ed_send_copies N debug conn data (Suc n) =
     try_then (or_fail debug ''send-datagram'' (access_or_panic (\<lambda>_. conn_send_datagram N conn data)))
       (\<lambda>_. ed_send_copies N debug conn data n)"

subsection \<open>The client\<close>

definition client_target :: "ed_config \<Rightarrow> bytes \<Rightarrow> endpoint_addr" where
  "client_target cfg peer =
     (let relay = (case dc_peer_relay cfg of Some url \<Rightarrow> url | None \<Rightarrow> dc_relay_url cfg)
      in \<lparr>ea_endpoint_id = peer,
          ea_addrs = (case dc_direct cfg of Some direct \<Rightarrow> [TIp direct] | None \<Rightarrow> [])
            @ (if dc_webrtc cfg then [TWebrtc relay] else []) @ [TRelay relay]\<rparr>)"

text \<open>Poll the path until the upgrade reached it; \<open>polls\<close> counts in 32 bits.\<close>

definition await_upgrade ::
  "('n, 'c, 'i, 'ce, 'ee, 'cfg, 'z) noq_streams_scheme \<Rightarrow> nat \<Rightarrow> ('n, 'c, unit sresult) api_task" where
  "await_upgrade N conn =
     looping (\<lambda>polls :: u32.
       and_then (access (\<lambda>_ s. (conn_path N conn s, s))) (\<lambda>path.
         if path = PathWebrtc then ret (Inr (Inr ()))
         else if UPGRADE_DEADLINE_POLLS < polls + 1 then ret (Inr (Inl ''webrtc upgrade did not complete''))
         else and_then (await (\<lambda>_. ())) (\<lambda>_. ret (Inl (polls + 1))))) 0"

text \<open>\<open>bytes as usize\<close> keeps the low 32 bits.\<close>

definition client_payload :: "ed_config \<Rightarrow> bytes" where
  "client_payload cfg =
     (case dc_payload_bytes cfg of
        Some n \<Rightarrow> replicate (unat (ucast n :: u32)) 0
      | None \<Rightarrow> string_bytes (dc_message cfg))"

definition client_exchange ::
  "('n, 'c, 'i, 'ce, 'ee, 'cfg, 'z) noq_streams_scheme \<Rightarrow> (error \<Rightarrow> string) \<Rightarrow> bytes \<Rightarrow> send_stream_res \<times> recv_stream_res
     \<Rightarrow> ('n, 'c, (bytes \<times> u64) sresult) api_task" where
  "client_exchange N debug data st =
     and_then time_now (\<lambda>sent_at.
     try_then (write_and_finish N debug (fst st) data) (\<lambda>_.
     try_then (read_to_end N debug (snd st)) (\<lambda>echoed.
     and_then time_now (\<lambda>now.
       ret (if length echoed \<noteq> length data
            then Inl (''echo length mismatch: sent '' @ dec_string (length data) @ '', got '' @ dec_string (length echoed))
            else Inr (echoed, millis (now - sent_at)))))))"

definition run_client_datagram ::
  "('n, 'c, 'i, 'ce, 'ee, 'cfg, 'z) noq_streams_scheme \<Rightarrow> (error \<Rightarrow> string) \<Rightarrow> nat \<Rightarrow> string
     \<Rightarrow> ('n, 'c, string sresult) api_task" where
  "run_client_datagram N debug conn message =
     and_then (access_or_panic (\<lambda>_. max_datagram_size N conn)) (\<lambda>max.
       case max of
         None \<Rightarrow> ret (Inl ''peer does not accept datagrams'')
       | Some limit \<Rightarrow>
           (let data = string_bytes (''datagram '' @ message)
            in if unat limit < length data
               then ret (Inl (''demo datagram ('' @ dec_string (length data)
                           @ '' bytes) exceeds max-datagram-size ('' @ dec_string (unat limit) @ '')''))
               else
                 try_then (ed_send_copies N debug conn data ED_DATAGRAM_COPIES) (\<lambda>_.
                 try_then (or_fail debug ''recv-datagram'' (conn_recv_datagram N conn)) (\<lambda>echoed.
                   ret (if echoed \<noteq> data
                        then Inl (''datagram echo mismatch: sent '' @ dec_string (length data) @ '' bytes, got ''
                               @ dec_string (length echoed) @ '' bytes'')
                        else Inr (from_utf8_lossy echoed))))))"

text \<open>\<open>Some(f().await?)\<close> when asked for, \<open>None\<close> otherwise.\<close>

definition when_asked :: "bool \<Rightarrow> ('n, 'c, 'a sresult) api_task \<Rightarrow> ('n, 'c, 'a option sresult) api_task" where
  "when_asked b t = (if b then try_then t (\<lambda>x. ret (Inr (Some x))) else ret (Inr None))"

definition client_received :: "ed_config \<Rightarrow> bytes \<Rightarrow> string" where
  "client_received cfg echoed =
     (case dc_payload_bytes cfg of
        Some _ \<Rightarrow> dec_string (length echoed) @ '' bytes''
      | None \<Rightarrow> from_utf8_lossy echoed)"

text \<open>The client once it is connected.\<close>

definition client_session ::
  "('n, 'c, 'i, 'ce, 'ee, 'cfg, 'z) noq_streams_scheme \<Rightarrow> (error \<Rightarrow> string) \<Rightarrow> ('h) hex_codec_scheme \<Rightarrow> ed_config
     \<Rightarrow> nat \<Rightarrow> u64 \<Rightarrow> ('n, 'c, ed_report sresult) api_task" where
  "client_session N debug H cfg conn handshake_ms =
     try_then (if dc_webrtc cfg then await_upgrade N conn else ret (Inr ())) (\<lambda>_.
     try_then (or_fail debug ''open-bi'' (open_bi N conn)) (\<lambda>st.
     try_then (client_exchange N debug (client_payload cfg) st) (\<lambda>(echoed, roundtrip_ms).
     try_then (when_asked (dc_datagram cfg) (run_client_datagram N debug conn (dc_message cfg))) (\<lambda>datagram.
     and_then (access (\<lambda>_ s. (conn_path N conn s, s))) (\<lambda>path.
     and_then (access_or_panic (\<lambda>now. conn_close N conn 0 ''done'' now)) (\<lambda>_.
     and_then (wait_closed conn) (\<lambda>_.
     and_then (access_or_panic (\<lambda>_. conn_peer conn)) (\<lambda>peer.
       ret (Inr \<lparr>dr_endpoint_id = '''', dr_peer_id = hex_encode H peer, dr_path = path_name path,
                 dr_handshake_ms = handshake_ms, dr_roundtrip_ms = roundtrip_ms,
                 dr_received = client_received cfg echoed, dr_datagram = datagram\<rparr>)))))))))"

definition run_client ::
  "('n, 'c, 'i, 'ce, 'ee, 'cfg, 'z) noq_streams_scheme \<Rightarrow> ('rpk, 'tls, 'cfg) connect_deps \<Rightarrow> (error \<Rightarrow> string)
     \<Rightarrow> ('h) hex_codec_scheme \<Rightarrow> ed_config \<Rightarrow> endpoint_res \<Rightarrow> ('n, 'c, ed_report sresult) api_task" where
  "run_client N D debug H cfg er =
     (case dc_peer cfg of
        None \<Rightarrow> ret (Inl ''the client role requires the server's endpoint id (peer)'')
      | Some peer_hex \<Rightarrow>
          (case hex_decode H peer_hex of
             Inl e \<Rightarrow> ret (Inl (''bad endpoint id: '' @ e))
           | Inr peer \<Rightarrow>
               (let alpn = (case dc_alpn cfg of Some a \<Rightarrow> string_bytes a | None \<Rightarrow> DEMO_ALPN)
                in and_then time_now (\<lambda>started.
                   try_then (or_fail debug ''connect'' (connect N D er (client_target cfg peer) alpn)) (\<lambda>conn.
                   and_then time_now (\<lambda>now.
                     client_session N debug H cfg conn (millis (now - started))))))))"

subsection \<open>The server\<close>

text \<open>What is echoed, and what is reported: small messages in uppercase, bulk ones verbatim.\<close>

definition server_echo :: "(string \<Rightarrow> string) \<Rightarrow> bytes \<Rightarrow> bytes \<times> string" where
  "server_echo to_uppercase data =
     (if length data \<le> SUMMARY_LIMIT
      then (let text = from_utf8_lossy data in (string_bytes (to_uppercase text), text))
      else (data, dec_string (length data) @ '' bytes''))"

definition server_exchange ::
  "('n, 'c, 'i, 'ce, 'ee, 'cfg, 'z) noq_streams_scheme \<Rightarrow> (error \<Rightarrow> string) \<Rightarrow> (string \<Rightarrow> string)
     \<Rightarrow> send_stream_res \<times> recv_stream_res \<Rightarrow> ('n, 'c, string sresult) api_task" where
  "server_exchange N debug to_uppercase st =
     try_then (read_to_end N debug (snd st)) (\<lambda>data.
       let (echo, received) = server_echo to_uppercase data
       in try_then (write_and_finish N debug (fst st) echo) (\<lambda>_. ret (Inr received)))"

definition server_datagram ::
  "('n, 'c, 'i, 'ce, 'ee, 'cfg, 'z) noq_streams_scheme \<Rightarrow> (error \<Rightarrow> string) \<Rightarrow> nat \<Rightarrow> ('n, 'c, string sresult) api_task" where
  "server_datagram N debug conn =
     try_then (or_fail debug ''recv-datagram'' (conn_recv_datagram N conn)) (\<lambda>data.
     try_then (ed_send_copies N debug conn data ED_DATAGRAM_COPIES) (\<lambda>_. ret (Inr (from_utf8_lossy data))))"

text \<open>The server once it accepted a connection.\<close>

definition server_session ::
  "('n, 'c, 'i, 'ce, 'ee, 'cfg, 'z) noq_streams_scheme \<Rightarrow> (error \<Rightarrow> string) \<Rightarrow> ('h) hex_codec_scheme
     \<Rightarrow> (string \<Rightarrow> string) \<Rightarrow> ed_config \<Rightarrow> nat \<Rightarrow> ('n, 'c, ed_report sresult) api_task" where
  "server_session N debug H to_uppercase cfg conn =
     try_then (or_fail debug ''accept-bi'' (accept_bi conn)) (\<lambda>st.
     try_then (server_exchange N debug to_uppercase st) (\<lambda>received.
     try_then (when_asked (dc_datagram cfg) (server_datagram N debug conn)) (\<lambda>datagram.
     and_then (access (\<lambda>_ s. (conn_path N conn s, s))) (\<lambda>path.
     and_then (wait_closed conn) (\<lambda>_.
     and_then (access_or_panic (\<lambda>_. conn_peer conn)) (\<lambda>peer.
       ret (Inr \<lparr>dr_endpoint_id = '''', dr_peer_id = hex_encode H peer, dr_path = path_name path,
                 dr_handshake_ms = 0, dr_roundtrip_ms = 0, dr_received = received,
                 dr_datagram = datagram\<rparr>)))))))"

definition run_server ::
  "('n, 'c, 'i, 'ce, 'ee, 'cfg, 'z) noq_streams_scheme \<Rightarrow> (error \<Rightarrow> string) \<Rightarrow> ('h) hex_codec_scheme
     \<Rightarrow> (string \<Rightarrow> string) \<Rightarrow> ed_config \<Rightarrow> ('n, 'c, ed_report sresult) api_task" where
  "run_server N debug H to_uppercase cfg =
     try_then (or_fail debug ''accept'' accept) (server_session N debug H to_uppercase cfg)"

subsection \<open>The exported run\<close>

text \<open>Minting keys with the WebCrypto library, and the two identity constructors.\<close>

record ed_keys =
  ek_generate_key :: "key_options \<Rightarrow> (signing_handle \<times> verifying_handle) sresult"
  ek_spki :: "bytes \<Rightarrow> bytes"

definition demo_identity :: "ed_keys \<Rightarrow> (error \<Rightarrow> string) \<Rightarrow> bool \<Rightarrow> identity_res sresult" where
  "demo_identity K debug inject =
     (if inject
      then (case ek_generate_key K \<lparr>opt_sign = True, opt_extractable = False\<rparr> of
              Inl e \<Rightarrow> Inl (''mint identity keys: '' @ e)
            | Inr (signing, verifying) \<Rightarrow>
                map_err (fail debug ''from-keys'') (from_keys (ek_spki K) signing verifying))
      else map_err (fail debug ''generate'') (generate (ek_generate_key K) (ek_spki K)))"

definition demo_options :: "ed_config \<Rightarrow> identity_res \<Rightarrow> options_state" where
  "demo_options cfg i =
     set_webrtc (dc_webrtc cfg)
       ((case dc_udp_bind cfg of Some addr \<Rightarrow> set_udp_bind_addr addr | None \<Rightarrow> id)
         (set_relay_url (dc_relay_url cfg) (add_alpn DEMO_ALPN (options_new i))))"

text \<open>What the run prints for its driver.\<close>

definition demo_announces ::
  "('h) hex_codec_scheme \<Rightarrow> (socket_addr \<Rightarrow> string) \<Rightarrow> endpoint_res \<Rightarrow> string list" where
  "demo_announces H to_text er =
     (''endpoint-id '' @ hex_encode H (endpoint_res_id er))
       # (case direct_addr to_text er of None \<Rightarrow> [] | Some addr \<Rightarrow> [''direct-addr '' @ addr])"

text \<open>The role's half, then the close of the endpoint.\<close>

definition ed_session ::
  "('n, 'c, 'i, 'ce, 'ee, 'cfg, 'z) noq_streams_scheme \<Rightarrow> ('rpk, 'tls, 'cfg) connect_deps \<Rightarrow> (error \<Rightarrow> string)
     \<Rightarrow> ('h) hex_codec_scheme \<Rightarrow> (string \<Rightarrow> string) \<Rightarrow> ed_config \<Rightarrow> endpoint_res
     \<Rightarrow> ('n, 'c, ed_report sresult) api_task" where
  "ed_session N D debug H to_uppercase cfg er =
     try_then (case dc_role cfg of
                 EdClient \<Rightarrow> run_client N D debug H cfg er
               | EdServer \<Rightarrow> run_server N debug H to_uppercase cfg) (\<lambda>report.
     and_then (access (\<lambda>now s. ((), endpoint_close N now s))) (\<lambda>_.
       ret (Inr (report\<lparr>dr_endpoint_id := hex_encode H (endpoint_res_id er)\<rparr>))))"

text \<open>The whole run, on the clock and the script its awaits meet: its outcome, what it printed, and the
  endpoint's state when there is one.\<close>

definition ed_run ::
  "('n, 'c, 'i, 'ce, 'ee, 'cfg, 'z) noq_streams_scheme \<Rightarrow> ('rpk, 'tls, 'cfg) connect_deps
     \<Rightarrow> ('n, 'rpk, 'stls, 'quic) bind_deps \<Rightarrow> ed_keys \<Rightarrow> (error \<Rightarrow> string) \<Rightarrow> ('h) hex_codec_scheme
     \<Rightarrow> (socket_addr \<Rightarrow> string) \<Rightarrow> (string \<Rightarrow> string) \<Rightarrow> ed_config \<Rightarrow> nat
     \<Rightarrow> (api_answer \<times> nat \<times> (('n, 'c) state \<Rightarrow> ('n, 'c) state)) list
     \<Rightarrow> ed_report sresult outcome \<times> string list \<times> ('n, 'c) state option" where
  "ed_run N D B K debug H to_text to_uppercase cfg now script =
     (case demo_identity K debug (dc_inject_identity cfg) of
        Inl e \<Rightarrow> (Done (Inl e), [], None)
      | Inr i \<Rightarrow>
          (case Endpoint_Api.bind B (demo_options cfg i) of
             Parked \<Rightarrow> (Waiting, [], None)
           | Returned (Inl e) \<Rightarrow> (Done (Inl (fail debug ''bind'' e)), [], None)
           | Returned (Inr (er, s, l)) \<Rightarrow>
               if endpoint_res_id er \<noteq> identity_res_endpoint_id i
               then (Done (Inl ''bind did not adopt the supplied identity''), [], Some s)
               else
                 (case ed_session N D debug H to_uppercase cfg er
                         \<lparr>w_now = now, w_state = s, w_script = script, w_log = []\<rparr> of
                    (r, w) \<Rightarrow> (r, demo_announces H to_text er, Some (w_state w)))))"
section \<open>Lemmas\<close>

subsection \<open>What noq promises\<close>

text \<open>A write takes no more than it was given; handing out a chunk uses up what there is to read.\<close>

definition writes_bounded :: "('n, 'c, 'i, 'ce, 'ee, 'cfg, 'z) noq_streams_scheme \<Rightarrow> bool" where
  "writes_bounded N \<longleftrightarrow> (\<forall>sid bs c n c'. nc_send_write N sid bs c = (Inr n, c') \<longrightarrow> n \<le> length bs)"

definition reads_drain :: "('n, 'c, 'i, 'ce, 'ee, 'cfg, 'z) noq_streams_scheme \<Rightarrow> ('c \<Rightarrow> nat) \<Rightarrow> bool" where
  "reads_drain N rank \<longleftrightarrow>
     (\<forall>ordered sid limit c bs c'. nc_recv_read N ordered sid limit c = (Inr (Inr (Some bs)), c') \<longrightarrow> rank c' < rank c)"

lemma writes_bounded_sends: "stream_sends N sent \<Longrightarrow> writes_bounded N"
  unfolding stream_sends_def writes_bounded_def by fastforce

lemma write_loop_total:
  assumes "writes_bounded N" and "offset \<le> length bs"
  shows "\<exists>r offset' c'. write_loop N sid bs offset c = Inr (r, offset', c') \<and> offset' \<le> length bs"
  using assms(2)
proof (induction "length bs - offset" arbitrary: offset c rule: less_induct)
  case less
  obtain r c' where w: "nc_send_write N sid (drop offset bs) c = (r, c')" by force
  show ?case
  proof (cases r)
    case (Inr n)
    with w assms(1) have "n \<le> length (drop offset bs)" unfolding writes_bounded_def by blast
    then have le: "offset + n \<le> length bs" using less.prems by simp
    show ?thesis
    proof (cases "offset + n = length bs \<or> n = 0")
      case False
      then have "length bs - (offset + n) < length bs - offset" using le by linarith
      from less.hyps [OF this le, of c'] w Inr False less.prems show ?thesis by (subst write_loop.simps) auto
    qed (use w Inr le less.prems in \<open>subst write_loop.simps, auto\<close>)
  next
    case (Inl e)
    with w less.prems show ?thesis by (subst write_loop.simps) (auto split: write_error.split)
  qed
qed

lemma or_fail_ok: "or_fail debug what t w = (Done (Inr x), w') \<Longrightarrow> t w = (Done (Inr x), w')"
  by (auto simp: or_fail_def and_then_def ret_def map_err_def split: prod.splits outcome.splits sum.splits)

text \<open>What there is to read on a connection, and that a read which yields bytes waited or used some of it.\<close>

definition conn_rank :: "('c \<Rightarrow> nat) \<Rightarrow> nat \<Rightarrow> ('n, 'c) state \<Rightarrow> nat" where
  "conn_rank rank h s = (case map_of (st_conns s) h of None \<Rightarrow> 0 | Some e \<Rightarrow> rank (ce_conn e))"

lemma read_goes_on:
  assumes "reads_drain N rank"
    and "recv_stream_read N (snd (stream_pair h sid)) READ_MAX w = (Done (Inr (Some bs)), w')"
  shows "length (w_script w') < length (w_script w)
     \<or> w_script w' = w_script w \<and> conn_rank rank h (w_state w') < conn_rank rank h (w_state w)"
proof -
  have "wait_until (check_entry h (read_entry N sid 16384)) () w = (Done (Inr (Some bs)), w')"
    using assms(2) by (simp add: recv_stream_read_def stream_pair_def READ_MAX_def read_some_def)
  from wait_until_first [OF this] show ?thesis
  proof (elim disjE conjE exE)
    fix k'
    assume sc: "w_script w' = w_script w"
      and ck: "check_entry h (read_entry N sid 16384) () (w_now w) (w_state w) = Inr (Some (Inr (Some bs)), k', w_state w')"
    then obtain e e' where e: "map_of (st_conns (w_state w)) h = Some e"
      "read_entry N sid 16384 () e = (Some (Inr (Some bs)), (), e')" "w_state w' = put_entry h e' (w_state w)"
      by (auto simp: check_entry_def with_entry_def split: option.splits prod.splits)
    then have "rank (ce_conn e') < rank (ce_conn e)"
      using assms(1) unfolding reads_drain_def
      by (auto simp: read_entry_def split: option.splits prod.splits sum.splits if_splits
          readable_error.splits read_error.splits)
    with e sc show ?thesis by (simp add: conn_rank_def)
  qed simp
qed

lemma read_turn_goes_on:
  assumes "reads_drain N rank"
    and "ok_or_break (or_fail debug ''read'' (recv_stream_read N (snd (stream_pair h sid)) READ_MAX)) Inl
      (\<lambda>chunk. ret (case chunk of None \<Rightarrow> Inr (Inr acc) | Some bs \<Rightarrow> Inl (acc @ bs))) w = (Done (Inl acc'), w')"
  shows "((acc', w'), (acc, w)) \<in> inv_image (less_than <*lex*> less_than)
      (\<lambda>(k, w). (length (w_script w), conn_rank rank h (w_state w)))"
proof -
  obtain bs where "recv_stream_read N (snd (stream_pair h sid)) READ_MAX w = (Done (Inr (Some bs)), w')"
    using assms(2) by (auto simp: ret_def split: option.splits dest!: ok_or_break_goes_on or_fail_ok)
  from read_goes_on [OF assms(1) this] show ?thesis by auto
qed

subsection \<open>Calls on a connection\<close>

text \<open>What the methods of a connection leave alone in its entry.\<close>

definition same_peer :: "'c conn_entry \<Rightarrow> 'c conn_entry \<Rightarrow> bool" where
  "same_peer e e' \<longleftrightarrow> ce_connected e' = ce_connected e \<and> ce_peer e' = ce_peer e
     \<and> ce_expected_peer e' = ce_expected_peer e"

text \<open>The results of opening a stream on a connection.\<close>

definition pairs_of :: "nat \<Rightarrow> ('x + send_stream_res \<times> recv_stream_res) \<Rightarrow> bool" where
  "pairs_of h r \<longleftrightarrow> (case r of Inl _ \<Rightarrow> True | Inr st \<Rightarrow> \<exists>sid. st = stream_pair h sid)"

lemma pairs_of_simps [simp]: "pairs_of h (Inl e)" "pairs_of h (Inr (stream_pair h sid))"
  by (auto simp: pairs_of_def)

text \<open>
  An application holds a connection: a fact about the peer of its entry that the other tasks keep.
  Then it can call every method without a panic, and still holds it.
\<close>

locale held_connection =
  fixes R :: "('n, 'c) state \<Rightarrow> ('n, 'c) state \<Rightarrow> bool" and h :: nat and F :: "'c conn_entry \<Rightarrow> bool"
  assumes stable: "R s t \<Longrightarrow> state_inv s \<Longrightarrow> entry_has h F s \<Longrightarrow> state_inv t \<and> entry_has h F t"
    and peer_fact: "F e \<Longrightarrow> same_peer e e' \<Longrightarrow> F e'"
begin

definition held :: "('n, 'c) state \<Rightarrow> api_effect list \<Rightarrow> bool" where
  "held s l \<longleftrightarrow> state_inv s \<and> entry_has h F s"

definition holds_on :: "('n, 'c, 'a) api_task \<Rightarrow> ('a \<Rightarrow> ('n, 'c) state \<Rightarrow> bool) \<Rightarrow> bool" where
  "holds_on t Q \<longleftrightarrow> triple R (\<lambda>_ _. True) held t (\<lambda>x s l. held s l \<and> Q x s)"

lemma held_put: "held s l \<Longrightarrow> map_of (st_conns s) h = Some e \<Longrightarrow> same_peer e e' \<Longrightarrow> held (put_entry h e' s) l"
  by (auto simp: held_def entry_has_def same_peer_def entry_ok_def peer_fact
      intro!: state_inv_put_entry dest: state_inv_entry)

lemma holds_ret: "(\<And>s. Q x s) \<Longrightarrow> holds_on (ret x) Q"
  by (simp add: holds_on_def triple_ret)

lemma holds_time_now: "holds_on time_now (\<lambda>_ _. True)"
  by (simp add: holds_on_def triple_time_now)

lemma holds_await: "holds_on (await sel) (\<lambda>_ _. True)"
  unfolding holds_on_def by (rule triple_await) (auto simp: held_def dest: stable)

lemma holds_look: "holds_on (access (\<lambda>n s. (f n s, s))) (\<lambda>_ _. True)"
  unfolding holds_on_def by (rule triple_access) auto

lemma holds_and_then:
  assumes "holds_on m (\<lambda>x _. M x)" and "\<And>x. M x \<Longrightarrow> holds_on (f x) Q"
  shows "holds_on (and_then m f) Q"
  unfolding holds_on_def
proof (rule triple_and_then [OF assms(1) [unfolded holds_on_def]])
  show "triple R (\<lambda>_ _. True) (\<lambda>s l. held s l \<and> M x) (f x) (\<lambda>x s l. held s l \<and> Q x s)" for x
    using triple_pure [of "M x", OF assms(2) [unfolded holds_on_def]] by (simp add: conj_commute)
qed

lemma holds_try_then:
  assumes "holds_on m (\<lambda>x _. M x)" and "\<And>e s. M (Inl e) \<Longrightarrow> Q (Inl e) s" and "\<And>x. M (Inr x) \<Longrightarrow> holds_on (f x) Q"
  shows "holds_on (try_then m f) Q"
  unfolding try_then_def
  by (rule holds_and_then [OF assms(1)]) (auto intro: assms(3) holds_ret assms(2) split: sum.split)

lemma holds_weaken: "holds_on t M \<Longrightarrow> (\<And>x s. M x s \<Longrightarrow> Q x s) \<Longrightarrow> holds_on t Q"
  unfolding holds_on_def by (erule triple_weaken) auto

lemma holds_with_entry:
  assumes "\<And>n e x e'. f n e = (x, e') \<Longrightarrow> same_peer e e'"
  shows "holds_on (access_or_panic (\<lambda>n. with_entry h (f n))) (\<lambda>_ _. True)"
  unfolding holds_on_def
proof (rule triple_access_or_panic)
  fix n s l
  assume s: "held s l"
  then obtain e where e: "map_of (st_conns s) h = Some e" by (auto simp: held_def entry_has_def)
  obtain x e' where f: "f n e = (x, e')" by force
  with e held_put [OF s e assms [OF f]]
  show "\<exists>x s'. with_entry h (f n) s = Inr (x, s') \<and> held s' l \<and> True" by (simp add: with_entry_def)
qed

lemma holds_wait:
  assumes "\<And>k n s l. K k \<Longrightarrow> held s l \<Longrightarrow> \<exists>x k' s'. check k n s = Inr (x, k', s') \<and> held s' l \<and> K k'" and "K k"
  shows "holds_on (wait_until check k) (\<lambda>_ _. True)"
  unfolding holds_on_def
proof (rule triple_wait_until [where I = "\<lambda>k s l. K k \<and> held s l"])
  fix k n s l
  assume "K k \<and> held s l"
  with assms(1) [of k s l n] show "(\<exists>x k' s'. check k n s = Inr (Some x, k', s') \<and> held s' l \<and> True)
      \<or> (\<exists>k' s'. check k n s = Inr (None, k', s') \<and> K k' \<and> held s' l)"
    by (metis option.exhaust)
qed (use assms(2) in \<open>auto simp: held_def dest: stable\<close>)

lemma holds_wait_entry:
  assumes "\<And>k e x k' e'. f k e = (x, k', e') \<Longrightarrow> same_peer e e'"
  shows "holds_on (wait_until (check_entry h f) k) (\<lambda>_ _. True)"
proof (rule holds_wait [where K = "\<lambda>_. True"])
  fix k n s l
  assume s: "held s l"
  then obtain e where e: "map_of (st_conns s) h = Some e" by (auto simp: held_def entry_has_def)
  obtain x k' e' where f: "f k e = (x, k', e')" by (metis prod_cases3)
  with check_entry_Inr [where f = f, OF e f] held_put [OF s e assms [OF f]]
  show "\<exists>x k' s'. check_entry h f k n s = Inr (x, k', s') \<and> held s' l \<and> True" by auto
qed simp

lemma holds_or_fail:
  assumes "holds_on t (\<lambda>x _. M x)" and "\<And>e. M' (Inl e)" and "\<And>x. M (Inr x) \<Longrightarrow> M' (Inr x)"
  shows "holds_on (or_fail debug what t) (\<lambda>x _. M' x)"
  unfolding or_fail_def
  by (rule holds_and_then [OF assms(1)]) (auto intro!: holds_ret assms simp: map_err_def split: sum.split)

lemma holds_open_bi: "holds_on (open_bi N h) (\<lambda>r _. pairs_of h r)"
proof -
  have "holds_on (open_stream N h Bi) (\<lambda>_ _. True)"
    unfolding open_stream_def
    by (rule holds_wait_entry) (auto simp: opened_stream_def same_peer_def split: option.splits prod.splits)
  then show ?thesis unfolding open_bi_def by (rule holds_try_then) (simp_all add: holds_ret)
qed

lemma holds_accept_bi: "holds_on (accept_bi h) (\<lambda>r _. pairs_of h r)"
proof -
  have "holds_on (accept_stream h Bi) (\<lambda>_ _. True)"
    unfolding accept_stream_def
    by (rule holds_wait_entry) (auto simp: accepted_stream_def same_peer_def split: option.splits list.splits dir.splits)
  then show ?thesis unfolding accept_bi_def by (rule holds_try_then) (simp_all add: holds_ret)
qed

lemma holds_wait_closed: "holds_on (wait_closed h) (\<lambda>_ _. True)"
  unfolding wait_closed_def by (rule holds_wait_entry) (auto simp: fully_closed_def same_peer_def)

lemma holds_recv_datagram: "holds_on (conn_recv_datagram N h) (\<lambda>_ _. True)"
  unfolding conn_recv_datagram_def
  by (rule holds_wait_entry) (auto simp: received_datagram_def same_peer_def split: option.splits prod.splits)

lemma holds_send_datagram: "holds_on (access_or_panic (\<lambda>_. conn_send_datagram N h data)) (\<lambda>_ _. True)"
  unfolding conn_send_datagram_def
  by (rule holds_with_entry) (auto simp: same_peer_def split: option.splits prod.splits)

lemma holds_conn_peer:
  assumes "\<And>s e p. map_of (st_conns s) h = Some e \<Longrightarrow> F e \<Longrightarrow> entry_ok e \<Longrightarrow> Q (case ce_peer e of Some p \<Rightarrow> p | None \<Rightarrow> []) s"
  shows "holds_on (access_or_panic (\<lambda>_. conn_peer h)) Q"
  unfolding holds_on_def
proof (rule triple_access_or_panic)
  fix n s l
  assume s: "held s l"
  then obtain e where e: "map_of (st_conns s) h = Some e" "F e" by (auto simp: held_def entry_has_def)
  moreover have "entry_ok e" using s e state_inv_entry by (auto simp: held_def)
  ultimately show "\<exists>x s'. conn_peer h s = Inr (x, s') \<and> held s' l \<and> Q x s'"
    using assms s by (simp add: conn_peer_def with_entry_def put_entry_id)
qed

lemma holds_max_datagram_size: "holds_on (access_or_panic (\<lambda>_. max_datagram_size N h)) (\<lambda>_ _. True)"
  unfolding max_datagram_size_def by (rule holds_with_entry) (auto simp: same_peer_def)

lemma holds_conn_close: "holds_on (access_or_panic (\<lambda>now. conn_close N h code reason now)) (\<lambda>_ _. True)"
  unfolding conn_close_def by (rule holds_with_entry) (auto simp: same_peer_def split: if_splits)

lemma holds_finish: "holds_on (access_or_panic (\<lambda>_. send_stream_finish N (fst (stream_pair h sid)))) (\<lambda>_ _. True)"
  unfolding send_stream_finish_def stream_pair_def fst_conv send_stream_res.simps
  by (rule holds_with_entry) (auto simp: same_peer_def split: option.splits prod.splits)

lemma holds_read: "holds_on (recv_stream_read N (snd (stream_pair h sid)) limit) (\<lambda>_ _. True)"
proof -
  have "holds_on (read_some N h sid n) (\<lambda>_ _. True)" for n
    unfolding read_some_def
    by (rule holds_wait_entry) (auto simp: read_entry_def same_peer_def split: option.splits prod.splits)
  then show ?thesis by (simp add: recv_stream_read_def stream_pair_def holds_ret)
qed

lemma holds_looping:
  assumes "\<And>k. holds_on (body k) (\<lambda>r s. \<forall>x. r = Inr x \<longrightarrow> Q x s)"
    and "\<And>k k' w w'. held (w_state w) (w_log w) \<Longrightarrow> body k w = (Done (Inl k'), w') \<Longrightarrow> ((k', w'), (k, w)) \<in> r"
    and "wf r"
  shows "holds_on (looping body k) Q"
proof -
  have "triple R (\<lambda>_ _. True) held (body k) (\<lambda>r s l. case r of Inl k' \<Rightarrow> held s l | Inr x \<Rightarrow> held s l \<and> Q x s)" for k
    by (rule triple_weaken [OF assms(1) [unfolded holds_on_def]]) (auto split: sum.split)
  then show ?thesis
    unfolding holds_on_def by (rule triple_looping [where I = "\<lambda>_. held", OF _ assms(2,3)])
qed

lemma holds_write:
  assumes "writes_bounded N"
  shows "holds_on (send_stream_write N (fst (stream_pair h sid)) data) (\<lambda>_ _. True)"
  unfolding send_stream_write_def write_all_def stream_pair_def fst_conv send_stream_res.simps
proof (rule holds_wait [where K = "\<lambda>offset. offset \<le> length data"])
  fix offset n s l
  assume s: "held s l" and "offset \<le> length data"
  obtain e where e: "map_of (st_conns s) h = Some e" using s by (auto simp: held_def entry_has_def)
  obtain r o' c' where "write_loop N sid data offset (ce_conn e) = Inr (r, o', c')" "o' \<le> length data"
    using write_loop_total [OF assms \<open>offset \<le> length data\<close>] by blast
  moreover have "held (put_entry h (e\<lparr>ce_conn := c'\<rparr>) s) l" for c'
    by (rule held_put [OF s e]) (simp add: same_peer_def)
  ultimately show "\<exists>x k' s'. check_write N h sid data offset n s = Inr (x, k', s') \<and> held s' l \<and> k' \<le> length data"
    using e s \<open>offset \<le> length data\<close> by (cases "ce_error e") (auto simp: check_write_def)
qed simp

lemma holds_last:
  "holds_on m M \<Longrightarrow> (\<And>x s. M x s \<Longrightarrow> Q (g x) s) \<Longrightarrow> holds_on (and_then m (\<lambda>x. ret (g x))) Q"
  unfolding holds_on_def by (erule triple_and_then) (auto intro: triple_ret)

lemma holds_read_to_end:
  assumes "reads_drain N rank"
  shows "holds_on (read_to_end N debug (snd (stream_pair h sid))) (\<lambda>_ _. True)"
  unfolding read_to_end_def
proof (rule holds_looping [where r = "inv_image (less_than <*lex*> less_than)
      (\<lambda>(k, w). (length (w_script w), conn_rank rank h (w_state w)))"])
  let ?body = "\<lambda>acc. ok_or_break (or_fail debug ''read'' (recv_stream_read N (snd (stream_pair h sid)) READ_MAX)) Inl
      (\<lambda>chunk. ret (case chunk of None \<Rightarrow> Inr (Inr acc) | Some bs \<Rightarrow> Inl (acc @ bs)))"
  show "holds_on (?body acc) (\<lambda>r s. \<forall>x. r = Inr x \<longrightarrow> True)" for acc
    unfolding ok_or_break_def
    by (rule holds_and_then [OF holds_or_fail [OF holds_read, where M' = "\<lambda>_. True"]])
       (auto intro!: holds_ret split: sum.split)
qed (auto dest: read_turn_goes_on [OF assms])

lemma holds_write_and_finish:
  assumes "writes_bounded N"
  shows "holds_on (write_and_finish N debug (fst (stream_pair h sid)) data) (\<lambda>_ _. True)"
  unfolding write_and_finish_def
  by (rule holds_try_then [OF holds_or_fail [OF holds_write [OF assms], where M' = "\<lambda>_. True"]])
     (auto intro!: holds_or_fail [OF holds_finish])

lemma holds_send_copies: "holds_on (ed_send_copies N debug h data n) (\<lambda>_ _. True)"
proof (induction n)
  case (Suc n)
  show ?case unfolding ed_send_copies.simps
    by (rule holds_try_then [OF holds_or_fail [OF holds_send_datagram, where M' = "\<lambda>_. True"]])
       (auto intro: Suc)
qed (simp add: holds_ret)

lemma holds_await_upgrade: "holds_on (await_upgrade N h) (\<lambda>_ _. True)"
  unfolding await_upgrade_def
proof (rule holds_looping [where r = "inv_image less_than (\<lambda>(k, w). length (w_script w))"])
  let ?sleep = "\<lambda>polls :: u32. and_then (await (\<lambda>_. ())) (\<lambda>_. ret (Inl (polls + 1)))
      :: ('n, 'c, u32 + unit sresult) api_task"
  let ?body = "\<lambda>polls :: u32. and_then (access (\<lambda>_ s. (conn_path N h s, s))) (\<lambda>path.
         if path = PathWebrtc then ret (Inr (Inr ()))
         else if UPGRADE_DEADLINE_POLLS < polls + 1 then ret (Inr (Inl ''webrtc upgrade did not complete''))
         else ?sleep polls) :: ('n, 'c, u32 + unit sresult) api_task"
  show "holds_on (?body polls) (\<lambda>r s. \<forall>x. r = Inr x \<longrightarrow> True)" for polls
    by (rule holds_and_then [OF holds_look]) (auto intro!: holds_ret holds_and_then [OF holds_await])
  show "((polls', w'), (polls, w)) \<in> inv_image less_than (\<lambda>(k, w). length (w_script w))"
    if "?body polls w = (Done (Inl polls'), w')" for polls polls' w w'
    using that by (auto simp: and_then_def access_def await_def ret_def split: if_splits list.splits)
qed auto

lemma holds_client_exchange:
  assumes "writes_bounded N" and "reads_drain N rank"
  shows "holds_on (client_exchange N debug data (stream_pair h sid)) (\<lambda>_ _. True)"
  unfolding client_exchange_def
  by (rule holds_and_then [OF holds_time_now], rule holds_try_then [OF holds_write_and_finish [OF assms(1)]], simp,
      rule holds_try_then [OF holds_read_to_end [OF assms(2)]], simp, rule holds_and_then [OF holds_time_now])
     (simp add: holds_ret)

lemma holds_server_exchange:
  assumes "writes_bounded N" and "reads_drain N rank"
  shows "holds_on (server_exchange N debug up (stream_pair h sid)) (\<lambda>_ _. True)"
  unfolding server_exchange_def
  by (rule holds_try_then [OF holds_read_to_end [OF assms(2)]], simp, simp only: Let_def split_beta,
      rule holds_try_then [OF holds_write_and_finish [OF assms(1)]]) (simp_all add: holds_ret)

lemma holds_client_datagram: "holds_on (run_client_datagram N debug h message) (\<lambda>_ _. True)"
proof -
  have leg: "holds_on (try_then (ed_send_copies N debug h data n) (\<lambda>_.
      try_then (or_fail debug ''recv-datagram'' (conn_recv_datagram N h)) (\<lambda>echoed. ret (f echoed)))) (\<lambda>_ _. True)"
    for data n and f :: "bytes \<Rightarrow> string sresult"
    by (rule holds_try_then [OF holds_send_copies], simp,
        rule holds_try_then [OF holds_or_fail [OF holds_recv_datagram, where M' = "\<lambda>_. True"]]) (auto intro: holds_ret)
  show ?thesis
    unfolding run_client_datagram_def Let_def
    by (rule holds_and_then [OF holds_max_datagram_size]) (auto intro!: holds_ret leg split: option.split)
qed

lemma holds_server_datagram: "holds_on (server_datagram N debug h) (\<lambda>_ _. True)"
  unfolding server_datagram_def
  by (rule holds_try_then [OF holds_or_fail [OF holds_recv_datagram, where M' = "\<lambda>_. True"]])
     (auto intro!: holds_ret holds_try_then [OF holds_send_copies])

lemma holds_when_asked: "holds_on t (\<lambda>_ _. True) \<Longrightarrow> holds_on (when_asked b t) (\<lambda>_ _. True)"
  unfolding when_asked_def by (auto intro!: holds_ret holds_try_then)

text \<open>The two halves keep the connection, and report the peer its entry names.\<close>

lemma holds_client_session:
  assumes "writes_bounded N" and "reads_drain N rank"
    and "\<And>e. F e \<Longrightarrow> entry_ok e \<Longrightarrow> ce_peer e = Some pid"
  shows "holds_on (client_session N debug H cfg h ms) (\<lambda>r _. \<forall>report. r = Inr report \<longrightarrow> dr_peer_id report = hex_encode H pid)"
    (is "holds_on _ ?Q")
proof -
  have up: "holds_on (if dc_webrtc cfg then await_upgrade N h else ret (Inr ())) (\<lambda>_ _. True)"
    by (simp add: holds_await_upgrade holds_ret)
  have peer: "holds_on (access_or_panic (\<lambda>_. conn_peer h)) (\<lambda>p _. p = pid)"
    by (rule holds_conn_peer) (simp add: assms(3))
  have rest: "holds_on (
      try_then (client_exchange N debug (client_payload cfg) (stream_pair h sid)) (\<lambda>(echoed, roundtrip_ms).
      try_then (when_asked (dc_datagram cfg) (run_client_datagram N debug h (dc_message cfg))) (\<lambda>datagram.
      and_then (access (\<lambda>_ s. (conn_path N h s, s))) (\<lambda>path.
      and_then (access_or_panic (\<lambda>now. conn_close N h 0 ''done'' now)) (\<lambda>_.
      and_then (wait_closed h) (\<lambda>_.
      and_then (access_or_panic (\<lambda>_. conn_peer h)) (\<lambda>peer.
        ret (Inr \<lparr>dr_endpoint_id = '''', dr_peer_id = hex_encode H peer, dr_path = path_name path,
                  dr_handshake_ms = ms, dr_roundtrip_ms = roundtrip_ms,
                  dr_received = client_received cfg echoed, dr_datagram = datagram\<rparr>)))))))) ?Q" for sid
    by (rule holds_try_then [OF holds_client_exchange [OF assms(1,2)]], simp, simp only: split_beta,
        rule holds_try_then [OF holds_when_asked [OF holds_client_datagram]], simp,
        rule holds_and_then [OF holds_look], rule holds_and_then [OF holds_conn_close],
        rule holds_and_then [OF holds_wait_closed], rule holds_last [OF peer]) simp
  show ?thesis
    unfolding client_session_def
    by (rule holds_try_then [OF up], simp,
        rule holds_try_then [OF holds_or_fail [OF holds_open_bi, where M' = "pairs_of h"]])
       (auto simp: pairs_of_def intro!: rest)
qed

lemma holds_server_session:
  assumes "writes_bounded N" and "reads_drain N rank" and "\<And>e. F e \<Longrightarrow> ce_connected e"
  shows "holds_on (server_session N debug H up cfg h) (\<lambda>r s. \<forall>report. r = Inr report \<longrightarrow>
     (\<exists>pid. dr_peer_id report = hex_encode H pid \<and> entry_has h (\<lambda>e. ce_peer e = Some pid) s))" (is "holds_on _ ?Q")
proof -
  have peer: "holds_on (access_or_panic (\<lambda>_. conn_peer h)) (\<lambda>p s. entry_has h (\<lambda>e. ce_peer e = Some p) s)"
    by (rule holds_conn_peer) (use assms(3) in \<open>auto simp: entry_ok_def entry_has_def\<close>)
  have rest: "holds_on (
      try_then (server_exchange N debug up (stream_pair h sid)) (\<lambda>received.
      try_then (when_asked (dc_datagram cfg) (server_datagram N debug h)) (\<lambda>datagram.
      and_then (access (\<lambda>_ s. (conn_path N h s, s))) (\<lambda>path.
      and_then (wait_closed h) (\<lambda>_.
      and_then (access_or_panic (\<lambda>_. conn_peer h)) (\<lambda>peer.
        ret (Inr \<lparr>dr_endpoint_id = '''', dr_peer_id = hex_encode H peer, dr_path = path_name path,
                  dr_handshake_ms = 0, dr_roundtrip_ms = 0, dr_received = received,
                  dr_datagram = datagram\<rparr>))))))) ?Q" for sid
    by (rule holds_try_then [OF holds_server_exchange [OF assms(1,2)]], simp,
        rule holds_try_then [OF holds_when_asked [OF holds_server_datagram]], simp,
        rule holds_and_then [OF holds_look], rule holds_and_then [OF holds_wait_closed],
        rule holds_last [OF peer]) auto
  show ?thesis
    unfolding server_session_def
    by (rule holds_try_then [OF holds_or_fail [OF holds_accept_bi, where M' = "pairs_of h"]])
       (auto simp: pairs_of_def intro!: rest)
qed

end

subsection \<open>The bytes of an exchange\<close>

text \<open>Reading leaves what was sent alone, and sending what was read.\<close>

definition streams_apart ::
  "('n, 'c, 'i, 'ce, 'ee, 'cfg, 'z) noq_streams_scheme \<Rightarrow> ('c \<Rightarrow> nat \<Rightarrow> bytes) \<Rightarrow> ('c \<Rightarrow> nat \<Rightarrow> bytes) \<Rightarrow> bool" where
  "streams_apart N sent got \<longleftrightarrow>
     (\<forall>ordered sid limit c r c'. nc_recv_read N ordered sid limit c = (r, c') \<longrightarrow> sent c' sid = sent c sid)
     \<and> (\<forall>sid bs c r c'. nc_send_write N sid bs c = (r, c') \<longrightarrow> got c' sid = got c sid)
     \<and> (\<forall>sid c r c'. nc_send_finish N sid c = (r, c') \<longrightarrow> got c' sid = got c sid)"

text \<open>The other tasks leave both directions of a stream alone; what both hold.\<close>

definition exchange_kept ::
  "('c \<Rightarrow> nat \<Rightarrow> bytes) \<Rightarrow> ('c \<Rightarrow> nat \<Rightarrow> bytes) \<Rightarrow> nat \<Rightarrow> nat \<Rightarrow> ('n, 'c) state \<Rightarrow> ('n, 'c) state \<Rightarrow> bool" where
  "exchange_kept sent got h sid s t \<longleftrightarrow> stream_kept sent h sid s t \<and> stream_kept got h sid s t"

definition exchanged ::
  "('c \<Rightarrow> nat \<Rightarrow> bytes) \<Rightarrow> ('c \<Rightarrow> nat \<Rightarrow> bytes) \<Rightarrow> nat \<Rightarrow> nat \<Rightarrow> bytes \<Rightarrow> bytes \<Rightarrow> ('n, 'c) state \<Rightarrow> bool" where
  "exchanged sent got h sid out got_in s \<longleftrightarrow>
     at_conn sent h sid s = Some out \<and> at_conn got h sid s = Some got_in"

lemma exchanged_kept: "exchanged sent got h sid a b s \<Longrightarrow> exchange_kept sent got h sid s t \<Longrightarrow> exchanged sent got h sid a b t"
  by (auto simp: exchanged_def exchange_kept_def intro: at_conn_kept)

lemma exchangedD:
  "exchanged sent got h sid a b s \<Longrightarrow>
     \<exists>e. map_of (st_conns s) h = Some e \<and> sent (ce_conn e) sid = a \<and> got (ce_conn e) sid = b"
  by (auto simp: exchanged_def at_conn_def)

lemma exchanged_put [simp]:
  "exchanged sent got h sid a b (put_entry h e s) \<longleftrightarrow> sent (ce_conn e) sid = a \<and> got (ce_conn e) sid = b"
  by (simp add: exchanged_def)

lemma read_entry_sent:
  "streams_apart N sent got \<Longrightarrow> read_entry N sid limit k e = (x, k', e') \<Longrightarrow> sent (ce_conn e') sid = sent (ce_conn e) sid"
  by (auto simp: streams_apart_def read_entry_def split: option.splits prod.splits)

lemma write_loop_got:
  assumes "streams_apart N sent got" and "write_loop N sid bs offset c = Inr (r, offset', c')"
  shows "got c' sid = got c sid"
  using assms(2)
proof (induction "Suc (length bs) - offset" arbitrary: offset c rule: less_induct)
  case less
  obtain x c1 where w: "nc_send_write N sid (drop offset bs) c = (x, c1)" by force
  have kept: "got c1 sid = got c sid" using assms(1) w unfolding streams_apart_def by blast
  have le: "offset \<le> length bs" using less.prems by (subst (asm) write_loop.simps) (auto split: if_splits)
  show ?case
  proof (cases "\<exists>n. x = Inr n \<and> offset + n \<noteq> length bs \<and> n \<noteq> 0")
    case True
    then obtain n where n: "x = Inr n" "offset + n \<noteq> length bs" "n \<noteq> 0" by blast
    then have "write_loop N sid bs (offset + n) c1 = Inr (r, offset', c')"
      using less.prems w le by (subst (asm) write_loop.simps) simp
    from less.hyps [OF _ this] n le kept show ?thesis by simp
  next
    case False
    then show ?thesis
      using less.prems w le kept
      by (subst (asm) write_loop.simps) (auto split: sum.splits if_splits write_error.splits)
  qed
qed

lemma triple_read:
  fixes N :: "('n, 'c, 'i, 'ce, 'ee, 'cfg, 'z) noq_streams_scheme"
  assumes "stream_reads N got" and "streams_apart N sent got"
  shows "triple (exchange_kept sent got h sid) (\<lambda>_ _. True) (\<lambda>s _. exchanged sent got h sid a b s)
     (recv_stream_read N (snd (stream_pair h sid)) limit)
     (\<lambda>r s _. exchanged sent got h sid a (b @ (case r of Inr (Some bs) \<Rightarrow> bs | _ \<Rightarrow> [])) s)"
proof -
  have "triple (exchange_kept sent got h sid) (\<lambda>_ _. True) (\<lambda>s _. exchanged sent got h sid a b s)
     (read_some N h sid n) (\<lambda>r s _. exchanged sent got h sid a (b @ (case r of Inr (Some bs) \<Rightarrow> bs | _ \<Rightarrow> [])) s)" for n
    unfolding read_some_def
  proof (rule triple_wait_until [where I = "\<lambda>_ s _. exchanged sent got h sid a b s"])
    fix k :: unit and now and s :: "('n, 'c) state"
    assume "exchanged sent got h sid a b s"
    then obtain e where e: "map_of (st_conns s) h = Some e" "sent (ce_conn e) sid = a" "got (ce_conn e) sid = b"
      using exchangedD by blast
    obtain x k' e' where x: "read_entry N sid n k e = (x, k', e')" by (metis prod_cases3)
    have "check_entry h (read_entry N sid n) k now s = Inr (x, k', put_entry h e' s)"
      by (rule check_entry_Inr [where f = "read_entry N sid n", OF e(1) x])
    with read_entry_got [OF assms(1) x] read_entry_sent [OF assms(2) x] e
    show "(\<exists>x k' s'. check_entry h (read_entry N sid n) k now s = Inr (Some x, k', s')
          \<and> exchanged sent got h sid a (b @ (case x of Inr (Some bs) \<Rightarrow> bs | _ \<Rightarrow> [])) s')
        \<or> (\<exists>k' s'. check_entry h (read_entry N sid n) k now s = Inr (None, k', s') \<and> exchanged sent got h sid a b s')"
      by (cases x) auto
  qed (auto intro: exchanged_kept)
  then show ?thesis by (auto simp: recv_stream_read_def stream_pair_def intro!: triple_ret)
qed

lemma triple_read_to_end:
  fixes N :: "('n, 'c, 'i, 'ce, 'ee, 'cfg, 'z) noq_streams_scheme"
  assumes "stream_reads N got" and "streams_apart N sent got" and "reads_drain N rank"
  shows "triple (exchange_kept sent got h sid) (\<lambda>_ _. True) (\<lambda>s _. exchanged sent got h sid a b s)
     (read_to_end N debug (snd (stream_pair h sid)))
     (\<lambda>r s _. \<forall>data. r = Inr data \<longrightarrow> exchanged sent got h sid a (b @ data) s)"
proof -
  let ?R = "exchange_kept sent got h sid" and ?T = "\<lambda>_ _. True"
  let ?body = "\<lambda>acc. ok_or_break (or_fail debug ''read'' (recv_stream_read N (snd (stream_pair h sid)) READ_MAX)) Inl
      (\<lambda>chunk. ret (case chunk of None \<Rightarrow> Inr (Inr acc) | Some bs \<Rightarrow> Inl (acc @ bs)))"
  have read: "triple ?R ?T (\<lambda>s _. exchanged sent got h sid a (b @ acc) s)
      (or_fail debug ''read'' (recv_stream_read N (snd (stream_pair h sid)) READ_MAX))
      (\<lambda>r s _. \<forall>chunk. r = Inr chunk \<longrightarrow> exchanged sent got h sid a (b @ acc @ (case chunk of Some bs \<Rightarrow> bs | None \<Rightarrow> [])) s)"
    for acc
    unfolding or_fail_def
    by (rule triple_and_then [OF triple_read [OF assms(1,2)]])
       (auto intro!: triple_ret simp: map_err_def split: sum.splits option.splits)
  have "triple ?R ?T (\<lambda>s _. exchanged sent got h sid a (b @ acc) s) (looping ?body acc)
     (\<lambda>r s _. \<forall>data. r = Inr data \<longrightarrow> exchanged sent got h sid a (b @ data) s)" for acc
  proof (rule triple_looping [where r = "inv_image (less_than <*lex*> less_than)
        (\<lambda>(k, w). (length (w_script w), conn_rank rank h (w_state w)))"])
    show "triple ?R ?T (\<lambda>s _. exchanged sent got h sid a (b @ acc) s) (?body acc)
        (\<lambda>r s l. case r of Inl acc' \<Rightarrow> exchanged sent got h sid a (b @ acc') s
           | Inr x \<Rightarrow> \<forall>data. x = Inr data \<longrightarrow> exchanged sent got h sid a (b @ data) s)" for acc
      by (rule triple_ok_or_break [OF read]) (auto intro!: triple_ret split: option.split)
  qed (auto dest: read_turn_goes_on [OF assms(3)])
  from this [of "[]"] show ?thesis unfolding read_to_end_def by simp
qed

lemma triple_write:
  fixes N :: "('n, 'c, 'i, 'ce, 'ee, 'cfg, 'z) noq_streams_scheme"
  assumes "stream_sends N sent" and "streams_apart N sent got"
  shows "triple (exchange_kept sent got h sid) (\<lambda>_ _. True) (\<lambda>s _. exchanged sent got h sid a b s)
     (send_stream_write N (fst (stream_pair h sid)) data)
     (\<lambda>r s _. r = Inr () \<longrightarrow> exchanged sent got h sid (a @ data) b s)"
  unfolding send_stream_write_def write_all_def stream_pair_def fst_conv send_stream_res.simps
proof (rule triple_wait_until [where I = "\<lambda>offset s _. offset \<le> length data \<and> exchanged sent got h sid (a @ take offset data) b s"])
  fix offset n and s :: "('n, 'c) state"
  assume s: "offset \<le> length data \<and> exchanged sent got h sid (a @ take offset data) b s"
  then obtain e where e: "map_of (st_conns s) h = Some e" "sent (ce_conn e) sid = a @ take offset data"
    "got (ce_conn e) sid = b"
    using exchangedD by blast
  obtain r o' c' where w: "write_loop N sid data offset (ce_conn e) = Inr (r, o', c')" "o' \<le> length data"
    "sent c' sid = a @ take o' data" "r = Some (Inr ()) \<longrightarrow> o' = length data"
    using write_loop_sends [OF assms(1)] s e(2) by blast
  show "(\<exists>x k' s'. check_write N h sid data offset n s = Inr (Some x, k', s')
        \<and> (x = Inr () \<longrightarrow> exchanged sent got h sid (a @ data) b s'))
      \<or> (\<exists>k' s'. check_write N h sid data offset n s = Inr (None, k', s')
        \<and> k' \<le> length data \<and> exchanged sent got h sid (a @ take k' data) b s')"
  proof (cases "ce_error e")
    case None
    then have "check_write N h sid data offset n s = Inr (r, o', put_entry h (e\<lparr>ce_conn := c'\<rparr>) s)"
      using e(1) w(1) by (simp add: check_write_def)
    with w e write_loop_got [OF assms(2) w(1)] show ?thesis by (cases r) auto
  qed (use e(1) s in \<open>auto simp: check_write_def\<close>)
qed (auto intro: exchanged_kept)

lemma triple_write_and_finish:
  fixes N :: "('n, 'c, 'i, 'ce, 'ee, 'cfg, 'z) noq_streams_scheme"
  assumes "stream_sends N sent" and "streams_apart N sent got"
  shows "triple (exchange_kept sent got h sid) (\<lambda>_ _. True) (\<lambda>s _. exchanged sent got h sid a b s)
     (write_and_finish N debug (fst (stream_pair h sid)) data)
     (\<lambda>r s _. r = Inr () \<longrightarrow> exchanged sent got h sid (a @ data) b s)"
proof -
  let ?R = "exchange_kept sent got h sid" and ?T = "\<lambda>_ _. True" and ?both = "exchanged sent got h sid (a @ data) b"
  have wr: "triple ?R ?T (\<lambda>s _. exchanged sent got h sid a b s)
      (or_fail debug ''write'' (send_stream_write N (fst (stream_pair h sid)) data)) (\<lambda>r s _. r = Inr () \<longrightarrow> ?both s)"
    unfolding or_fail_def
    by (rule triple_and_then [OF triple_write [OF assms]]) (auto intro!: triple_ret simp: map_err_def split: sum.split)
  have "triple ?R ?T (\<lambda>s _. ?both s) (access_or_panic (\<lambda>_. send_stream_finish N (fst (stream_pair h sid))))
      (\<lambda>_ s _. ?both s)"
  proof (rule triple_access_or_panic)
    fix n and s :: "('n, 'c) state"
    assume s: "?both s"
    then obtain e where e: "map_of (st_conns s) h = Some e" "sent (ce_conn e) sid = a @ data" "got (ce_conn e) sid = b"
      using exchangedD by blast
    obtain r c where f: "nc_send_finish N sid (ce_conn e) = (r, c)" by force
    have "sent c sid = a @ data" "got c sid = b"
      using assms f e unfolding stream_sends_def streams_apart_def by metis+
    with e s f show "\<exists>x s'. send_stream_finish N (fst (stream_pair h sid)) s = Inr (x, s') \<and> ?both s'"
      by (cases "ce_error e") (simp_all add: send_stream_finish_def stream_pair_def with_entry_def)
  qed
  then have fin: "triple ?R ?T (\<lambda>s _. ?both s)
      (or_fail debug ''finish'' (access_or_panic (\<lambda>_. send_stream_finish N (fst (stream_pair h sid)))))
      (\<lambda>r s _. r = Inr () \<longrightarrow> ?both s)"
    unfolding or_fail_def by (rule triple_and_then) (auto intro!: triple_ret)
  show ?thesis
    unfolding write_and_finish_def
    by (rule triple_try_then [OF wr]) (auto intro!: fin)
qed

lemma triple_server_exchange:
  fixes N :: "('n, 'c, 'i, 'ce, 'ee, 'cfg, 'z) noq_streams_scheme"
  assumes "stream_sends N sent" and "stream_reads N got" and "streams_apart N sent got" and "reads_drain N rank"
  shows "triple (exchange_kept sent got h sid) (\<lambda>_ _. True) (\<lambda>s _. exchanged sent got h sid [] [] s)
     (server_exchange N debug up (stream_pair h sid))
     (\<lambda>r s _. \<forall>received. r = Inr received \<longrightarrow>
        (\<exists>data. exchanged sent got h sid (fst (server_echo up data)) data s \<and> received = snd (server_echo up data)))"
  unfolding server_exchange_def
proof (rule triple_try_then [OF triple_read_to_end [OF assms(2-4)]], simp)
  fix data
  have "triple (exchange_kept sent got h sid) (\<lambda>_ _. True) (\<lambda>s _. exchanged sent got h sid [] data s)
      (try_then (write_and_finish N debug (fst (stream_pair h sid)) (fst (server_echo up data)))
         (\<lambda>_. ret (Inr (snd (server_echo up data)))))
      (\<lambda>r s _. \<forall>received. r = Inr received \<longrightarrow>
        (\<exists>data. exchanged sent got h sid (fst (server_echo up data)) data s \<and> received = snd (server_echo up data)))"
    by (rule triple_try_then [OF triple_write_and_finish [OF assms(1,3)]]) (auto intro!: triple_ret)
  then show "triple (exchange_kept sent got h sid) (\<lambda>_ _. True)
      (\<lambda>s _. \<forall>data'. Inr data = Inr data' \<longrightarrow> exchanged sent got h sid [] ([] @ data') s)
      (let (echo, received) = server_echo up data
       in try_then (write_and_finish N debug (fst (stream_pair h sid)) echo) (\<lambda>_. ret (Inr received)))
      (\<lambda>r s _. \<forall>received. r = Inr received \<longrightarrow>
        (\<exists>data. exchanged sent got h sid (fst (server_echo up data)) data s \<and> received = snd (server_echo up data)))"
    by (simp add: split_beta Let_def)
qed

lemma triple_client_exchange:
  fixes N :: "('n, 'c, 'i, 'ce, 'ee, 'cfg, 'z) noq_streams_scheme"
  assumes "stream_sends N sent" and "stream_reads N got" and "streams_apart N sent got" and "reads_drain N rank"
  shows "triple (exchange_kept sent got h sid) (\<lambda>_ _. True) (\<lambda>s _. exchanged sent got h sid [] [] s)
     (client_exchange N debug data (stream_pair h sid))
     (\<lambda>r s _. \<forall>echoed ms. r = Inr (echoed, ms) \<longrightarrow> exchanged sent got h sid data echoed s \<and> length echoed = length data)"
proof -
  let ?R = "exchange_kept sent got h sid" and ?T = "\<lambda>_ _. True"
  let ?Q = "\<lambda>r s (_ :: api_effect list). \<forall>echoed ms. r = Inr (echoed, ms) \<longrightarrow>
      exchanged sent got h sid data echoed s \<and> length echoed = length data"
  have wr: "triple ?R ?T (\<lambda>s _. exchanged sent got h sid [] [] s) (write_and_finish N debug (fst (stream_pair h sid)) data)
      (\<lambda>r s _. r = Inr () \<longrightarrow> exchanged sent got h sid data [] s)"
    using triple_write_and_finish [OF assms(1,3), where a = "[]" and b = "[]"] by simp
  have rd: "triple ?R ?T (\<lambda>s _. exchanged sent got h sid data [] s) (read_to_end N debug (snd (stream_pair h sid)))
      (\<lambda>r s _. \<forall>echoed. r = Inr echoed \<longrightarrow> exchanged sent got h sid data echoed s)"
    using triple_read_to_end [OF assms(2-4), where a = data and b = "[]"] by simp
  have last: "triple ?R ?T (\<lambda>s _. exchanged sent got h sid data echoed s)
      (and_then time_now (\<lambda>now. ret (if length echoed \<noteq> length data then Inl err else Inr (echoed, ms now))))
      ?Q" for echoed err and ms :: "nat \<Rightarrow> u64"
    by (rule triple_and_then [where M = "\<lambda>_ s _. exchanged sent got h sid data echoed s"])
       (auto intro: triple_time_now triple_ret)
  have rest: "triple ?R ?T (\<lambda>s _. exchanged sent got h sid data [] s)
      (try_then (read_to_end N debug (snd (stream_pair h sid))) (\<lambda>echoed.
         and_then time_now (\<lambda>now. ret (if length echoed \<noteq> length data then Inl (err echoed) else Inr (echoed, ms now)))))
      ?Q" for err and ms :: "nat \<Rightarrow> u64"
    by (rule triple_try_then [OF rd], simp, rule triple_weaken [OF last], auto)
  show ?thesis
    unfolding client_exchange_def
  proof (rule triple_and_then [where M = "\<lambda>_ s _. exchanged sent got h sid [] [] s"])
    fix sent_at
    show "triple ?R ?T (\<lambda>s _. exchanged sent got h sid [] [] s)
        (try_then (write_and_finish N debug (fst (stream_pair h sid)) data) (\<lambda>_.
         try_then (read_to_end N debug (snd (stream_pair h sid))) (\<lambda>echoed.
         and_then time_now (\<lambda>now.
           ret (if length echoed \<noteq> length data
                then Inl (''echo length mismatch: sent '' @ dec_string (length data) @ '', got '' @ dec_string (length echoed))
                else Inr (echoed, millis (now - sent_at))))))) ?Q"
      by (rule triple_try_then [OF wr], simp, rule triple_weaken [OF rest], auto)
  qed (simp add: triple_time_now)
qed

text \<open>
  The client insists on an echo as long as its message, but the uppercase form of a message need not be:
  a server that echoes such a message, delivered in full, fails the client.
\<close>

lemma resized_echo_rejected:
  fixes N :: "('n, 'c, 'i, 'ce, 'ee, 'cfg, 'z) noq_streams_scheme"
  assumes "stream_sends N sent" and "stream_reads N got" and "streams_apart N sent got" and "reads_drain N rank"
    and "exchanged sent got h sid [] [] (w_state w)" and "env_respects (exchange_kept sent got h sid) w"
    and "client_exchange N debug data (stream_pair h sid) w = (r, w')"
    and "at_conn got h sid (w_state w') = Some (fst (server_echo to_uppercase data))"
    and "length (fst (server_echo to_uppercase data)) \<noteq> length data"
  shows "r \<noteq> Done (Inr x)"
  using tripleD(1) [OF triple_client_exchange [OF assms(1-4)] assms(6,5,7), of "Inr x"] assms(8,9)
  by (cases x) (auto simp: exchanged_def)

text \<open>A bulk size beyond 32 bits is cut down before the payload is made.\<close>

lemma bulk_payload_truncated: "dc_payload_bytes cfg = Some (2 ^ 32) \<Longrightarrow> client_payload cfg = []"
  by (simp add: client_payload_def)

subsection \<open>Beside the pump\<close>

text \<open>
  What the other tasks keep while the application runs: the contract of \<open>connect\<close>, connected entries
  stay connected, and what is queued for acceptance is authenticated.
\<close>

definition app_kept :: "('n, 'c) state \<Rightarrow> ('n, 'c) state \<Rightarrow> bool" where
  "app_kept s t \<longleftrightarrow> api_kept s t \<and> (\<forall>h. entry_has h ce_connected s \<longrightarrow> entry_has h ce_connected t)
     \<and> (queue_authentic s \<longrightarrow> queue_authentic t)"

interpretation app_env: rely_guarantee app_kept
  by unfold_locales (auto simp: app_kept_def intro: api.rely_refl api.rely_trans)

text \<open>A drain, which is all the pump does to connections, satisfies it.\<close>

interpretation stays_connected: latched "conn_step N now" "entry_has h ce_connected" for N now h
  by unfold_locales (rule entry_has_step, assumption+, auto simp: mark_drained_def dest: on_event_effect(5))

lemma drain_app_kept:
  assumes "drain N now s = Some (Inr t)"
  shows "app_kept s t"
  using drain_api_kept [OF assms] drain_queue_authentic [OF _ assms] drain_steps [OF assms]
  by (auto simp: app_kept_def intro: stays_connected.latch_forever)

text \<open>A connected entry bound to one of the given peers.\<close>

definition bound_to :: "endpoint_id option set \<Rightarrow> 'c conn_entry \<Rightarrow> bool" where
  "bound_to X e \<longleftrightarrow> ce_connected e \<and> ce_expected_peer e \<in> X"

interpretation app_conn: held_connection app_kept h "bound_to X" for h X
proof
  fix s t :: "('n, 'c) state"
  assume R: "app_kept s t" and "state_inv s" and F: "entry_has h (bound_to X) s"
  then obtain e where e: "map_of (st_conns s) h = Some e" "ce_connected e" "ce_expected_peer e \<in> X"
    by (auto simp: entry_has_def bound_to_def)
  have "entry_has h ce_connected t" using R e by (auto simp: app_kept_def entry_has_def)
  moreover have "entry_has h (\<lambda>e'. ce_expected_peer e' = ce_expected_peer e) t"
    using R e(1) by (auto simp: app_kept_def api_kept_def)
  ultimately have "entry_has h (bound_to X) t"
    using e(3) by (auto simp: entry_has_def bound_to_def)
  moreover have "state_inv t" using R \<open>state_inv s\<close> by (simp add: app_kept_def api_kept_def)
  ultimately show "state_inv t \<and> entry_has h (bound_to X) t" by simp
qed (simp add: same_peer_def bound_to_def)

lemma in_order_connect [simp]:
  fixes N :: "('n, 'c, 'i, 'ce, 'ee, 'cfg, 'z) noq_api_scheme"
  shows "in_order (connect N D er addr alpn)"
proof -
  have relay: "in_order (ensure_relay url :: ('n, 'c, u32 result) api_task)" for url
    unfolding ensure_relay_def by (rule in_order_and_then) (auto split: relay_claim.split)
  have keys: "in_order (dial_key_task p :: ('n, 'c, u32 result) api_task)"
    "in_order (upgrade_key_task p :: ('n, 'c, u32 option result) api_task)" for p
    unfolding dial_key_task_def upgrade_key_task_def by (auto simp: relay split: option.split)
  show ?thesis
    unfolding connect_def Let_def
    by (intro in_order_cases in_order_and_then in_order_try_then keys in_order_basic in_order_wait_until)
qed

text \<open>What a run reports: the dialed peer on the client, the authenticated one on the server.\<close>

definition reports_peer ::
  "('h) hex_codec_scheme \<Rightarrow> ed_config \<Rightarrow> ed_report sresult \<Rightarrow> ('n, 'c) state \<Rightarrow> bool" where
  "reports_peer H cfg r s \<longleftrightarrow>
     (\<forall>report. r = Inr report \<longrightarrow>
        (\<exists>h pid. dr_peer_id report = hex_encode H pid \<and> entry_has h (\<lambda>e. ce_peer e = Some pid) s
           \<and> (dc_role cfg = EdClient \<longrightarrow>
                length pid = 32 \<and> (\<exists>text. dc_peer cfg = Some text \<and> hex_decode H text = Inr pid))))"

lemma reports_peer_error [simp]: "reports_peer H cfg (Inl e) s"
  by (simp add: reports_peer_def)

lemma triple_run_server:
  fixes N :: "('n, 'c, 'i, 'ce, 'ee, 'cfg, 'z) noq_streams_scheme"
  assumes "writes_bounded N" and "reads_drain N rank" and "dc_role cfg = EdServer"
  shows "triple app_kept (\<lambda>_ _. True) (\<lambda>s _. state_inv s \<and> queue_authentic s) (run_server N debug H up cfg)
     (\<lambda>r s _. reports_peer H cfg r s)"
proof -
  have "triple app_kept (\<lambda>s _. state_inv s) (\<lambda>s _. state_inv s \<and> queue_authentic s)
      (accept :: ('n, 'c, nat result) api_task)
      (\<lambda>x s _. state_inv s \<and> (\<forall>h. x = Inr h \<longrightarrow> entry_has h (\<lambda>e. ce_connected e \<and> ce_accepted_side e) s))"
    by (rule triple_accept) (auto simp: app_kept_def api_kept_def)
  then have "triple app_kept (\<lambda>_ _. True) (\<lambda>s _. state_inv s \<and> queue_authentic s)
      (accept :: ('n, 'c, nat result) api_task) (\<lambda>r s _. \<forall>h. r = Inr h \<longrightarrow> app_conn.held h UNIV s [])"
    by (rule triple_weaken) (auto simp: app_conn.held_def entry_has_def bound_to_def)
  then have accepted: "triple app_kept (\<lambda>_ _. True) (\<lambda>s _. state_inv s \<and> queue_authentic s)
      (or_fail debug ''accept'' (accept :: ('n, 'c, nat result) api_task))
      (\<lambda>r s _. \<forall>h. r = Inr h \<longrightarrow> app_conn.held h UNIV s [])"
    unfolding or_fail_def by (rule triple_and_then) (auto intro!: triple_ret simp: map_err_def split: sum.split)
  have session: "triple app_kept (\<lambda>_ _. True) (\<lambda>s _. app_conn.held h UNIV s [])
      (server_session N debug H up cfg h) (\<lambda>r s _. reports_peer H cfg r s)" for h
    by (rule triple_weaken [OF app_conn.holds_server_session [OF assms(1,2), unfolded app_conn.holds_on_def]])
       (auto simp: app_conn.held_def reports_peer_def bound_to_def assms(3))
  show ?thesis
    unfolding run_server_def
    by (rule triple_try_then [OF accepted]) (auto intro: session)
qed

lemma held_bound: "app_conn.held h {Some p} s l \<Longrightarrow> entry_has h (\<lambda>e. ce_peer e = Some p) s"
  by (auto simp: app_conn.held_def bound_to_def entry_has_def entry_ok_def dest: state_inv_entry)

lemma triple_run_client:
  fixes N :: "('n, 'c, 'i, 'ce, 'ee, 'cfg, 'z) noq_streams_scheme"
  assumes "writes_bounded N" and "reads_drain N rank"
  shows "triple app_kept (\<lambda>_ _. True) (\<lambda>s _. state_inv s) (run_client N D debug H cfg er)
     (\<lambda>r s _. reports_peer H cfg r s)"
proof -
  have run: "triple app_kept (\<lambda>_ _. True) (\<lambda>s _. state_inv s)
      (and_then time_now (\<lambda>started.
       try_then (or_fail debug ''connect'' (connect N D er (client_target cfg peer) alpn)) (\<lambda>conn.
       and_then time_now (\<lambda>now.
         client_session N debug H cfg conn (millis (now - started))))))
      (\<lambda>r s _. reports_peer H cfg r s)"
    if peer: "dc_peer cfg = Some hex" "hex_decode H hex = Inr peer" for hex peer alpn
  proof -
    let ?held = "\<lambda>h s. app_conn.held h {Some peer} s [] \<and> length peer = 32"
    have "triple app_kept (\<lambda>_ _. True) (\<lambda>s _. state_inv s) (connect N D er (client_target cfg peer) alpn)
        (\<lambda>r s _. \<forall>h. r = Inr h \<longrightarrow> ?held h s)"
      by (rule triple_weaken [OF triple_rely [OF triple_connect in_order_connect]])
         (auto simp: app_kept_def dialed_def app_conn.held_def client_target_def Let_def bound_to_def entry_has_def)
    then have dialed: "triple app_kept (\<lambda>_ _. True) (\<lambda>s _. state_inv s)
        (or_fail debug ''connect'' (connect N D er (client_target cfg peer) alpn))
        (\<lambda>r s _. \<forall>h. r = Inr h \<longrightarrow> ?held h s)"
      unfolding or_fail_def by (rule triple_and_then) (auto intro!: triple_ret simp: map_err_def split: sum.split)
    have "triple app_kept (\<lambda>_ _. True) (\<lambda>s l. length peer = 32 \<and> app_conn.held h {Some peer} s l)
        (client_session N debug H cfg h ms) (\<lambda>r s _. reports_peer H cfg r s)" for h ms
      by (rule triple_pure, rule triple_weaken [OF app_conn.holds_client_session [where X = "{Some peer}" and pid = peer, OF assms, unfolded app_conn.holds_on_def]])
         (use peer in \<open>auto simp: reports_peer_def bound_to_def entry_ok_def dest!: held_bound\<close>)
    then have session: "triple app_kept (\<lambda>_ _. True) (\<lambda>s _. ?held h s)
        (client_session N debug H cfg h ms) (\<lambda>r s _. reports_peer H cfg r s)" for h ms
      by (rule triple_weaken) (auto simp: app_conn.held_def)
    show ?thesis
      by (rule triple_and_then [OF triple_time_now [where Q = "\<lambda>_ s _. state_inv s"]], simp,
          rule triple_try_then [OF dialed], simp, simp,
          rule triple_and_then [OF triple_time_now [where Q = "\<lambda>_ s _. ?held _ s"] session], simp)
  qed
  show ?thesis
    unfolding run_client_def Let_def
    by (auto intro!: triple_ret run split: option.split sum.split)
qed

lemma entry_has_map_entries:
  "entry_has h P s \<Longrightarrow> (\<And>e. P e \<Longrightarrow> P (f e)) \<Longrightarrow> entry_has h P (map_entries f s)"
  by (auto simp: entry_has_def map_entries_def map_of_map [unfolded comp_def])

lemma endpoint_close_entry:
  "entry_has h (\<lambda>e. ce_peer e = x) s \<Longrightarrow> entry_has h (\<lambda>e. ce_peer e = x) (endpoint_close N now s)"
  by (auto simp: endpoint_close_def close_endpoint_def close_all_def intro!: entry_has_map_entries, simp add: entry_has_def)

lemma triple_ed_session:
  fixes N :: "('n, 'c, 'i, 'ce, 'ee, 'cfg, 'z) noq_streams_scheme"
  assumes "writes_bounded N" and "reads_drain N rank"
  shows "triple app_kept (\<lambda>_ _. True) (\<lambda>s _. state_inv s \<and> queue_authentic s) (ed_session N D debug H up cfg er)
     (\<lambda>r s _. reports_peer H cfg r s
        \<and> (\<forall>report. r = Inr report \<longrightarrow> dr_endpoint_id report = hex_encode H (endpoint_res_id er)))"
proof -
  have half: "triple app_kept (\<lambda>_ _. True) (\<lambda>s _. state_inv s \<and> queue_authentic s)
      (case dc_role cfg of EdClient \<Rightarrow> run_client N D debug H cfg er | EdServer \<Rightarrow> run_server N debug H up cfg)
      (\<lambda>r s _. reports_peer H cfg r s)"
    by (cases "dc_role cfg")
       (auto intro!: triple_run_server [OF assms] triple_weaken [OF triple_run_client [OF assms]])
  have close: "triple app_kept (\<lambda>_ _. True) (\<lambda>s _. reports_peer H cfg (Inr report) s)
      (access (\<lambda>now s. ((), endpoint_close N now s)) :: ('n, 'c, unit) api_task)
      (\<lambda>_ s _. reports_peer H cfg (Inr report) s)" for report
    by (rule triple_access) (auto simp: reports_peer_def dest: endpoint_close_entry)
  show ?thesis
    unfolding ed_session_def
    by (rule triple_try_then [OF half], simp, rule triple_and_then [OF close], rule triple_ret)
       (auto simp: reports_peer_def)
qed

lemma bind_queue:
  assumes "Endpoint_Api.bind B opts = Returned (Inr (er, s, l))"
  shows "state_inv s \<and> queue_authentic s \<and> endpoint_res_id er = endpoint_id (os_identity opts)"
proof -
  obtain url relay noq udp where "er = \<lparr>er_identity = os_identity opts, er_udp = udp\<rparr>"
    and s: "s = snd (register_relay url relay (state_new noq (os_webrtc opts)))"
    using assms by (auto simp: bind_def split: option.splits if_splits async.splits sum.splits)
  moreover have "state_inv s" unfolding s by (rule state_inv_new)
  ultimately show ?thesis
    by (simp add: register_relay_def state_new_def Let_def queue_authentic_def endpoint_res_id_def)
qed

lemma demo_options_id: "endpoint_id (os_identity (demo_options cfg i)) = identity_res_endpoint_id i"
  by (simp add: demo_options_def options_new_def add_alpn_def set_relay_url_def set_udp_bind_addr_def set_webrtc_def
      identity_res_endpoint_id_def split: option.split)

text \<open>A run ends before it has an endpoint, or is the session on the bound one.\<close>

lemma ed_run_cases:
  fixes N :: "('n, 'c, 'i, 'ce, 'ee, 'cfg, 'z) noq_streams_scheme"
  assumes "ed_run N D B K debug H to_text to_uppercase cfg now script = (r, printed, s')"
  obtains (unbound) "r = Waiting \<or> (\<exists>e. r = Done (Inl e))"
  | (bound) i er l w' and s :: "('n, 'c) state" where "demo_identity K debug (dc_inject_identity cfg) = Inr i"
      "Endpoint_Api.bind B (demo_options cfg i) = Returned (Inr (er, s, l))" "s' = Some (w_state w')"
      "ed_session N D debug H to_uppercase cfg er \<lparr>w_now = now, w_state = s, w_script = script, w_log = []\<rparr> = (r, w')"
  using assms by (auto simp: ed_run_def split: sum.splits async.splits prod.splits if_splits)

lemma ed_run_authenticated:
  fixes N :: "('n, 'c, 'i, 'ce, 'ee, 'cfg, 'z) noq_streams_scheme"
  assumes "writes_bounded N" and "reads_drain N rank"
    and "\<forall>(a, dt, others)\<in>set script. \<forall>s. app_kept s (others s)"
    and "ed_run N D B K debug H to_text to_uppercase cfg now script = (r, printed, s')"
  shows "(\<forall>p. r \<noteq> Panicked p) \<and> r \<noteq> Diverged
     \<and> (\<forall>i er l. \<forall>s :: ('n, 'c) state. Endpoint_Api.bind B (demo_options cfg i) = Returned (Inr (er, s, l))
          \<longrightarrow> endpoint_res_id er = identity_res_endpoint_id i)
     \<and> (\<forall>report. r = Done (Inr report) \<longrightarrow>
          (\<exists>i pid s h. demo_identity K debug (dc_inject_identity cfg) = Inr i
             \<and> dr_endpoint_id report = hex_encode H (identity_res_endpoint_id i)
             \<and> dr_peer_id report = hex_encode H pid \<and> s' = Some s \<and> entry_has h (\<lambda>e. ce_peer e = Some pid) s
             \<and> (dc_role cfg = EdClient \<longrightarrow>
                  length pid = 32 \<and> (\<exists>text. dc_peer cfg = Some text \<and> hex_decode H text = Inr pid))))"
    (is "_ \<and> _ \<and> ?adopts \<and> ?reports")
proof -
  have adopts: ?adopts using bind_queue demo_options_id by metis
  have "(\<forall>p. r \<noteq> Panicked p) \<and> r \<noteq> Diverged \<and> ?reports"
    using assms(4)
  proof (cases rule: ed_run_cases)
    case unbound
    then show ?thesis by auto
  next
    case (bound i er l w' s)
    have env: "env_respects app_kept \<lparr>w_now = now, w_state = s, w_script = script, w_log = []\<rparr>"
      using assms(3) by (simp add: env_respects_def)
    note T = tripleD [OF triple_ed_session [OF assms(1,2)] env _ bound(4)]
    have ?reports
    proof (intro allI impI)
      fix report
      assume "r = Done (Inr report)"
      from T(1) [OF _ this] bound adopts bind_queue [OF bound(2)]
      show "\<exists>i pid s h. demo_identity K debug (dc_inject_identity cfg) = Inr i
             \<and> dr_endpoint_id report = hex_encode H (identity_res_endpoint_id i)
             \<and> dr_peer_id report = hex_encode H pid \<and> s' = Some s \<and> entry_has h (\<lambda>e. ce_peer e = Some pid) s
             \<and> (dc_role cfg = EdClient \<longrightarrow>
                  length pid = 32 \<and> (\<exists>text. dc_peer cfg = Some text \<and> hex_decode H text = Inr pid))"
        unfolding reports_peer_def by simp metis
    qed
    with T(4,5) bind_queue [OF bound(2)] show ?thesis by simp
  qed
  then show ?thesis using adopts by (elim conjE) (intro conjI; assumption)
qed

section \<open>Properties\<close>

text \<open>C27. The demo application, on top of the whole endpoint, never panics and never spins, whatever
  the network, the relays and the clock do and whichever role it plays; binding always adopts the identity
  it was given. A run that reports success names its own identity, and as its peer the key the
  connection authenticated, which on the client is the 32-byte endpoint identifier it was asked to dial.\<close>

theorem demo_authenticated:
  fixes N :: "('n, 'c, 'i, 'ce, 'ee, 'cfg, 'z) noq_streams_scheme"
  assumes "writes_bounded N" and "reads_drain N rank"
    and "\<forall>(a, dt, others)\<in>set script. \<forall>s. app_kept s (others s)"
    and "ed_run N D B K debug H to_text to_uppercase cfg now script = (r, printed, s')"
  shows "(\<forall>p. r \<noteq> Panicked p) \<and> r \<noteq> Diverged
     \<and> (\<forall>i er l. \<forall>s :: ('n, 'c) state. Endpoint_Api.bind B (demo_options cfg i) = Returned (Inr (er, s, l))
          \<longrightarrow> endpoint_res_id er = identity_res_endpoint_id i)
     \<and> (\<forall>report. r = Done (Inr report) \<longrightarrow>
          (\<exists>i pid s h. demo_identity K debug (dc_inject_identity cfg) = Inr i
             \<and> dr_endpoint_id report = hex_encode H (identity_res_endpoint_id i)
             \<and> dr_peer_id report = hex_encode H pid \<and> s' = Some s \<and> entry_has h (\<lambda>e. ce_peer e = Some pid) s
             \<and> (dc_role cfg = EdClient \<longrightarrow>
                  length pid = 32 \<and> (\<exists>text. dc_peer cfg = Some text \<and> hex_decode H text = Inr pid))))"
  using assms by (rule ed_run_authenticated)

text \<open>C28. The echo end to end: when a client and a server of the demo exchange a message on a fresh stream
  and both succeed, and the transport delivered to each side exactly what the other sent, then the client
  reads back the echo of its payload, the uppercase form of a small message or a bulk one verbatim, of the
  payload's own length, and the server reports that message. Neither side panics or spins, and no byte
  is lost or repeated however flow control cuts the transfer up.\<close>

theorem demo_echo_end_to_end:
  fixes N :: "('n, 'c, 'i, 'ce, 'ee, 'cfg, 'z) noq_streams_scheme"
  assumes "stream_sends N sent" and "stream_reads N got" and "streams_apart N sent got" and "reads_drain N rank"
    and "exchanged sent got hc sc [] [] (w_state wc)" and "exchanged sent got hs ss [] [] (w_state ws)"
    and "env_respects (exchange_kept sent got hc sc) wc" and "env_respects (exchange_kept sent got hs ss) ws"
    and "client_exchange N debug data (stream_pair hc sc) wc = (rc, wc')"
    and "server_exchange N debug to_uppercase (stream_pair hs ss) ws = (rs, ws')"
  shows "(rc = Waiting \<or> (\<exists>x. rc = Done x)) \<and> (rs = Waiting \<or> (\<exists>x. rs = Done x))
     \<and> (\<forall>echoed ms received. rc = Done (Inr (echoed, ms)) \<and> rs = Done (Inr received)
          \<and> at_conn got hs ss (w_state ws') = at_conn sent hc sc (w_state wc')
          \<and> at_conn got hc sc (w_state wc') = at_conn sent hs ss (w_state ws') \<longrightarrow>
          echoed = fst (server_echo to_uppercase data) \<and> received = snd (server_echo to_uppercase data)
          \<and> length echoed = length data)"
proof -
  note C = tripleD [OF triple_client_exchange [OF assms(1-4)] assms(7,5,9)]
    and S = tripleD [OF triple_server_exchange [OF assms(1-4)] assms(8,6,10)]
  have "echoed = fst (server_echo to_uppercase data) \<and> received = snd (server_echo to_uppercase data)
      \<and> length echoed = length data"
    if both: "rc = Done (Inr (echoed, ms))" "rs = Done (Inr received)"
      "at_conn got hs ss (w_state ws') = at_conn sent hc sc (w_state wc')"
      "at_conn got hc sc (w_state wc') = at_conn sent hs ss (w_state ws')" for echoed ms received
    using C(1) [OF both(1)] S(1) [OF both(2)] both(3,4) by (auto simp: exchanged_def)
  moreover have "rc = Waiting \<or> (\<exists>x. rc = Done x)" using C(4,5) by (cases rc) auto
  moreover have "rs = Waiting \<or> (\<exists>x. rs = Done x)" using S(4,5) by (cases rs) auto
  ultimately show ?thesis by blast
qed

section \<open>Witnesses\<close>

text \<open>
  Streams with two directions: the key field holds what was sent, and the queued transmits are the chunks
  to read, of which the stream counter says how many were.
\<close>

definition demo_noq :: "(nat, toy_conn, bytes, event, nat, bytes) noq_streams" where
  "demo_noq = toy_streams\<lparr>nc_streams_open := (\<lambda>d c. (Some 7, c)),
     nc_recv_read := (\<lambda>ordered sid limit c.
       if tc_streams c < length (tc_transmits c)
       then (Inr (Inr (Some (snd (tc_transmits c ! tc_streams c)))), c\<lparr>tc_streams := tc_streams c + 1\<rparr>)
       else (Inr (Inr None), c))\<rparr>"

definition demo_sent :: "toy_conn \<Rightarrow> nat \<Rightarrow> bytes" where
  "demo_sent c sid = tc_key c"

definition demo_got :: "toy_conn \<Rightarrow> nat \<Rightarrow> bytes" where
  "demo_got c sid = concat (map snd (take (tc_streams c) (tc_transmits c)))"

definition demo_rank :: "toy_conn \<Rightarrow> nat" where
  "demo_rank c = length (tc_transmits c) - tc_streams c"

lemma demo_noq_simps [simp]:
  "nc_send_write demo_noq sid bs c = (Inr (min 2 (length bs)), c\<lparr>tc_key := tc_key c @ take 2 bs\<rparr>)"
  "nc_send_finish demo_noq sid c = (Inr (), c)"
  "nc_streams_open demo_noq d c = (Some 7, c)"
  "nc_recv_read demo_noq ordered sid limit c =
     (if tc_streams c < length (tc_transmits c)
      then (Inr (Inr (Some (snd (tc_transmits c ! tc_streams c)))), c\<lparr>tc_streams := tc_streams c + 1\<rparr>)
      else (Inr (Inr None), c))"
  by (simp_all add: demo_noq_def)

lemma demo_noq_streams:
  "stream_sends demo_noq demo_sent" "stream_reads demo_noq demo_got" "streams_apart demo_noq demo_sent demo_got"
  "reads_drain demo_noq demo_rank"
  by (auto simp: stream_sends_def stream_reads_def streams_apart_def reads_drain_def demo_sent_def demo_got_def
      demo_rank_def min_def take_Suc_conv_app_nth split: if_splits)

definition demo_keys :: ed_keys where
  "demo_keys = \<lparr>ek_generate_key = (\<lambda>_. Inr (sample_signing, sample_verifying)), ek_spki = ed25519_spki\<rparr>"

definition demo_hex :: hex_codec where
  "demo_hex = \<lparr>hex_encode = map byte_char, hex_decode = (\<lambda>s. Inr (string_bytes s))\<rparr>"

definition demo_cfg :: ed_config where
  "demo_cfg =
     \<lparr>dc_relay_url = ''http://relay'', dc_role = EdClient, dc_peer = Some (replicate 32 (CHR 0x09)), dc_alpn = None,
      dc_udp_bind = None, dc_direct = None, dc_webrtc = False, dc_peer_relay = None, dc_payload_bytes = None,
      dc_datagram = False, dc_inject_identity = True, dc_message = ''''\<rparr>"

text \<open>The others: the handshake completes, and later every connection drains.\<close>

definition demo_drained :: "(nat, toy_conn) state \<Rightarrow> (nat, toy_conn) state" where
  "demo_drained = map_entries (\<lambda>e. e\<lparr>ce_drained := True\<rparr>)"

definition demo_script :: "(api_answer \<times> nat \<times> ((nat, toy_conn) state \<Rightarrow> (nat, toy_conn) state)) list" where
  "demo_script =
     [(\<lparr>aa_relay = Inr 5, aa_stream_read = (True, []), aa_stream_remaining = []\<rparr>, 1, toy_handshake),
      (\<lparr>aa_relay = Inr 5, aa_stream_read = (True, []), aa_stream_remaining = []\<rparr>, 1, demo_drained)]"

lemma demo_adopts: "demo_identity demo_keys debug True = Inr \<lparr>inner = sample_identity\<rparr>"
  using from_keys_sample by (simp add: demo_identity_def demo_keys_def map_err_def)

lemma demo_binds:
  "\<exists>l. Endpoint_Api.bind toy_bind_deps (demo_options demo_cfg \<lparr>inner = sample_identity\<rparr>)
     = Returned (Inr (toy_endpoint, snd (register_relay ''http://relay'' 7 (state_new 0 False :: (nat, toy_conn) state)), l))"
  by (simp add: bind_def demo_options_def demo_cfg_def toy_bind_deps_def options_new_def add_alpn_def set_relay_url_def
      set_webrtc_def bind_noq_def server_config_def rpk_identity_def map_err_def bind_udp_def toy_endpoint_def)

definition demo_start :: "((nat, toy_conn) state, api_answer, api_effect) world" where
  "demo_start = \<lparr>w_now = 0, w_state = snd (register_relay ''http://relay'' 7 (state_new 0 False)),
     w_script = demo_script, w_log = []\<rparr>"

lemma demo_target: "client_target demo_cfg peer = \<lparr>ea_endpoint_id = peer, ea_addrs = [TRelay ''http://relay'']\<rparr>"
  by (simp add: client_target_def demo_cfg_def Let_def)

lemma demo_relay_known: "ensure_relay ''http://relay'' demo_start = (Done (Inr 0), demo_start)"
  by (rule ensure_relay_known) (simp add: demo_start_def register_relay_def state_new_def Let_def)

lemma demo_connects:
  "\<exists>w1 e. connect demo_noq toy_deps toy_endpoint (client_target demo_cfg (replicate 32 9)) alpn demo_start
       = (Done (Inr 0), w1)
     \<and> w_script w1 = tl demo_script \<and> map_of (st_conns (w_state w1)) 0 = Some e
     \<and> ce_error e = None \<and> ce_peer e = Some (replicate 32 9) \<and> tc_transmits (ce_conn e) = [] \<and> \<not> ce_drained e"
  unfolding demo_target
  by (simp add: connect_def toy_deps_def toy_endpoint_def try_into_array_def and_then_def [of "access _"] access_def
      choose_path_def choose_entry_def dial_key_task_def upgrade_key_task_def try_then_def and_then_def [of "ensure_relay _"]
      demo_relay_known)
     (simp add: and_then_def ret_def client_quic_def client_config_def rpk_identity_def map_err_def access_def
      start_connection_def dial_target_def addr_for_peer_def Let_def demo_start_def register_relay_def state_new_def
      demo_noq_def toy_streams_def toy_api_def noq.defs noq_api.defs noq_streams.defs demo_script_def
      try_then_def wait_until.simps check_entry_def with_entry_def connected_or_error_def conn_entry_new_def
      toy_handshake_def on_connected_def tls_peer_def endpoint_id_from_spki_def toy_start_def put_entry_def update_conv')

lemma demo_session_runs:
  assumes "w_script w = tl demo_script" and "map_of (st_conns (w_state w)) 0 = Some e" and "ce_error e = None"
    and "ce_peer e = Some (replicate 32 9)" and "tc_transmits (ce_conn e) = []" and "\<not> ce_drained e"
  shows "\<exists>report w'. client_session demo_noq debug demo_hex demo_cfg 0 ms w = (Done (Inr report), w')"
  using assms
  by (simp add: client_session_def demo_cfg_def try_then_def and_then_def ret_def or_fail_def open_bi_def open_stream_def
      wait_until.simps check_entry_def with_entry_def opened_stream_def map_err_def stream_pair_def client_exchange_def
      time_now_def write_and_finish_def send_stream_write_def write_all_def check_write_def client_payload_def
      write_loop.simps string_bytes_def access_or_panic_def send_stream_finish_def read_to_end_def looping_def
      loop_opt.simps loop_turn_def ok_or_break_def recv_stream_read_def READ_MAX_def read_some_def read_entry_def
      when_asked_def access_def conn_close_def wait_closed_def fully_closed_def demo_script_def demo_drained_def
      map_entries_def map_of_map [unfolded comp_def] conn_peer_def)

lemma demo_runs:
  "\<exists>report printed s'. ed_run demo_noq toy_deps toy_bind_deps demo_keys debug demo_hex to_text id demo_cfg 0 demo_script
     = (Done (Inr report), printed, s')"
proof -
  obtain l where bound: "Endpoint_Api.bind toy_bind_deps (demo_options demo_cfg \<lparr>inner = sample_identity\<rparr>)
     = Returned (Inr (toy_endpoint, w_state demo_start, l))"
    using demo_binds by (auto simp: demo_start_def)
  obtain w1 where dialed: "connect demo_noq toy_deps toy_endpoint (client_target demo_cfg (replicate 32 9)) DEMO_ALPN
       demo_start = (Done (Inr 0), w1)"
    and session: "\<And>ms. \<exists>report w'. client_session demo_noq debug demo_hex demo_cfg 0 ms w1 = (Done (Inr report), w')"
    using demo_connects demo_session_runs by meson
  have "string_bytes (replicate 32 (CHR 0x09)) = replicate 32 9" by (simp add: string_bytes_def char_byte_def)
  then have "\<exists>report w'. run_client demo_noq toy_deps debug demo_hex demo_cfg toy_endpoint demo_start = (Done (Inr report), w')"
    using dialed session [of "millis (w_now w1 - w_now demo_start)"]
    by (simp add: run_client_def demo_cfg_def demo_hex_def [THEN arg_cong, of hex_decode] and_then_def time_now_def try_then_def or_fail_def
        map_err_def ret_def Let_def)
  then obtain report w' where "run_client demo_noq toy_deps debug demo_hex demo_cfg toy_endpoint demo_start = (Done (Inr report), w')"
    by blast
  then have "\<exists>report w'. ed_session demo_noq toy_deps debug demo_hex id demo_cfg toy_endpoint demo_start = (Done (Inr report), w')"
    by (simp add: ed_session_def try_then_def and_then_def access_def ret_def demo_cfg_def [THEN arg_cong, of dc_role])
  moreover have "demo_start = \<lparr>w_now = 0, w_state = w_state demo_start, w_script = demo_script, w_log = []\<rparr>"
    by (simp add: demo_start_def)
  ultimately show ?thesis
    using bound demo_adopts by (auto simp: ed_run_def demo_cfg_def [THEN arg_cong, of dc_inject_identity]
        endpoint_res_id_def identity_res_endpoint_id_def toy_endpoint_def split: prod.split)
qed

lemma toy_handshake_app_kept: "app_kept s (toy_handshake s)"
proof (cases "map_of (st_conns s) 0")
  case (Some e)
  obtain e' q where ev: "on_connected toy_noq 0 0 e [] = (e', q)" by force
  then have "on_event toy_noq 0 0 Connected e [] = Some (e', q)" by (simp add: on_event_def)
  note eff = on_event_effect [OF this]
  have keeps: "entry_has h P (put_entry 0 e' s)" if "entry_has h P s" "P e \<Longrightarrow> P e'" for h P
    using that Some by (cases "h = 0") (auto simp: entry_has_def put_entry_other)
  have same: "toy_handshake s = put_entry 0 e' s" using Some ev by (simp add: toy_handshake_def)
  show ?thesis
    unfolding app_kept_def
  proof (intro conjI allI impI)
    show "api_kept s (toy_handshake s)" by (rule toy_handshake_kept)
    show "entry_has h ce_connected (toy_handshake s)" if "entry_has h ce_connected s" for h
      unfolding same by (rule keeps [OF that]) (use eff in simp)
    show "queue_authentic (toy_handshake s)" if "queue_authentic s"
      using that eff unfolding same queue_authentic_def by (auto simp: put_entry_def [of 0 e' s, THEN arg_cong, of st_accept_queue] intro!: keeps)
  qed
qed (simp add: toy_handshake_def app_env.rely_refl)

lemma demo_drained_app_kept: "app_kept s (demo_drained s)"
  unfolding app_kept_def demo_drained_def
  by (auto intro!: api_keptI binds_kept_map_entries state_inv_map_entries entry_has_map_entries
      simp: entry_ok_def queue_authentic_def map_entries_def [THEN arg_cong, of st_accept_queue])

theorem demo_authenticated_witness:
  "\<exists>report printed s' pid. ed_run demo_noq toy_deps toy_bind_deps demo_keys (\<lambda>_. []) demo_hex (\<lambda>_. []) id demo_cfg 0 demo_script
       = (Done (Inr report), printed, s')
     \<and> dr_peer_id report = map byte_char pid \<and> length pid = 32
     \<and> dr_endpoint_id report = map byte_char (replicate 32 1)"
proof -
  obtain report printed s' where run: "ed_run demo_noq toy_deps toy_bind_deps demo_keys (\<lambda>_. []) demo_hex (\<lambda>_. []) id
      demo_cfg 0 demo_script = (Done (Inr report), printed, s')"
    using demo_runs by blast
  have env: "\<forall>(a, dt, others)\<in>set demo_script. \<forall>s. app_kept s (others s)"
    by (simp add: demo_script_def toy_handshake_app_kept demo_drained_app_kept)
  from demo_authenticated [OF writes_bounded_sends [OF demo_noq_streams(1)] demo_noq_streams(4) env run] run show ?thesis
    using demo_adopts [of "\<lambda>_. []"]
    by (auto simp: demo_cfg_def demo_hex_def identity_res_endpoint_id_def sample_identity_def)
qed

text \<open>One world per side of an exchange: what is there to read, and a stream nothing was sent on.\<close>

definition demo_side :: "bytes \<Rightarrow> ((nat, toy_conn) state, api_answer, api_effect) world" where
  "demo_side data =
     \<lparr>w_now = 0,
      w_state = (state_new 0 False)\<lparr>st_conns := [(0, conn_entry_new ((toy_start [])\<lparr>tc_transmits := [(V4 (1, 1, 1, 1) 1, data)]\<rparr>) None False)]\<rparr>,
      w_script = [], w_log = []\<rparr>"

lemmas demo_exchange_defs = try_then_def and_then_def ret_def or_fail_def map_err_def time_now_def stream_pair_def
  write_and_finish_def send_stream_write_def write_all_def check_write_def write_loop.simps access_or_panic_def
  send_stream_finish_def with_entry_def read_to_end_def looping_def loop_opt.simps loop_turn_def ok_or_break_def
  recv_stream_read_def READ_MAX_def read_some_def read_entry_def wait_until.simps check_entry_def

lemma demo_client_side:
  "\<exists>ms w'. client_exchange demo_noq debug [104] (stream_pair 0 7) (demo_side [72]) = (Done (Inr ([72], ms)), w')
     \<and> at_conn demo_sent 0 7 (w_state w') = Some [104] \<and> at_conn demo_got 0 7 (w_state w') = Some [72]"
  by (simp add: client_exchange_def demo_exchange_defs demo_side_def conn_entry_new_def toy_start_def state_new_def
      put_entry_def at_conn_def demo_sent_def demo_got_def)

lemma demo_server_side:
  "\<exists>received w'. server_exchange demo_noq debug (\<lambda>_. ''H'') (stream_pair 0 7) (demo_side [104]) = (Done (Inr received), w')
     \<and> at_conn demo_sent 0 7 (w_state w') = Some [72] \<and> at_conn demo_got 0 7 (w_state w') = Some [104]"
  by (simp add: server_exchange_def server_echo_def SUMMARY_LIMIT_def demo_exchange_defs demo_side_def conn_entry_new_def
      toy_start_def state_new_def put_entry_def at_conn_def demo_sent_def demo_got_def Let_def string_bytes_def char_byte_def)

theorem demo_echo_end_to_end_witness:
  "\<exists>echoed ms wc' received ws'.
     client_exchange demo_noq (\<lambda>_. []) [104] (stream_pair 0 7) (demo_side [72]) = (Done (Inr (echoed, ms)), wc')
     \<and> server_exchange demo_noq (\<lambda>_. []) (\<lambda>_. ''H'') (stream_pair 0 7) (demo_side [104]) = (Done (Inr received), ws')
     \<and> echoed = fst (server_echo (\<lambda>_. ''H'') [104]) \<and> received = snd (server_echo (\<lambda>_. ''H'') [104])"
proof -
  obtain ms wc' where c: "client_exchange demo_noq (\<lambda>_. []) [104] (stream_pair 0 7) (demo_side [72]) = (Done (Inr ([72], ms)), wc')"
    "at_conn demo_sent 0 7 (w_state wc') = Some [104]" "at_conn demo_got 0 7 (w_state wc') = Some [72]"
    using demo_client_side by meson
  obtain received ws' where s: "server_exchange demo_noq (\<lambda>_. []) (\<lambda>_. ''H'') (stream_pair 0 7) (demo_side [104]) = (Done (Inr received), ws')"
    "at_conn demo_sent 0 7 (w_state ws') = Some [72]" "at_conn demo_got 0 7 (w_state ws') = Some [104]"
    using demo_server_side by meson
  have fresh: "exchanged demo_sent demo_got 0 7 [] [] (w_state (demo_side data))"
    and env: "env_respects R (demo_side data)" for data R
    by (simp_all add: exchanged_def at_conn_def demo_side_def conn_entry_new_def toy_start_def demo_sent_def demo_got_def
        env_respects_def)
  from demo_echo_end_to_end [OF demo_noq_streams fresh fresh env env c(1) s(1)] c s show ?thesis by auto
qed

end
