(* ===== verification/Cli.thy ===== *)
theory Cli
  imports Spike_Demo Demo
begin

text \<open>
  Model of the native drivers \<open>host-wasmtime/src/main.rs\<close> and \<open>host-wasmtime/src/bin/endpoint-demo.rs\<close>
  as far as they are the program's own: their command lines, the configuration they hand to the component,
  and what they print or fail with. Setting up the runtime and instantiating the component is
  third-party code and an argument; the component itself is the model of its guest. The lemmas show that
  every set of options has a command line that parses to it, and carry the guests' theorems to the drivers.
\<close>

section \<open>Definitions\<close>

subsection \<open>Flags\<close>

text \<open>A match arm of the flag loop: it takes the next argument as its value, which it may refuse, or none.\<close>

datatype 'o flag = Takes "string \<Rightarrow> 'o \<Rightarrow> 'o option" | Switch "'o \<Rightarrow> 'o"

fun parse_flags :: "(string \<Rightarrow> 'o flag option) \<Rightarrow> string \<Rightarrow> string list \<Rightarrow> 'o \<Rightarrow> 'o sresult" where
  "parse_flags arms usage [] opts = Inr opts"
| "parse_flags arms usage (name # args) opts =
     (case arms name of
        None \<Rightarrow> Inl usage
      | Some (Switch upd) \<Rightarrow> parse_flags arms usage args (upd opts)
      | Some (Takes upd) \<Rightarrow>
          (case args of
             [] \<Rightarrow> Inl usage
           | v # rest \<Rightarrow>
               (case upd v opts of
                  None \<Rightarrow> Inl usage
                | Some opts' \<Rightarrow> parse_flags arms usage rest opts')))"

text \<open>\<open>str::parse::<u64>\<close>: decimal digits after an optional plus sign, refused on overflow.\<close>

fun parse_digits :: "nat \<Rightarrow> string \<Rightarrow> nat option" where
  "parse_digits acc [] = Some acc"
| "parse_digits acc (c # cs) =
     (let d = of_char c :: nat
      in if 48 \<le> d \<and> d \<le> 57 \<and> acc * 10 + (d - 48) < 2 ^ 64 then parse_digits (acc * 10 + (d - 48)) cs else None)"

definition parse_u64 :: "string \<Rightarrow> u64 option" where
  "parse_u64 s =
     (case s of
        [] \<Rightarrow> None
      | c # cs \<Rightarrow>
          map_option of_nat
            (if c = CHR ''+'' then (if cs = [] then None else parse_digits 0 cs) else parse_digits 0 s))"

subsection \<open>The spike's driver\<close>

record spike_cli =
  sc_component :: string
  sc_role :: demo_role
  sc_server :: string
  sc_peer :: "string option"
  sc_transport :: demo_transport
  sc_message :: string

record spike_flags =
  sf_role :: "demo_role option"
  sf_server :: "string option"
  sf_peer :: "string option"
  sf_transport :: demo_transport
  sf_message :: string

definition SPIKE_USAGE :: string where
  "SPIKE_USAGE =
     ''usage: iroh-spike-host <component.wasm> --role <client|server> ''
     @ ''--server <relay-url> [--peer <endpoint-id-hex>] ''
     @ ''[--transport <webrtc|relay>] [--message M]''"

definition spike_flag :: "string \<Rightarrow> spike_flags flag option" where
  "spike_flag name =
     (if name = ''--role'' then Some (Takes (\<lambda>v f.
         if v = ''client'' then Some (f\<lparr>sf_role := Some DemoClient\<rparr>)
         else if v = ''server'' then Some (f\<lparr>sf_role := Some DemoServer\<rparr>) else None))
      else if name = ''--server'' then Some (Takes (\<lambda>v f. Some (f\<lparr>sf_server := Some v\<rparr>)))
      else if name = ''--peer'' then Some (Takes (\<lambda>v f. Some (f\<lparr>sf_peer := Some v\<rparr>)))
      else if name = ''--transport'' then Some (Takes (\<lambda>v f.
         if v = ''webrtc'' then Some (f\<lparr>sf_transport := TransportWebrtc\<rparr>)
         else if v = ''relay'' then Some (f\<lparr>sf_transport := TransportRelay\<rparr>) else None))
      else if name = ''--message'' then Some (Takes (\<lambda>v f. Some (f\<lparr>sf_message := v\<rparr>)))
      else None)"

definition spike_defaults :: spike_flags where
  "spike_defaults =
     \<lparr>sf_role = None, sf_server = None, sf_peer = None, sf_transport = TransportWebrtc,
      sf_message = ''hello over QUIC over a data channel''\<rparr>"

text \<open>The arguments are those after the program's name.\<close>

definition spike_parse_args :: "string list \<Rightarrow> spike_cli sresult" where
  "spike_parse_args args =
     (case args of
        [] \<Rightarrow> Inl SPIKE_USAGE
      | component # rest \<Rightarrow>
          (case parse_flags spike_flag SPIKE_USAGE rest spike_defaults of
             Inl e \<Rightarrow> Inl e
           | Inr f \<Rightarrow>
               (case (sf_role f, sf_server f) of
                  (Some role, Some server) \<Rightarrow>
                    Inr \<lparr>sc_component = component, sc_role = role, sc_server = server, sc_peer = sf_peer f,
                         sc_transport = sf_transport f, sc_message = sf_message f\<rparr>
                | _ \<Rightarrow> Inl SPIKE_USAGE)))"

definition spike_config :: "spike_cli \<Rightarrow> run_config" where
  "spike_config cli =
     \<lparr>rc_server = sc_server cli, rc_role = sc_role cli, rc_transport = sc_transport cli, rc_peer = sc_peer cli,
      rc_message = sc_message cli\<rparr>"

definition spike_lines :: "demo_role \<Rightarrow> run_report \<Rightarrow> string list" where
  "spike_lines role report =
     (let name = (case role of DemoClient \<Rightarrow> ''client'' | DemoServer \<Rightarrow> ''server'')
      in [''iroh-spike ('' @ name @ ''): endpoint='' @ rr_endpoint_id report @ '' peer='' @ rr_peer_id report
            @ '' handshake_ms='' @ dec_string (unat (rr_handshake_ms report))
            @ '' roundtrip_ms='' @ dec_string (unat (rr_roundtrip_ms report))
            @ '' received='' @ debug_string (rr_received report),
          ''OK: '' @ name @ '' finished.''])"

text \<open>\<open>setup\<close> is the runtime set-up for a component file, \<open>run\<close> the component's export.\<close>

definition spike_main ::
  "(string \<Rightarrow> unit sresult) \<Rightarrow> (run_config \<Rightarrow> run_report sresult spike_task) \<Rightarrow> string list
     \<Rightarrow> string list sresult spike_task" where
  "spike_main setup run args =
     (case spike_parse_args args of
        Inl e \<Rightarrow> ret (Inl e)
      | Inr cli \<Rightarrow>
          (case setup (sc_component cli) of
             Inl e \<Rightarrow> ret (Inl e)
           | Inr _ \<Rightarrow>
               and_then (run (spike_config cli)) (\<lambda>r.
                 ret (case r of
                        Inr report \<Rightarrow> Inr (spike_lines (sc_role cli) report)
                      | Inl err \<Rightarrow> Inl (''iroh-spike returned error: '' @ err)))))"

subsection \<open>The endpoint demo's driver\<close>

record demo_cli =
  ec_component :: string
  ec_config :: ed_config

record demo_flags =
  df_role :: "ed_role option"
  df_relay :: "string option"
  df_peer :: "string option"
  df_alpn :: "string option"
  df_udp_bind :: "string option"
  df_direct :: "string option"
  df_webrtc :: bool
  df_peer_relay :: "string option"
  df_payload_bytes :: "u64 option"
  df_datagram :: bool
  df_inject_identity :: bool
  df_message :: string

definition DEMO_USAGE :: string where
  "DEMO_USAGE =
     ''usage: endpoint-demo <composed.wasm> --role <client|server> ''
     @ ''--relay <relay-url> [--peer <endpoint-id-hex>] [--alpn A] ''
     @ ''[--udp-bind <ip:port>] [--direct <ip:port>] [--webrtc] ''
     @ ''[--peer-relay <relay-url>] [--payload-bytes N] [--datagram] ''
     @ ''[--inject-identity] [--message M]''"

definition demo_flag :: "string \<Rightarrow> demo_flags flag option" where
  "demo_flag name =
     (if name = ''--role'' then Some (Takes (\<lambda>v f.
         if v = ''client'' then Some (f\<lparr>df_role := Some EdClient\<rparr>)
         else if v = ''server'' then Some (f\<lparr>df_role := Some EdServer\<rparr>) else None))
      else if name = ''--relay'' then Some (Takes (\<lambda>v f. Some (f\<lparr>df_relay := Some v\<rparr>)))
      else if name = ''--peer'' then Some (Takes (\<lambda>v f. Some (f\<lparr>df_peer := Some v\<rparr>)))
      else if name = ''--alpn'' then Some (Takes (\<lambda>v f. Some (f\<lparr>df_alpn := Some v\<rparr>)))
      else if name = ''--udp-bind'' then Some (Takes (\<lambda>v f. Some (f\<lparr>df_udp_bind := Some v\<rparr>)))
      else if name = ''--direct'' then Some (Takes (\<lambda>v f. Some (f\<lparr>df_direct := Some v\<rparr>)))
      else if name = ''--webrtc'' then Some (Switch (\<lambda>f. f\<lparr>df_webrtc := True\<rparr>))
      else if name = ''--peer-relay'' then Some (Takes (\<lambda>v f. Some (f\<lparr>df_peer_relay := Some v\<rparr>)))
      else if name = ''--payload-bytes'' then Some (Takes (\<lambda>v f.
         map_option (\<lambda>n. f\<lparr>df_payload_bytes := Some n\<rparr>) (parse_u64 v)))
      else if name = ''--datagram'' then Some (Switch (\<lambda>f. f\<lparr>df_datagram := True\<rparr>))
      else if name = ''--inject-identity'' then Some (Switch (\<lambda>f. f\<lparr>df_inject_identity := True\<rparr>))
      else if name = ''--message'' then Some (Takes (\<lambda>v f. Some (f\<lparr>df_message := v\<rparr>)))
      else None)"

definition demo_defaults :: demo_flags where
  "demo_defaults =
     \<lparr>df_role = None, df_relay = None, df_peer = None, df_alpn = None, df_udp_bind = None, df_direct = None,
      df_webrtc = False, df_peer_relay = None, df_payload_bytes = None, df_datagram = False,
      df_inject_identity = False, df_message = ''hello through the endpoint surface''\<rparr>"

definition demo_parse_args :: "string list \<Rightarrow> demo_cli sresult" where
  "demo_parse_args args =
     (case args of
        [] \<Rightarrow> Inl DEMO_USAGE
      | component # rest \<Rightarrow>
          (case parse_flags demo_flag DEMO_USAGE rest demo_defaults of
             Inl e \<Rightarrow> Inl e
           | Inr f \<Rightarrow>
               (case (df_role f, df_relay f) of
                  (Some role, Some relay) \<Rightarrow>
                    Inr \<lparr>ec_component = component,
                         ec_config = \<lparr>dc_relay_url = relay, dc_role = role, dc_peer = df_peer f, dc_alpn = df_alpn f,
                           dc_udp_bind = df_udp_bind f, dc_direct = df_direct f, dc_webrtc = df_webrtc f,
                           dc_peer_relay = df_peer_relay f, dc_payload_bytes = df_payload_bytes f,
                           dc_datagram = df_datagram f, dc_inject_identity = df_inject_identity f,
                           dc_message = df_message f\<rparr>\<rparr>
                | _ \<Rightarrow> Inl DEMO_USAGE)))"

text \<open>\<open>{:?}\<close> of an optional string.\<close>

definition debug_option :: "string option \<Rightarrow> string" where
  "debug_option x = (case x of None \<Rightarrow> ''None'' | Some s \<Rightarrow> ''Some('' @ debug_string s @ '')'')"

definition demo_lines :: "ed_role \<Rightarrow> ed_report \<Rightarrow> string list" where
  "demo_lines role report =
     (let name = (case role of EdClient \<Rightarrow> ''client'' | EdServer \<Rightarrow> ''server'')
      in [''iroh-demo ('' @ name @ ''): endpoint='' @ dr_endpoint_id report @ '' peer='' @ dr_peer_id report
            @ '' path='' @ dr_path report
            @ '' handshake_ms='' @ dec_string (unat (dr_handshake_ms report))
            @ '' roundtrip_ms='' @ dec_string (unat (dr_roundtrip_ms report))
            @ '' received='' @ debug_string (dr_received report)
            @ '' datagram='' @ debug_option (dr_datagram report),
          ''OK: '' @ name @ '' finished.''])"

text \<open>The driver's own outcome; the component prints its announcements before.\<close>

definition demo_main ::
  "(string \<Rightarrow> unit sresult) \<Rightarrow> (ed_config \<Rightarrow> ed_report sresult outcome \<times> string list \<times> 's option) \<Rightarrow> string list
     \<Rightarrow> string list sresult outcome \<times> string list" where
  "demo_main setup run args =
     (case demo_parse_args args of
        Inl e \<Rightarrow> (Done (Inl e), [])
      | Inr cli \<Rightarrow>
          (case setup (ec_component cli) of
             Inl e \<Rightarrow> (Done (Inl e), [])
           | Inr _ \<Rightarrow>
               (case run (ec_config cli) of
                  (r, printed, _) \<Rightarrow>
                    (case r of
                       Done (Inr report) \<Rightarrow> Done (Inr (demo_lines (dc_role (ec_config cli)) report))
                     | Done (Inl err) \<Rightarrow> Done (Inl (''iroh-demo returned error: '' @ err))
                     | Waiting \<Rightarrow> Waiting
                     | Panicked p \<Rightarrow> Panicked p
                     | Diverged \<Rightarrow> Diverged, printed))))"

section \<open>Lemmas\<close>

subsection \<open>The flag loop\<close>

lemma parse_flags_append:
  assumes "parse_flags arms usage args opts = Inr opts'"
  shows "parse_flags arms usage (args @ rest) opts = parse_flags arms usage rest opts'"
  using assms
  by (induction arms usage args opts rule: parse_flags.induct)
    (auto split: option.splits flag.splits list.splits)

text \<open>The loop fails in one way, and a failing prefix is not repaired by what follows unless it only
  lacks its last flag's value.\<close>

lemma parse_flags_error: "parse_flags arms usage args opts = Inl e \<Longrightarrow> e = usage"
  by (induction arms usage args opts rule: parse_flags.induct)
    (auto split: option.splits flag.splits list.splits)

text \<open>Every flag given is known.\<close>

lemma parse_flags_unknown:
  assumes "parse_flags arms usage args opts = Inr opts'" and "arms name = None"
  shows "parse_flags arms usage (args @ name # rest) opts = Inl usage"
  using parse_flags_append [OF assms(1), of "name # rest"] assms(2) by simp

subsection \<open>Decimal numbers\<close>

lemma parse_digits_append:
  "parse_digits acc (s @ t) = (case parse_digits acc s of None \<Rightarrow> None | Some acc' \<Rightarrow> parse_digits acc' t)"
  by (induction acc s rule: parse_digits.induct) (auto simp: Let_def)

lemma of_char_digit: "d < 10 \<Longrightarrow> (of_char (char_of (48 + d) :: char) :: nat) = 48 + d"
  by simp

lemma dec_string_digits:
  "\<exists>d s. dec_string n = char_of (48 + d) # s \<and> d < (10 :: nat)"
proof (induction n rule: less_induct)
  case (less n)
  show ?case
  proof (cases "n < 10")
    case True
    then have "dec_string n = char_of (48 + n) # []" by (subst dec_string.simps) simp
    with True show ?thesis by blast
  next
    case False
    with less [of "n div 10"] obtain d s where "dec_string (n div 10) = char_of (48 + d) # s" "d < (10 :: nat)" by auto
    moreover from this False have "dec_string n = char_of (48 + d) # s @ [char_of (48 + n mod 10)]"
      by (subst dec_string.simps) simp
    ultimately show ?thesis by blast
  qed
qed

lemma parse_digits_dec_string: "n < 2 ^ 64 \<Longrightarrow> parse_digits 0 (dec_string n) = Some n"
proof (induction n rule: less_induct)
  case (less n)
  show ?case
  proof (cases "n < 10")
    case True
    then show ?thesis by (subst dec_string.simps) (simp add: of_char_digit)
  next
    case False
    then have "parse_digits 0 (dec_string (n div 10)) = Some (n div 10)" using less by simp
    moreover have "n div 10 * 10 + n mod 10 = n" by simp
    ultimately show ?thesis
      using False less.prems
      by (subst dec_string.simps) (simp add: parse_digits_append of_char_digit del: char_of_mod_256)
  qed
qed

lemma parse_u64_dec_string [simp]: "parse_u64 (dec_string (unat (n :: u64))) = Some n"
proof -
  obtain d s where s: "dec_string (unat n) = char_of (48 + d) # s" "d < (10 :: nat)" using dec_string_digits by blast
  have "char_of (48 + d) \<noteq> CHR ''+''"
  proof
    assume "char_of (48 + d) = CHR ''+''"
    then have "48 + d = (of_char CHR ''+'' :: nat)" using of_char_digit [OF s(2)] by metis
    then show False by simp
  qed
  moreover have "unat n < 2 ^ 64" using unsigned_less [of n, where 'a = nat] by simp
  ultimately show ?thesis
    using s parse_digits_dec_string [of "unat n"] by (simp add: parse_u64_def)
qed

text \<open>Nothing but decimal digits parses, and the value fits.\<close>

lemma parse_u64_refuses:
  assumes "c \<in> set s" and "of_char c < (48 :: nat) \<or> 57 < (of_char c :: nat)" and "c \<noteq> CHR ''+'' \<or> c \<in> set (tl s)"
  shows "parse_u64 s = None"
proof -
  have no: "c \<in> set t \<Longrightarrow> parse_digits acc t = None" for acc t
    using assms(2) by (induction acc t rule: parse_digits.induct) (auto simp: Let_def)
  from assms(1,3) no show ?thesis by (cases s) (auto simp: parse_u64_def simp del: parse_digits.simps(2))
qed

subsection \<open>Round trips\<close>

text \<open>A command line for given options.\<close>

definition flag_args :: "string \<Rightarrow> string option \<Rightarrow> string list" where
  "flag_args name v = (case v of None \<Rightarrow> [] | Some x \<Rightarrow> [name, x])"

definition switch_args :: "string \<Rightarrow> bool \<Rightarrow> string list" where
  "switch_args name b = (if b then [name] else [])"

definition spike_args :: "spike_cli \<Rightarrow> string list" where
  "spike_args cli =
     [sc_component cli, ''--role'', case sc_role cli of DemoClient \<Rightarrow> ''client'' | DemoServer \<Rightarrow> ''server'',
      ''--server'', sc_server cli] @ flag_args ''--peer'' (sc_peer cli)
     @ [''--transport'', case sc_transport cli of TransportWebrtc \<Rightarrow> ''webrtc'' | TransportRelay \<Rightarrow> ''relay'',
        ''--message'', sc_message cli]"

definition demo_args :: "demo_cli \<Rightarrow> string list" where
  "demo_args cli =
     (let c = ec_config cli
      in [ec_component cli, ''--role'', case dc_role c of EdClient \<Rightarrow> ''client'' | EdServer \<Rightarrow> ''server'',
          ''--relay'', dc_relay_url c] @ flag_args ''--peer'' (dc_peer c) @ flag_args ''--alpn'' (dc_alpn c)
         @ flag_args ''--udp-bind'' (dc_udp_bind c) @ flag_args ''--direct'' (dc_direct c)
         @ switch_args ''--webrtc'' (dc_webrtc c) @ flag_args ''--peer-relay'' (dc_peer_relay c)
         @ flag_args ''--payload-bytes'' (map_option (dec_string \<circ> unat) (dc_payload_bytes c))
         @ switch_args ''--datagram'' (dc_datagram c) @ switch_args ''--inject-identity'' (dc_inject_identity c)
         @ [''--message'', dc_message c])"

lemma parse_flag_args:
  assumes "arms name = Some (Takes (\<lambda>x f. map_option (\<lambda>y. put (Some y) f) (parse x)))"
    and "put None opts = opts" and "\<And>y. parse (print y) = Some y"
  shows "parse_flags arms usage (flag_args name (map_option print v) @ rest) opts = parse_flags arms usage rest (put v opts)"
  using assms by (simp add: flag_args_def split: option.split)

lemma parse_text_args:
  assumes "arms name = Some (Takes (\<lambda>x f. Some (put (Some x) f)))" and "put None opts = opts"
  shows "parse_flags arms usage (flag_args name v @ rest) opts = parse_flags arms usage rest (put v opts)"
  using parse_flag_args [where parse = Some and print = "\<lambda>x. x" and put = put, of arms name] assms
  by (simp add: option.map_ident)

lemma parse_switch_args:
  assumes "arms name = Some (Switch upd)"
  shows "parse_flags arms usage (switch_args name b @ rest) opts = parse_flags arms usage rest (if b then upd opts else opts)"
  using assms by (simp add: switch_args_def)

lemma spike_args_roundtrip: "spike_parse_args (spike_args cli) = Inr cli"
  by (cases cli)
    (simp add: spike_args_def spike_parse_args_def flag_args_def spike_flag_def spike_defaults_def
      split: option.split demo_role.split demo_transport.split)

lemmas demo_text_args =
  parse_text_args [where arms = demo_flag and name = "''--peer''" and put = "\<lambda>v f. f\<lparr>df_peer := v\<rparr>"]
  parse_text_args [where arms = demo_flag and name = "''--alpn''" and put = "\<lambda>v f. f\<lparr>df_alpn := v\<rparr>"]
  parse_text_args [where arms = demo_flag and name = "''--udp-bind''" and put = "\<lambda>v f. f\<lparr>df_udp_bind := v\<rparr>"]
  parse_text_args [where arms = demo_flag and name = "''--direct''" and put = "\<lambda>v f. f\<lparr>df_direct := v\<rparr>"]
  parse_text_args [where arms = demo_flag and name = "''--peer-relay''" and put = "\<lambda>v f. f\<lparr>df_peer_relay := v\<rparr>"]

lemmas demo_payload_args =
  parse_flag_args [where arms = demo_flag and name = "''--payload-bytes''" and put = "\<lambda>v f. f\<lparr>df_payload_bytes := v\<rparr>"
    and parse = parse_u64 and print = "dec_string \<circ> unat"]

lemma demo_args_roundtrip: "demo_parse_args (demo_args cli) = Inr cli"
proof -
  obtain component c where cli: "cli = \<lparr>ec_component = component, ec_config = c\<rparr>" by (cases cli)
  obtain rl where rl: "rl = (case dc_role c of EdClient \<Rightarrow> ''client'' | EdServer \<Rightarrow> ''server'')" by blast
  have role: "rl = ''client'' \<and> dc_role c = EdClient \<or> rl = ''server'' \<and> dc_role c = EdServer"
    by (cases "dc_role c") (simp_all add: rl)
  have run: "parse_flags demo_flag DEMO_USAGE (tl (demo_args cli)) demo_defaults
      = Inr \<lparr>df_role = Some (dc_role c), df_relay = Some (dc_relay_url c), df_peer = dc_peer c, df_alpn = dc_alpn c,
          df_udp_bind = dc_udp_bind c, df_direct = dc_direct c, df_webrtc = dc_webrtc c,
          df_peer_relay = dc_peer_relay c, df_payload_bytes = dc_payload_bytes c, df_datagram = dc_datagram c,
          df_inject_identity = dc_inject_identity c, df_message = dc_message c\<rparr>"
    using role
    by (elim disjE conjE)
      (simp_all add: cli demo_args_def rl [symmetric] Let_def demo_text_args demo_payload_args parse_switch_args
        demo_flag_def demo_defaults_def)
  have "demo_args cli = component # tl (demo_args cli)" by (simp add: cli demo_args_def Let_def)
  with run show ?thesis by (cases "demo_args cli") (simp_all add: demo_parse_args_def cli)
qed

subsection \<open>The drivers' outcomes\<close>

lemma demo_parse_args_error: "demo_parse_args args = Inl e \<Longrightarrow> e = DEMO_USAGE"
  by (auto simp: demo_parse_args_def dest: parse_flags_error split: list.splits sum.splits option.splits)

lemma spike_parse_args_error: "spike_parse_args args = Inl e \<Longrightarrow> e = SPIKE_USAGE"
  by (auto simp: spike_parse_args_def dest: parse_flags_error split: list.splits sum.splits option.splits)

lemma demo_main_cases:
  assumes "demo_main setup run args = (r, printed)"
  obtains (usage) "demo_parse_args args = Inl DEMO_USAGE" "r = Done (Inl DEMO_USAGE)" "printed = []"
  | (host) cli e where "demo_parse_args args = Inr cli" "setup (ec_component cli) = Inl e" "r = Done (Inl e)" "printed = []"
  | (ran) cli r' s where "demo_parse_args args = Inr cli" "setup (ec_component cli) = Inr ()"
      "run (ec_config cli) = (r', printed, s)"
      "r = (case r' of
              Done (Inr report) \<Rightarrow> Done (Inr (demo_lines (dc_role (ec_config cli)) report))
            | Done (Inl err) \<Rightarrow> Done (Inl (''iroh-demo returned error: '' @ err))
            | Waiting \<Rightarrow> Waiting | Panicked p \<Rightarrow> Panicked p | Diverged \<Rightarrow> Diverged)"
proof (cases "demo_parse_args args")
  case (Inl e)
  with assms demo_parse_args_error [OF Inl] show ?thesis by (intro usage) (auto simp: demo_main_def)
next
  case (Inr cli)
  show ?thesis
  proof (cases "setup (ec_component cli)")
    case (Inl e)
    with assms \<open>demo_parse_args args = Inr cli\<close> show ?thesis by (intro host) (auto simp: demo_main_def)
  next
    case (Inr u)
    obtain r' pr s where "run (ec_config cli) = (r', pr, s)" by (metis prod_cases3)
    with assms \<open>demo_parse_args args = Inr cli\<close> Inr show ?thesis
      by (intro ran [of cli r' s]) (simp_all add: demo_main_def)
  qed
qed

text \<open>A successful run of the driver prints the report of a peer that was authenticated, which for a client is
  the one its \<open>--peer\<close> names; the driver panics or hangs in no way of its own.\<close>

lemma demo_main_authenticated:
  fixes N :: "('n, 'c, 'i, 'ce, 'ee, 'cfg, 'z) noq_streams_scheme"
  assumes "writes_bounded N" and "reads_drain N rank"
    and "\<forall>(a, dt, others)\<in>set script. \<forall>s. app_kept s (others s)"
    and "demo_main setup (\<lambda>cfg. ed_run N D B K debug H to_text to_uppercase cfg now script) args = (r, printed)"
  shows "(\<forall>p. r \<noteq> Panicked p) \<and> r \<noteq> Diverged
     \<and> (\<forall>lines. r = Done (Inr lines) \<longrightarrow>
          (\<exists>cli report pid. demo_parse_args args = Inr cli
             \<and> lines = demo_lines (dc_role (ec_config cli)) report \<and> dr_peer_id report = hex_encode H pid
             \<and> (dc_role (ec_config cli) = EdClient \<longrightarrow> length pid = 32
                  \<and> (\<exists>text. dc_peer (ec_config cli) = Some text \<and> hex_decode H text = Inr pid))))"
  using assms(4)
proof (cases rule: demo_main_cases)
  case (ran cli r' s)
  note A = ed_run_authenticated [OF assms(1-3) ran(3)]
  show ?thesis
  proof (cases r')
    case (Done x)
    with ran(4) A ran(1) show ?thesis by (cases x) (simp, fastforce)
  qed (use ran(4) A in simp_all)
qed simp_all

lemma spike_main_authenticated:
  assumes "spike_backlog N rank fed step" and "noq_sizes N" and "env_respects (=) w" and "w_log w = []"
    and "spike_main setup (demo_run N D to_uppercase J H create) args w = (r, w')"
  shows "(\<forall>p. r \<noteq> Panicked p) \<and> r \<noteq> Diverged
     \<and> (\<forall>lines. r = Done (Inr lines) \<longrightarrow>
          (\<exists>cli report pid. spike_parse_args args = Inr cli \<and> lines = spike_lines (sc_role cli) report
             \<and> rr_peer_id report = hex_encode H pid \<and> connected_as N pid
             \<and> (\<forall>q d. SendToPeer q d \<in> set (w_log w') \<longrightarrow> q = pid)
             \<and> (\<forall>text. sc_peer cli = Some text \<longrightarrow> parse_endpoint_id H text = Inr pid)))"
proof (cases "spike_parse_args args")
  case (Inl e)
  with assms(5) show ?thesis by (auto simp: spike_main_def ret_def)
next
  case (Inr cli)
  note parsed = this
  show ?thesis
  proof (cases "setup (sc_component cli)")
    case (Inl e)
    with assms(5) parsed show ?thesis by (auto simp: spike_main_def ret_def)
  next
    case (Inr u)
    have peer: "rc_peer (spike_config cli) = sc_peer cli" by (simp add: spike_config_def)
    obtain r1 w1 where run: "demo_run N D to_uppercase J H create (spike_config cli) w = (r1, w1)" by force
    have start: "sent_to None (w_log w)" using assms(4) by simp
    note T = tripleD [OF demo_run_triple [OF assms(1,2)] assms(3) start run]
    show ?thesis
    proof (cases r1)
      case (Done x)
      with assms(5) parsed Inr run T(1) peer show ?thesis
        by (cases x) (auto simp: spike_main_def ret_def and_then_def sent_to_def)
    qed (use assms(5) parsed Inr run T(4,5) in \<open>auto simp: spike_main_def ret_def and_then_def\<close>)
  qed
qed

end
