(* ===== verification/Peer.thy ===== *)
theory Peer
  imports Cli "HOL-Library.Sublist"
begin

text \<open>
  Model of \<open>tools/iroh-peer/src/main.rs\<close>, the interop peer: its command line, its server and client halves
  and its main. The upstream iroh library is not part of the repository: each call of it is an effect of the
  task and its result an answer of the script. A run has one connection and one stream, so the effects name
  neither. The lemmas show what a run asks of iroh, in which order, and that the peer and the endpoint demo
  accept each other's echoes.
\<close>

section \<open>Definitions\<close>

definition PEER_ALPN :: bytes where
  "PEER_ALPN = string_bytes ''iroh-demo/0''"

datatype peer_role = PeerClient | PeerServer

record peer_cli =
  pc_role :: peer_role
  pc_peer :: "string option"
  pc_direct :: "string option"
  pc_datagram :: bool
  pc_message :: string

record peer_flags =
  pf_role :: "peer_role option"
  pf_peer :: "string option"
  pf_direct :: "string option"
  pf_datagram :: bool
  pf_message :: string

definition PEER_USAGE :: string where
  "PEER_USAGE =
     ''usage: iroh-peer --role <client|server> ''
     @ ''[--direct <ip:port>] [--datagram] [--message M] [--peer <endpoint-id-hex>]''"

definition peer_flag :: "string \<Rightarrow> peer_flags flag option" where
  "peer_flag name =
     (if name = ''--role'' then Some (Takes (\<lambda>v f.
         if v = ''client'' then Some (f\<lparr>pf_role := Some PeerClient\<rparr>)
         else if v = ''server'' then Some (f\<lparr>pf_role := Some PeerServer\<rparr>) else None))
      else if name = ''--peer'' then Some (Takes (\<lambda>v f. Some (f\<lparr>pf_peer := Some v\<rparr>)))
      else if name = ''--direct'' then Some (Takes (\<lambda>v f. Some (f\<lparr>pf_direct := Some v\<rparr>)))
      else if name = ''--datagram'' then Some (Switch (\<lambda>f. f\<lparr>pf_datagram := True\<rparr>))
      else if name = ''--message'' then Some (Takes (\<lambda>v f. Some (f\<lparr>pf_message := v\<rparr>)))
      else None)"

definition peer_defaults :: peer_flags where
  "peer_defaults =
     \<lparr>pf_role = None, pf_peer = None, pf_direct = None, pf_datagram = False, pf_message = ''hello from upstream iroh''\<rparr>"

definition peer_parse_args :: "string list \<Rightarrow> peer_cli sresult" where
  "peer_parse_args args =
     (case parse_flags peer_flag PEER_USAGE args peer_defaults of
        Inl e \<Rightarrow> Inl e
      | Inr f \<Rightarrow>
          (case pf_role f of
             None \<Rightarrow> Inl PEER_USAGE
           | Some role \<Rightarrow>
               Inr \<lparr>pc_role = role, pc_peer = pf_peer f, pc_direct = pf_direct f, pc_datagram = pf_datagram f,
                    pc_message = pf_message f\<rparr>))"

subsection \<open>Calls of iroh\<close>

datatype peer_effect =
    Print string
  | BindLoopback "bytes list"
  | AcceptIncoming
  | AwaitIncoming
  | DialPeer endpoint_id socket_addr bytes
  | OpenBi
  | AcceptBi
  | WriteAll bytes
  | FinishSend
  | ReadToEnd nat
  | CopyBack
  | SendDatagram bytes
  | ReadDatagram
  | CloseConn u32 bytes
  | AwaitClosed
  | CloseEndpoint

text \<open>What a call may answer: the bound endpoint's identifier and its sockets as text, whether the endpoint
  still accepts, a connection's remote identifier, a count, bytes, or nothing.\<close>

record peer_answer =
  pa_bound :: "(endpoint_id \<times> string list) sresult"
  pa_accepts :: bool
  pa_remote :: "endpoint_id sresult"
  pa_copied :: "u64 sresult"
  pa_bytes :: "bytes sresult"
  pa_unit :: "unit sresult"

type_synonym 'a peer_task = "(unit, peer_answer, peer_effect, 'a) task"

definition peer_call :: "peer_effect \<Rightarrow> (peer_answer \<Rightarrow> 'a) \<Rightarrow> 'a peer_task" where
  "peer_call eff sel = and_then (emit [eff]) (\<lambda>_. await sel)"

definition println :: "string \<Rightarrow> unit sresult peer_task" where
  "println s = and_then (emit [Print s]) (\<lambda>_. ret (Inr ()))"

definition PEER_DATAGRAM_COPIES :: nat where
  "PEER_DATAGRAM_COPIES = 3"

primrec peer_send_copies :: "bytes \<Rightarrow> nat \<Rightarrow> unit sresult peer_task" where
  "peer_send_copies data 0 = ret (Inr ())"
| "peer_send_copies data (Suc n) =
     try_then (peer_call (SendDatagram data) pa_unit) (\<lambda>_. peer_send_copies data n)"

subsection \<open>The server\<close>

definition peer_server_datagram :: "unit sresult peer_task" where
  "peer_server_datagram =
     try_then (peer_call ReadDatagram pa_bytes) (\<lambda>payload.
     try_then (peer_send_copies payload PEER_DATAGRAM_COPIES) (\<lambda>_.
       println (''echoed datagram ('' @ dec_string (length payload) @ '' bytes)'')))"

definition peer_run_server :: "('h) hex_codec_scheme \<Rightarrow> peer_cli \<Rightarrow> unit sresult peer_task" where
  "peer_run_server H cli =
     try_then (peer_call AcceptIncoming (\<lambda>a. if pa_accepts a then Inr () else Inl ''endpoint closed'')) (\<lambda>_.
     try_then (peer_call AwaitIncoming pa_remote) (\<lambda>remote.
     try_then (println (''accepted '' @ hex_encode H remote)) (\<lambda>_.
     try_then (peer_call AcceptBi pa_unit) (\<lambda>_.
     try_then (peer_call CopyBack pa_copied) (\<lambda>echoed.
     try_then (peer_call FinishSend pa_unit) (\<lambda>_.
     try_then (println (''echoed '' @ dec_string (unat echoed) @ '' bytes'')) (\<lambda>_.
     try_then (if pc_datagram cli then peer_server_datagram else ret (Inr ())) (\<lambda>_.
     and_then (peer_call AwaitClosed (\<lambda>_. ())) (\<lambda>_.
       println ''OK: server finished.'')))))))))"

subsection \<open>The client\<close>

text \<open>The library's identifier check, and the parser of socket addresses.\<close>

record peer_deps =
  pd_id_from_bytes :: "bytes \<Rightarrow> endpoint_id sresult"
  pd_parse_addr :: "string \<Rightarrow> socket_addr sresult"

definition peer_target ::
  "peer_deps \<Rightarrow> ('h) hex_codec_scheme \<Rightarrow> peer_cli \<Rightarrow> (endpoint_id \<times> socket_addr) sresult" where
  "peer_target D H cli =
     (case pc_peer cli of
        None \<Rightarrow> Inl PEER_USAGE
      | Some peer_hex \<Rightarrow>
          (case hex_decode H peer_hex of
             Inl e \<Rightarrow> Inl e
           | Inr peer_bytes \<Rightarrow>
               if length peer_bytes \<noteq> 32 then Inl ''endpoint id is not 32 bytes''
               else
                 (case pd_id_from_bytes D peer_bytes of
                    Inl e \<Rightarrow> Inl e
                  | Inr peer \<Rightarrow>
                      (case pc_direct cli of
                         None \<Rightarrow> Inl PEER_USAGE
                       | Some addr \<Rightarrow>
                           (case pd_parse_addr D addr of
                              Inl e \<Rightarrow> Inl e
                            | Inr direct \<Rightarrow> Inr (peer, direct))))))"

definition peer_client_datagram :: "string \<Rightarrow> unit sresult peer_task" where
  "peer_client_datagram message =
     (let payload = string_bytes (''datagram '' @ message)
      in try_then (peer_send_copies payload PEER_DATAGRAM_COPIES) (\<lambda>_.
         try_then (peer_call ReadDatagram pa_bytes) (\<lambda>echoed.
           if echoed \<noteq> payload
           then ret (Inl (''datagram echo mismatch: sent '' @ dec_string (length payload) @ '' bytes, got ''
                       @ dec_string (length echoed) @ '' bytes''))
           else println (''received datagram ('' @ dec_string (length echoed) @ '' bytes)''))))"

text \<open>The client's verdict on the echo.\<close>

definition peer_check_echo :: "(string \<Rightarrow> string) \<Rightarrow> string \<Rightarrow> bytes \<Rightarrow> unit sresult" where
  "peer_check_echo to_uppercase message echoed =
     (let text = from_utf8_lossy echoed
      in if text \<noteq> to_uppercase message
         then Inl (''echo mismatch: sent '' @ debug_string message @ '', got '' @ debug_string text)
         else Inr ())"

definition peer_run_client ::
  "peer_deps \<Rightarrow> ('h) hex_codec_scheme \<Rightarrow> (string \<Rightarrow> string) \<Rightarrow> peer_cli \<Rightarrow> unit sresult peer_task" where
  "peer_run_client D H to_uppercase cli =
     (case peer_target D H cli of
        Inl e \<Rightarrow> ret (Inl e)
      | Inr (peer, direct) \<Rightarrow>
          try_then (peer_call (DialPeer peer direct PEER_ALPN) pa_unit) (\<lambda>_.
          try_then (peer_call OpenBi pa_unit) (\<lambda>_.
          try_then (peer_call (WriteAll (string_bytes (pc_message cli))) pa_unit) (\<lambda>_.
          try_then (peer_call FinishSend pa_unit) (\<lambda>_.
          try_then (peer_call (ReadToEnd (64 * 1024)) pa_bytes) (\<lambda>echoed.
          try_then (println (''received '' @ debug_string (from_utf8_lossy echoed))) (\<lambda>_.
          try_then (ret (peer_check_echo to_uppercase (pc_message cli) echoed)) (\<lambda>_.
          try_then (if pc_datagram cli then peer_client_datagram (pc_message cli) else ret (Inr ())) (\<lambda>_.
          and_then (emit [CloseConn 0 (string_bytes ''done'')]) (\<lambda>_.
            println ''OK: client finished.''))))))))))"

subsection \<open>The main function\<close>

definition peer_main ::
  "peer_deps \<Rightarrow> ('h) hex_codec_scheme \<Rightarrow> (string \<Rightarrow> string) \<Rightarrow> string list \<Rightarrow> unit sresult peer_task" where
  "peer_main D H to_uppercase args =
     (case peer_parse_args args of
        Inl e \<Rightarrow> ret (Inl e)
      | Inr cli \<Rightarrow>
          try_then (peer_call (BindLoopback [PEER_ALPN]) pa_bound) (\<lambda>(own_id, sockets).
          try_then (println (''endpoint-id '' @ hex_encode H own_id)) (\<lambda>_.
          try_then (ret (case sockets of [] \<Rightarrow> Inl ''no bound socket'' | addr # _ \<Rightarrow> Inr addr)) (\<lambda>direct_addr.
          try_then (println (''direct-addr '' @ direct_addr)) (\<lambda>_.
          try_then (case pc_role cli of
                      PeerServer \<Rightarrow> peer_run_server H cli
                    | PeerClient \<Rightarrow> peer_run_client D H to_uppercase cli) (\<lambda>_.
          and_then (peer_call CloseEndpoint (\<lambda>_. ())) (\<lambda>_. ret (Inr ()))))))))"
section \<open>Lemmas\<close>

subsection \<open>Transcripts\<close>

text \<open>The calls among the effects, and what a task delivers: from the log \<open>b\<close> it ends with a log that \<open>Q\<close>
  allows, or fails or waits with calls that \<open>A\<close> allows; it never panics or diverges.\<close>

definition is_call :: "peer_effect \<Rightarrow> bool" where
  "is_call e \<longleftrightarrow> (\<forall>s. e \<noteq> Print s)"

lemma is_call_simps [simp]:
  "\<not> is_call (Print s)" "is_call (BindLoopback as)" "is_call AcceptIncoming" "is_call AwaitIncoming"
  "is_call (DialPeer p d a)" "is_call OpenBi" "is_call AcceptBi" "is_call (WriteAll bs)" "is_call FinishSend"
  "is_call (ReadToEnd n)" "is_call CopyBack" "is_call (SendDatagram bs)" "is_call ReadDatagram"
  "is_call (CloseConn c bs)" "is_call AwaitClosed" "is_call CloseEndpoint"
  by (simp_all add: is_call_def)

abbreviation peer_calls :: "peer_effect list \<Rightarrow> peer_effect list" where
  "peer_calls \<equiv> filter is_call"

definition delivers ::
  "(peer_effect list \<Rightarrow> bool) \<Rightarrow> peer_effect list \<Rightarrow> 'a sresult peer_task \<Rightarrow> ('a \<Rightarrow> peer_effect list \<Rightarrow> bool) \<Rightarrow> bool" where
  "delivers A b t Q \<longleftrightarrow>
     triple (=) (\<lambda>_ l. A (peer_calls l)) (\<lambda>_ l. l = b) t
       (\<lambda>r _ l. case r of Inl _ \<Rightarrow> A (peer_calls l) | Inr x \<Rightarrow> Q x l)"

lemma delivers_try:
  assumes "delivers A b m M" and "\<And>x c. M x c \<Longrightarrow> delivers A c (f x) Q"
  shows "delivers A b (try_then m f) Q"
  unfolding delivers_def
proof (rule triple_try_then [OF assms(1) [unfolded delivers_def]])
  fix x
  show "triple (=) (\<lambda>_ l. A (peer_calls l)) (\<lambda>_ l. case Inr x of Inl _ \<Rightarrow> A (peer_calls l) | Inr x \<Rightarrow> M x l) (f x)
     (\<lambda>r _ l. case r of Inl _ \<Rightarrow> A (peer_calls l) | Inr x \<Rightarrow> Q x l)"
    by (rule triple_fix, rule triple_weaken, rule assms(2) [unfolded delivers_def]) auto
qed simp

lemma delivers_step:
  assumes "delivers A b m (\<lambda>x l. P x \<and> l = c)" and "\<And>x. P x \<Longrightarrow> delivers A c (f x) Q"
  shows "delivers A b (try_then m f) Q"
  by (rule delivers_try [OF assms(1)]) (use assms(2) in auto)

lemma delivers_ret: "(\<And>e. r = Inl e \<Longrightarrow> A (peer_calls b)) \<Longrightarrow> (\<And>x. r = Inr x \<Longrightarrow> Q x b) \<Longrightarrow> delivers A b (ret r) Q"
  unfolding delivers_def by (rule triple_ret) (auto split: sum.split)

lemma delivers_call:
  assumes "A (peer_calls (b @ [e]))"
  shows "delivers A b (peer_call e sel) (\<lambda>x l. (\<exists>a. sel a = Inr x) \<and> l = b @ [e])"
  unfolding delivers_def peer_call_def
  by (rule triple_and_then [OF triple_emit [where Q = "\<lambda>_ _ l. l = b @ [e]"]], simp)
    (rule triple_await, use assms in \<open>auto split: sum.split intro: sym\<close>)

lemma delivers_print: "delivers A b (println s) (\<lambda>x l. x = () \<and> l = b @ [Print s])"
  unfolding delivers_def println_def
  by (rule triple_and_then [OF triple_emit [where Q = "\<lambda>_ _ l. l = b @ [Print s]"]], simp)
    (rule triple_ret, simp)

lemma delivers_weaken: "delivers A b t Q' \<Longrightarrow> (\<And>x l. Q' x l \<Longrightarrow> Q x l) \<Longrightarrow> delivers A b t Q"
  unfolding delivers_def by (erule triple_weaken) (auto split: sum.splits)

lemma delivers_allow: "delivers A' b t Q \<Longrightarrow> (\<And>calls. A' calls \<Longrightarrow> A calls) \<Longrightarrow> delivers A b t Q"
  unfolding delivers_def by (erule triple_weaken) (auto split: sum.splits)

text \<open>A call that cannot fail.\<close>

lemma delivers_await:
  assumes "A (peer_calls (b @ [e]))" and "delivers A (b @ [e]) t Q"
  shows "delivers A b (and_then (peer_call e (\<lambda>_. ())) (\<lambda>_. t)) Q"
  unfolding delivers_def
proof (rule triple_and_then)
  show "triple (=) (\<lambda>_ l. A (peer_calls l)) (\<lambda>_ l. l = b) (peer_call e (\<lambda>_. ())) (\<lambda>_ _ l. l = b @ [e])"
    unfolding peer_call_def
    by (rule triple_and_then [OF triple_emit [where Q = "\<lambda>_ _ l. l = b @ [e]"]], simp)
      (rule triple_await, use assms(1) in auto)
qed (use assms(2) in \<open>simp add: delivers_def\<close>)

lemma delivers_copies:
  assumes "\<And>k. k \<le> n \<Longrightarrow> A (peer_calls b @ replicate k (SendDatagram data))"
  shows "delivers A b (peer_send_copies data n) (\<lambda>x l. x = () \<and> l = b @ replicate n (SendDatagram data))"
  using assms
proof (induction n arbitrary: b)
  case 0
  then show ?case by (auto intro: delivers_ret)
next
  case (Suc n)
  have A: "A (peer_calls (b @ [SendDatagram data]) @ replicate k (SendDatagram data))" if "k \<le> n" for k
    using Suc.prems [of "Suc k"] that by simp
  show ?case
    unfolding peer_send_copies.simps
    by (rule delivers_step [OF delivers_call], use A [of 0] in simp)
      (rule delivers_weaken [OF Suc.IH], use A in auto)
qed
subsection \<open>What a run asks of iroh\<close>

definition client_datagram_log :: "string \<Rightarrow> peer_effect list" where
  "client_datagram_log message =
     (let payload = string_bytes (''datagram '' @ message)
      in replicate PEER_DATAGRAM_COPIES (SendDatagram payload)
         @ [ReadDatagram, Print (''received datagram ('' @ dec_string (length payload) @ '' bytes)'')])"

definition client_log :: "(string \<Rightarrow> string) \<Rightarrow> peer_cli \<Rightarrow> endpoint_id \<Rightarrow> socket_addr \<Rightarrow> peer_effect list" where
  "client_log to_uppercase cli peer direct =
     [DialPeer peer direct PEER_ALPN, OpenBi, WriteAll (string_bytes (pc_message cli)), FinishSend, ReadToEnd 65536,
      Print (''received '' @ debug_string (to_uppercase (pc_message cli)))]
     @ (if pc_datagram cli then client_datagram_log (pc_message cli) else [])
     @ [CloseConn 0 (string_bytes ''done''), Print ''OK: client finished.'']"

lemma peer_check_echo_ok: "peer_check_echo up message echoed = Inr u \<longleftrightarrow> from_utf8_lossy echoed = up message"
  by (auto simp: peer_check_echo_def Let_def)

lemma client_datagram_delivers:
  assumes "\<And>calls. prefix calls (peer_calls (client_datagram_log message)) \<Longrightarrow> A (peer_calls b @ calls)"
  shows "delivers A b (peer_client_datagram message) (\<lambda>x l. x = () \<and> l = b @ client_datagram_log message)"
proof -
  let ?p = "string_bytes (''datagram '' @ message)"
  have copies: "A (peer_calls b @ replicate k (SendDatagram ?p))" if "k \<le> PEER_DATAGRAM_COPIES" for k
  proof (rule assms)
    have "replicate PEER_DATAGRAM_COPIES (SendDatagram ?p)
        = replicate k (SendDatagram ?p) @ replicate (PEER_DATAGRAM_COPIES - k) (SendDatagram ?p)"
      using that by (simp flip: replicate_add)
    then show "prefix (replicate k (SendDatagram ?p)) (peer_calls (client_datagram_log message))"
      by (simp add: client_datagram_log_def Let_def)
  qed
  have all: "A (peer_calls b @ peer_calls (client_datagram_log message))" by (rule assms) simp
  show ?thesis
    unfolding peer_client_datagram_def Let_def
  proof (rule delivers_step [OF delivers_copies])
    fix k
    assume "k \<le> PEER_DATAGRAM_COPIES"
    then show "A (peer_calls b @ replicate k (SendDatagram ?p))" by (rule copies)
  next
    show "delivers A (b @ replicate PEER_DATAGRAM_COPIES (SendDatagram ?p))
       (try_then (peer_call ReadDatagram pa_bytes) (\<lambda>echoed.
           if echoed \<noteq> ?p
           then ret (Inl (''datagram echo mismatch: sent '' @ dec_string (length ?p) @ '' bytes, got ''
                       @ dec_string (length echoed) @ '' bytes''))
           else println (''received datagram ('' @ dec_string (length echoed) @ '' bytes)'')))
       (\<lambda>x l. x = () \<and> l = b @ client_datagram_log message)"
      by (rule delivers_step [OF delivers_call])
        (use all in \<open>auto simp: client_datagram_log_def Let_def intro!: delivers_ret delivers_weaken [OF delivers_print]\<close>)
  qed
qed

text \<open>Once its target is known, a client's calls follow one transcript, and its success is the whole of it.\<close>

lemma client_delivers:
  assumes "peer_target D H cli = Inr (peer, direct)"
  shows "delivers (\<lambda>calls. prefix calls (peer_calls (b @ client_log up cli peer direct))) b
      (peer_run_client D H up cli) (\<lambda>_ l. l = b @ client_log up cli peer direct)"
proof -
  let ?T = "peer_calls (b @ client_log up cli peer direct)"
  let ?A = "\<lambda>calls. prefix calls ?T"
  let ?m = "string_bytes (pc_message cli)"
  let ?open = "b @ [DialPeer peer direct PEER_ALPN, OpenBi, WriteAll ?m, FinishSend, ReadToEnd 65536]"
  let ?b = "?open @ [Print (''received '' @ debug_string (up (pc_message cli)))]"
  let ?d = "if pc_datagram cli then client_datagram_log (pc_message cli) else []"
  have T: "peer_calls (client_log up cli peer direct)
      = [DialPeer peer direct PEER_ALPN, OpenBi, WriteAll ?m, FinishSend, ReadToEnd 65536] @ peer_calls ?d
        @ [CloseConn 0 (string_bytes ''done'')]"
    by (simp add: client_log_def)
  have "delivers ?A (?b @ ?d) (and_then (emit [CloseConn 0 (string_bytes ''done'')]) (\<lambda>_. println ''OK: client finished.''))
      (\<lambda>_ l. l = b @ client_log up cli peer direct)"
    unfolding delivers_def println_def
    by (rule triple_and_then [OF triple_emit [where Q = "\<lambda>_ _ l. l = ?b @ ?d @ [CloseConn 0 (string_bytes ''done'')]"]],
        simp, rule triple_and_then [OF triple_emit [where Q = "\<lambda>_ _ l. l = b @ client_log up cli peer direct"]])
      (auto simp: client_log_def intro!: triple_ret)
  moreover have "delivers ?A ?b (if pc_datagram cli then peer_client_datagram (pc_message cli) else ret (Inr ()))
      (\<lambda>x l. x = () \<and> l = ?b @ ?d)"
  proof (cases "pc_datagram cli")
    case True
    then have "?A (peer_calls ?b @ calls)" if "prefix calls (peer_calls (client_datagram_log (pc_message cli)))" for calls
      using that T by (auto simp: prefix_def)
    with True show ?thesis using client_datagram_delivers [of "pc_message cli" ?A ?b] by simp
  qed (auto intro: delivers_ret)
  ultimately have after: "delivers ?A ?b
      (try_then (if pc_datagram cli then peer_client_datagram (pc_message cli) else ret (Inr ())) (\<lambda>_.
         and_then (emit [CloseConn 0 (string_bytes ''done'')]) (\<lambda>_. println ''OK: client finished.'')))
      (\<lambda>_ l. l = b @ client_log up cli peer direct)"
    by (rule delivers_step [rotated])
  have checked: "delivers ?A (?open @ [Print (''received '' @ debug_string (from_utf8_lossy echoed))])
      (ret (peer_check_echo up (pc_message cli) echoed)) (\<lambda>x l. True \<and> l = ?b)" for echoed
    by (rule delivers_ret) (use T in \<open>auto simp: peer_check_echo_ok\<close>)
  note judged = delivers_step [OF checked after]
  show ?thesis
    unfolding peer_run_client_def assms sum.case prod.case
    by (rule delivers_step [OF delivers_call], simp add: T, rule delivers_step [OF delivers_call], simp add: T,
        rule delivers_step [OF delivers_call], simp add: T, rule delivers_step [OF delivers_call], simp add: T,
        rule delivers_step [OF delivers_call], simp add: T, rule delivers_step [OF delivers_print])
      (use judged in simp)
qed
definition server_datagram_log :: "bytes \<Rightarrow> peer_effect list" where
  "server_datagram_log pl =
     [ReadDatagram] @ replicate PEER_DATAGRAM_COPIES (SendDatagram pl)
     @ [Print (''echoed datagram ('' @ dec_string (length pl) @ '' bytes)'')]"

definition server_log :: "('h) hex_codec_scheme \<Rightarrow> peer_cli \<Rightarrow> endpoint_id \<Rightarrow> u64 \<Rightarrow> bytes \<Rightarrow> peer_effect list" where
  "server_log H cli remote echoed pl =
     [AcceptIncoming, AwaitIncoming, Print (''accepted '' @ hex_encode H remote), AcceptBi, CopyBack, FinishSend,
      Print (''echoed '' @ dec_string (unat echoed) @ '' bytes'')]
     @ (if pc_datagram cli then server_datagram_log pl else []) @ [AwaitClosed, Print ''OK: server finished.'']"

text \<open>The calls of a server; only the datagram depends on the peer.\<close>

definition server_calls :: "peer_cli \<Rightarrow> bytes \<Rightarrow> peer_effect list" where
  "server_calls cli pl =
     [AcceptIncoming, AwaitIncoming, AcceptBi, CopyBack, FinishSend]
     @ (if pc_datagram cli then ReadDatagram # replicate PEER_DATAGRAM_COPIES (SendDatagram pl) else [])
     @ [AwaitClosed]"

lemma server_log_calls [simp]: "peer_calls (server_log H cli remote echoed pl) = server_calls cli pl"
  by (simp add: server_log_def server_datagram_log_def server_calls_def)

lemma server_datagram_delivers:
  assumes "\<And>pl calls. prefix calls (peer_calls (server_datagram_log pl)) \<Longrightarrow> A (peer_calls b @ calls)"
  shows "delivers A b peer_server_datagram (\<lambda>x l. \<exists>pl. l = b @ server_datagram_log pl)"
  unfolding peer_server_datagram_def
proof (rule delivers_step [OF delivers_call])
  show "A (peer_calls (b @ [ReadDatagram]))"
    using assms [of "[ReadDatagram]"] by (simp add: server_datagram_log_def)
next
  fix pl
  have "A (peer_calls (b @ [ReadDatagram]) @ replicate k (SendDatagram pl))" if "k \<le> PEER_DATAGRAM_COPIES" for k
  proof -
    have "replicate PEER_DATAGRAM_COPIES (SendDatagram pl)
        = replicate k (SendDatagram pl) @ replicate (PEER_DATAGRAM_COPIES - k) (SendDatagram pl)"
      using that by (simp flip: replicate_add)
    then have "prefix (ReadDatagram # replicate k (SendDatagram pl)) (peer_calls (server_datagram_log pl))"
      by (simp add: server_datagram_log_def)
    from assms [OF this] show ?thesis by simp
  qed
  then show "delivers A (b @ [ReadDatagram])
      (try_then (peer_send_copies pl PEER_DATAGRAM_COPIES) (\<lambda>_.
         println (''echoed datagram ('' @ dec_string (length pl) @ '' bytes)'')))
      (\<lambda>x l. \<exists>pl. l = b @ server_datagram_log pl)"
    by (rule delivers_step [OF delivers_copies])
      (auto simp: server_datagram_log_def intro!: delivers_weaken [OF delivers_print])
qed

lemma server_delivers:
  "delivers (\<lambda>calls. \<exists>pl. prefix calls (peer_calls b @ server_calls cli pl)) b (peer_run_server H cli)
     (\<lambda>_ l. \<exists>remote echoed pl. l = b @ server_log H cli remote echoed pl)"
proof -
  let ?A = "\<lambda>calls. \<exists>pl. prefix calls (peer_calls b @ server_calls cli pl)"
  let ?Q = "\<lambda>_ l. \<exists>remote echoed pl. l = b @ server_log H cli remote echoed pl"
  let ?b = "\<lambda>remote echoed. b @ [AcceptIncoming, AwaitIncoming, Print (''accepted '' @ hex_encode H remote), AcceptBi, CopyBack,
      FinishSend, Print (''echoed '' @ dec_string (unat (echoed :: u64)) @ '' bytes'')]"
  let ?d = "\<lambda>pl. if pc_datagram cli then server_datagram_log pl else []"
  have closing: "delivers ?A (?b remote echoed @ ?d pl)
      (and_then (peer_call AwaitClosed (\<lambda>_. ())) (\<lambda>_. println ''OK: server finished.'')) ?Q" for remote echoed pl
  proof -
    have "prefix (peer_calls ((?b remote echoed @ ?d pl) @ [AwaitClosed])) (peer_calls b @ server_calls cli pl)"
      by (simp add: server_calls_def server_datagram_log_def)
    then have calls: "?A (peer_calls ((?b remote echoed @ ?d pl) @ [AwaitClosed]))" by blast
    have "((?b remote echoed @ ?d pl) @ [AwaitClosed]) @ [Print ''OK: server finished.''] = b @ server_log H cli remote echoed pl"
      by (simp add: server_log_def)
    then have "delivers ?A ((?b remote echoed @ ?d pl) @ [AwaitClosed]) (println ''OK: server finished.'') ?Q"
      by (intro delivers_weaken [OF delivers_print]) metis
    with calls show ?thesis by (rule delivers_await)
  qed
  have datagram: "delivers ?A (?b remote echoed) (if pc_datagram cli then peer_server_datagram else ret (Inr ()))
      (\<lambda>x l. \<exists>pl. l = ?b remote echoed @ ?d pl)" for remote echoed
  proof (cases "pc_datagram cli")
    case True
    have "?A (peer_calls (?b remote echoed) @ calls)"
      if front: "prefix calls (peer_calls (server_datagram_log pl))" for calls pl
    proof -
      obtain zs where "ReadDatagram # replicate PEER_DATAGRAM_COPIES (SendDatagram pl) = calls @ zs"
        using front by (auto simp: prefix_def server_datagram_log_def)
      then have "peer_calls b @ server_calls cli pl = (peer_calls (?b remote echoed) @ calls) @ zs @ [AwaitClosed]"
        using True by (simp add: server_calls_def)
      then show ?thesis by (intro exI [of _ pl] prefixI)
    qed
    with True show ?thesis using server_datagram_delivers [of ?A "?b remote echoed"] by simp
  qed (auto intro: delivers_ret)
  have after: "delivers ?A (?b remote echoed)
      (try_then (if pc_datagram cli then peer_server_datagram else ret (Inr ())) (\<lambda>_.
         and_then (peer_call AwaitClosed (\<lambda>_. ())) (\<lambda>_. println ''OK: server finished.''))) ?Q" for remote echoed
    by (rule delivers_try [OF datagram]) (use closing in blast)
  show ?thesis
    unfolding peer_run_server_def
    by (rule delivers_step [OF delivers_call], simp add: server_calls_def,
        rule delivers_step [OF delivers_call], simp add: server_calls_def, rule delivers_step [OF delivers_print],
        rule delivers_step [OF delivers_call], simp add: server_calls_def,
        rule delivers_step [OF delivers_call], simp add: server_calls_def,
        rule delivers_step [OF delivers_call], simp add: server_calls_def, rule delivers_step [OF delivers_print])
      (use after in simp)
qed

lemma session_delivers:
  "delivers (\<lambda>_. True) b (case pc_role cli of PeerServer \<Rightarrow> peer_run_server H cli | PeerClient \<Rightarrow> peer_run_client D H up cli)
     (\<lambda>_ _. True)"
proof (cases "pc_role cli")
  case PeerServer
  then show ?thesis using delivers_weaken [OF delivers_allow [OF server_delivers]] by fastforce
next
  case PeerClient
  show ?thesis
  proof (cases "peer_target D H cli")
    case (Inl e)
    then have "peer_run_client D H up cli = ret (Inl e)" by (simp add: peer_run_client_def)
    with PeerClient show ?thesis by (auto intro: delivers_ret)
  next
    case (Inr pd)
    with PeerClient show ?thesis using delivers_weaken [OF delivers_allow [OF client_delivers]] by (cases pd) fastforce
  qed
qed

subsection \<open>Questions and answers\<close>

text \<open>A task that succeeds, with the answers it took from the script and the effects it logged meanwhile.\<close>

definition answered :: "'a sresult peer_task \<Rightarrow> ('a \<Rightarrow> peer_answer list \<Rightarrow> peer_effect list \<Rightarrow> bool) \<Rightarrow> bool" where
  "answered t Q \<longleftrightarrow>
     (\<forall>w x w'. t w = (Done (Inr x), w') \<longrightarrow>
        (\<exists>as es. map fst (w_script w) = as @ map fst (w_script w') \<and> w_log w' = w_log w @ es \<and> Q x as es))"

lemma answeredI:
  assumes "\<And>w x w'. t w = (Done (Inr x), w') \<Longrightarrow>
      \<exists>as es. map fst (w_script w) = as @ map fst (w_script w') \<and> w_log w' = w_log w @ es \<and> Q x as es"
  shows "answered t Q"
  using assms by (simp add: answered_def)

lemma answered_try:
  assumes "answered m M" and "\<And>y as es. M y as es \<Longrightarrow> answered (f y) (\<lambda>x as' es'. Q x (as @ as') (es @ es'))"
  shows "answered (try_then m f) Q"
proof (rule answeredI)
  fix w x w'
  assume "try_then m f w = (Done (Inr x), w')"
  then obtain y w1 where m: "m w = (Done (Inr y), w1)" and f: "f y w1 = (Done (Inr x), w')"
    by (auto simp: try_then_def and_then_def ret_def split: prod.splits outcome.splits sum.splits)
  from assms(1) m obtain as es where 1: "map fst (w_script w) = as @ map fst (w_script w1)" "w_log w1 = w_log w @ es" "M y as es"
    unfolding answered_def by blast
  from assms(2) [OF 1(3)] f obtain as' es' where
      "map fst (w_script w1) = as' @ map fst (w_script w')" "w_log w' = w_log w1 @ es'" "Q x (as @ as') (es @ es')"
    unfolding answered_def by blast
  with 1 show "\<exists>as es. map fst (w_script w) = as @ map fst (w_script w') \<and> w_log w' = w_log w @ es \<and> Q x as es"
    by (intro exI [of _ "as @ as'"] exI [of _ "es @ es'"]) simp
qed

lemma answered_ret: "(\<And>x. r = Inr x \<Longrightarrow> Q x [] []) \<Longrightarrow> answered (ret r) Q"
  by (auto simp: answered_def ret_def)

lemma answered_call: "answered (peer_call e sel) (\<lambda>y as es. \<exists>a. sel a = Inr y \<and> as = [a] \<and> es = [e])"
  by (rule answeredI) (auto simp: peer_call_def and_then_def emit_def await_def split: list.splits)

lemma answered_ask:
  assumes "\<And>a y. sel a = Inr y \<Longrightarrow> answered (f y) (\<lambda>x as es. Q x (a # as) (e # es))"
  shows "answered (try_then (peer_call e sel) f) Q"
  by (rule answered_try [OF answered_call]) (use assms in auto)

lemma answered_println: "answered (println s) (\<lambda>y as es. as = [] \<and> es = [Print s])"
  by (rule answeredI) (auto simp: println_def and_then_def emit_def ret_def)

lemma answered_print:
  "answered (f ()) (\<lambda>x as es. Q x as (Print s # es)) \<Longrightarrow> answered (try_then (println s) f) Q"
  by (rule answered_try [OF answered_println]) simp

lemma answered_verdict:
  "(\<And>y. r = Inr y \<Longrightarrow> answered (f y) Q) \<Longrightarrow> answered (try_then (ret r) f) Q"
  by (rule answered_try [OF answered_ret, where M = "\<lambda>y as es. r = Inr y \<and> as = [] \<and> es = []"]) auto

text \<open>An await whose answer is not looked at.\<close>

lemma answered_await:
  assumes "\<And>a. answered t (\<lambda>x as es. Q x (a # as) (e # es))"
  shows "answered (and_then (peer_call e (\<lambda>_. ())) (\<lambda>_. t)) Q"
proof -
  have "and_then (peer_call e (\<lambda>_. ())) (\<lambda>_. t) = try_then (peer_call e (\<lambda>_. Inr () :: unit sresult)) (\<lambda>_. t)"
    by (auto simp: fun_eq_iff try_then_def and_then_def peer_call_def emit_def await_def split: list.split)
  then show ?thesis using answered_ask [of "\<lambda>_. Inr ()" "\<lambda>_. t"] assms by simp
qed

lemma answered_emit:
  "answered t (\<lambda>x as es. Q x as (e # es)) \<Longrightarrow> answered (and_then (emit [e]) (\<lambda>_. t)) Q"
  by (fastforce simp: answered_def and_then_def emit_def)

lemma answered_sends:
  "answered (peer_send_copies data n) (\<lambda>_ as es. length as = n \<and> list_all (\<lambda>a. pa_unit a = Inr ()) as
     \<and> es = replicate n (SendDatagram data))"
proof (induction n)
  case 0
  then show ?case by (auto intro: answered_ret)
next
  case (Suc n)
  show ?case
    unfolding peer_send_copies.simps
    by (rule answered_ask) (use Suc.IH in \<open>auto simp: answered_def\<close>)
qed

subsection \<open>What a successful run saw\<close>

text \<open>The calls whose answer the program waits for (it closes a connection without waiting), each with the answer
  it got, and which answers are a success of their call.\<close>

definition asked :: "peer_effect \<Rightarrow> bool" where
  "asked e \<longleftrightarrow> is_call e \<and> (\<forall>c bs. e \<noteq> CloseConn c bs)"

lemma asked_simps [simp]:
  "\<not> asked (Print s)" "\<not> asked (CloseConn c bs)" "asked (BindLoopback als)" "asked AcceptIncoming" "asked AwaitIncoming"
  "asked (DialPeer p d a)" "asked OpenBi" "asked AcceptBi" "asked (WriteAll bs)" "asked FinishSend"
  "asked (ReadToEnd n)" "asked CopyBack" "asked (SendDatagram bs)" "asked ReadDatagram" "asked AwaitClosed"
  "asked CloseEndpoint"
  by (simp_all add: asked_def)

definition replies :: "peer_effect list \<Rightarrow> peer_answer list \<Rightarrow> (peer_effect \<times> peer_answer) list" where
  "replies log as = zip (filter asked log) as"

text \<open>What the session of a successful run saw and did: a client read an echo that decodes to the uppercase form of
  its message and, with the flag, exactly the datagram it sent; a server names the peer, counts the bytes and
  echoes the datagram that the library gave it.\<close>

definition client_saw ::
  "peer_deps \<Rightarrow> ('h) hex_codec_scheme \<Rightarrow> (string \<Rightarrow> string) \<Rightarrow> peer_cli \<Rightarrow> peer_answer list \<Rightarrow> peer_effect list \<Rightarrow> bool" where
  "client_saw D H up cli as log \<longleftrightarrow>
     (\<exists>peer direct echo bs.
        peer_target D H cli = Inr (peer, direct) \<and> log = client_log up cli peer direct
        \<and> (ReadToEnd 65536, echo) \<in> set (replies log as) \<and> pa_bytes echo = Inr bs
        \<and> from_utf8_lossy bs = up (pc_message cli)
        \<and> (pc_datagram cli \<longrightarrow>
             (\<exists>a. (ReadDatagram, a) \<in> set (replies log as)
                \<and> pa_bytes a = Inr (string_bytes (''datagram '' @ pc_message cli)))))"

definition server_saw ::
  "('h) hex_codec_scheme \<Rightarrow> peer_cli \<Rightarrow> peer_answer list \<Rightarrow> peer_effect list \<Rightarrow> bool" where
  "server_saw H cli as log \<longleftrightarrow>
     (\<exists>remote echoed pl accepting joined copied.
        log = server_log H cli remote echoed pl
        \<and> (AcceptIncoming, accepting) \<in> set (replies log as) \<and> pa_accepts accepting
        \<and> (AwaitIncoming, joined) \<in> set (replies log as) \<and> pa_remote joined = Inr remote
        \<and> (CopyBack, copied) \<in> set (replies log as) \<and> pa_copied copied = Inr echoed
        \<and> (pc_datagram cli \<longrightarrow> (\<exists>a. (ReadDatagram, a) \<in> set (replies log as) \<and> pa_bytes a = Inr pl)))"

definition session_log ::
  "peer_deps \<Rightarrow> ('h) hex_codec_scheme \<Rightarrow> (string \<Rightarrow> string) \<Rightarrow> peer_cli \<Rightarrow> peer_answer list \<Rightarrow> peer_effect list \<Rightarrow> bool" where
  "session_log D H up cli as log \<longleftrightarrow>
     length as = length (filter asked log)
     \<and> (case pc_role cli of PeerClient \<Rightarrow> client_saw D H up cli as log | PeerServer \<Rightarrow> server_saw H cli as log)"

lemma client_datagram_answered:
  "answered (peer_client_datagram m) (\<lambda>_ as es. es = client_datagram_log m
     \<and> (\<exists>sent a. as = sent @ [a] \<and> length sent = PEER_DATAGRAM_COPIES
          \<and> pa_bytes a = Inr (string_bytes (''datagram '' @ m))))"
  unfolding peer_client_datagram_def Let_def
proof (rule answered_try [OF answered_sends], rule answered_ask)
  fix sent :: "peer_answer list" and es and a :: peer_answer and echoed
  assume sent: "length sent = PEER_DATAGRAM_COPIES \<and> list_all (\<lambda>a. pa_unit a = Inr ()) sent
      \<and> es = replicate PEER_DATAGRAM_COPIES (SendDatagram (string_bytes (''datagram '' @ m)))"
    and a: "pa_bytes a = Inr echoed"
  show "answered
      (if echoed \<noteq> string_bytes (''datagram '' @ m)
       then ret (Inl (''datagram echo mismatch: sent '' @ dec_string (length (string_bytes (''datagram '' @ m))) @ '' bytes, got ''
                   @ dec_string (length echoed) @ '' bytes''))
       else println (''received datagram ('' @ dec_string (length echoed) @ '' bytes)''))
      (\<lambda>_ as' es'. es @ ReadDatagram # es' = client_datagram_log m
         \<and> (\<exists>sent' a'. sent @ a # as' = sent' @ [a'] \<and> length sent' = PEER_DATAGRAM_COPIES
              \<and> pa_bytes a' = Inr (string_bytes (''datagram '' @ m))))"
    using sent a
    by (auto simp: client_datagram_log_def Let_def answered_def println_def and_then_def emit_def ret_def)
qed

lemma client_answered:
  "answered (peer_run_client D H up cli) (\<lambda>_ as es. length as = length (filter asked es) \<and> client_saw D H up cli as es)"
proof (cases "peer_target D H cli")
  case (Inl e)
  then show ?thesis by (auto simp: peer_run_client_def intro: answered_ret)
next
  case (Inr pd)
  obtain peer direct where pd: "pd = (peer, direct)" by (cases pd)
  let ?Q = "\<lambda>as es. length as = length (filter asked es) \<and> client_saw D H up cli as es"
  let ?front = "\<lambda>bs es. DialPeer peer direct PEER_ALPN # OpenBi # WriteAll (string_bytes (pc_message cli)) # FinishSend
      # ReadToEnd (64 * 1024) # Print (''received '' @ debug_string (from_utf8_lossy bs)) # es"
  have ends: "answered
      (try_then (if pc_datagram cli then peer_client_datagram (pc_message cli) else ret (Inr ())) (\<lambda>_.
         and_then (emit [CloseConn 0 (string_bytes ''done'')]) (\<lambda>_. println ''OK: client finished.'')))
      (\<lambda>x as es. ?Q (a1 # a2 # a3 # a4 # echo # as) (?front bs es))"
    if echo: "pa_bytes echo = Inr bs" "from_utf8_lossy bs = up (pc_message cli)" for a1 a2 a3 a4 echo bs
  proof (rule answered_try)
    show "answered (if pc_datagram cli then peer_client_datagram (pc_message cli) else ret (Inr ()))
        (\<lambda>_ as es. if pc_datagram cli
           then es = client_datagram_log (pc_message cli)
             \<and> (\<exists>sent a. as = sent @ [a] \<and> length sent = PEER_DATAGRAM_COPIES
                  \<and> pa_bytes a = Inr (string_bytes (''datagram '' @ pc_message cli)))
           else as = [] \<and> es = [])"
      using client_datagram_answered by (cases "pc_datagram cli") (auto intro: answered_ret)
    fix u and as :: "peer_answer list" and es
    assume datagram: "if pc_datagram cli
           then es = client_datagram_log (pc_message cli)
             \<and> (\<exists>sent a. as = sent @ [a] \<and> length sent = PEER_DATAGRAM_COPIES
                  \<and> pa_bytes a = Inr (string_bytes (''datagram '' @ pc_message cli)))
           else as = [] \<and> es = []"
    have "?Q (a1 # a2 # a3 # a4 # echo # as)
        (?front bs (es @ [CloseConn 0 (string_bytes ''done''), Print ''OK: client finished.'']))"
    proof (cases "pc_datagram cli")
      case True
      with datagram obtain sent a where d: "as = sent @ [a]" "length sent = PEER_DATAGRAM_COPIES"
          "pa_bytes a = Inr (string_bytes (''datagram '' @ pc_message cli))" "es = client_datagram_log (pc_message cli)"
        by auto
      have "client_saw D H up cli (a1 # a2 # a3 # a4 # echo # as) (client_log up cli peer direct)"
        unfolding client_saw_def
        by (rule exI [of _ peer], rule exI [of _ direct], rule exI [of _ echo], rule exI [of _ bs])
          (use echo d True Inr pd in \<open>auto simp: replies_def client_log_def client_datagram_log_def Let_def\<close>)
      with d True echo show ?thesis by (simp add: client_log_def client_datagram_log_def Let_def)
    next
      case False
      with datagram echo Inr pd show ?thesis by (auto simp: client_saw_def client_log_def replies_def)
    qed
    then show "answered (and_then (emit [CloseConn 0 (string_bytes ''done'')]) (\<lambda>_. println ''OK: client finished.''))
        (\<lambda>x as' es'. ?Q (a1 # a2 # a3 # a4 # echo # (as @ as')) (?front bs (es @ es')))"
      by (intro answered_emit) (auto simp: answered_def println_def and_then_def emit_def ret_def)
  qed
  show ?thesis
    unfolding peer_run_client_def Inr pd sum.case prod.case
    by (rule answered_ask, rule answered_ask, rule answered_ask, rule answered_ask, rule answered_ask,
        rule answered_print, rule answered_verdict)
      (use ends in \<open>simp add: peer_check_echo_ok\<close>)
qed

lemma server_datagram_answered:
  "answered peer_server_datagram (\<lambda>_ as es. \<exists>a pl sent. as = a # sent \<and> length sent = PEER_DATAGRAM_COPIES
     \<and> pa_bytes a = Inr pl \<and> es = server_datagram_log pl)"
  unfolding peer_server_datagram_def
proof (rule answered_ask, rule answered_try [OF answered_sends])
  fix a :: peer_answer and pl and sent :: "peer_answer list" and es
  assume a: "pa_bytes a = Inr pl"
    and sent: "length sent = PEER_DATAGRAM_COPIES \<and> list_all (\<lambda>a. pa_unit a = Inr ()) sent
      \<and> es = replicate PEER_DATAGRAM_COPIES (SendDatagram pl)"
  show "answered (println (''echoed datagram ('' @ dec_string (length pl) @ '' bytes)''))
      (\<lambda>_ as' es'. \<exists>a' pl' sent'. a # (sent @ as') = a' # sent' \<and> length sent' = PEER_DATAGRAM_COPIES
         \<and> pa_bytes a' = Inr pl' \<and> ReadDatagram # (es @ es') = server_datagram_log pl')"
    using a sent by (auto simp: server_datagram_log_def answered_def println_def and_then_def emit_def ret_def)
qed

lemma server_answered:
  "answered (peer_run_server H cli) (\<lambda>_ as es. length as = length (filter asked es) \<and> server_saw H cli as es)"
proof -
  let ?Q = "\<lambda>as es. length as = length (filter asked es) \<and> server_saw H cli as es"
  let ?front = "\<lambda>remote echoed es. AcceptIncoming # AwaitIncoming # Print (''accepted '' @ hex_encode H remote) # AcceptBi # CopyBack
      # FinishSend # Print (''echoed '' @ dec_string (unat (echoed :: u64)) @ '' bytes'') # es"
  have ends: "answered
      (try_then (if pc_datagram cli then peer_server_datagram else ret (Inr ())) (\<lambda>_.
         and_then (peer_call AwaitClosed (\<lambda>_. ())) (\<lambda>_. println ''OK: server finished.'')))
      (\<lambda>x as es. ?Q (accepting # joined # a3 # copied # a5 # as) (?front remote echoed es))"
    if saw: "pa_accepts accepting" "pa_remote joined = Inr remote" "pa_copied copied = Inr echoed"
    for accepting joined a3 copied a5 remote echoed
  proof (rule answered_try)
    show "answered (if pc_datagram cli then peer_server_datagram else ret (Inr ()))
        (\<lambda>_ as es. if pc_datagram cli
           then \<exists>a pl sent. as = a # sent \<and> length sent = PEER_DATAGRAM_COPIES \<and> pa_bytes a = Inr pl
             \<and> es = server_datagram_log pl
           else as = [] \<and> es = [])"
      using server_datagram_answered by (cases "pc_datagram cli") (auto intro: answered_ret)
    fix u and as :: "peer_answer list" and es
    assume datagram: "if pc_datagram cli
           then \<exists>a pl sent. as = a # sent \<and> length sent = PEER_DATAGRAM_COPIES \<and> pa_bytes a = Inr pl
             \<and> es = server_datagram_log pl
           else as = [] \<and> es = []"
    have "?Q (accepting # joined # a3 # copied # a5 # (as @ [a6]))
        (?front remote echoed (es @ [AwaitClosed, Print ''OK: server finished.'']))" for a6
    proof (cases "pc_datagram cli")
      case True
      with datagram obtain a pl sent where d: "as = a # sent" "length sent = PEER_DATAGRAM_COPIES" "pa_bytes a = Inr pl"
          "es = server_datagram_log pl"
        by auto
      have "server_saw H cli (accepting # joined # a3 # copied # a5 # (as @ [a6])) (server_log H cli remote echoed pl)"
        unfolding server_saw_def
        by (rule exI [of _ remote], rule exI [of _ echoed], rule exI [of _ pl], rule exI [of _ accepting],
            rule exI [of _ joined], rule exI [of _ copied])
          (use saw d True in \<open>auto simp: replies_def server_log_def server_datagram_log_def\<close>)
      with d True show ?thesis by (simp add: server_log_def server_datagram_log_def)
    next
      case False
      with datagram saw show ?thesis by (auto simp: server_saw_def server_log_def replies_def)
    qed
    then show "answered (and_then (peer_call AwaitClosed (\<lambda>_. ())) (\<lambda>_. println ''OK: server finished.''))
        (\<lambda>x as' es'. ?Q (accepting # joined # a3 # copied # a5 # (as @ as')) (?front remote echoed (es @ es')))"
      by (intro answered_await) (auto simp: answered_def println_def and_then_def emit_def ret_def)
  qed
  show ?thesis
    unfolding peer_run_server_def
    by (rule answered_ask, rule answered_ask, rule answered_print, rule answered_ask, rule answered_ask,
        rule answered_ask, rule answered_print, rule ends)
      (simp_all split: if_splits)
qed

lemma session_answered:
  "answered (case pc_role cli of PeerServer \<Rightarrow> peer_run_server H cli | PeerClient \<Rightarrow> peer_run_client D H up cli)
     (\<lambda>_ as es. session_log D H up cli as es)"
  using client_answered [of D H up cli] server_answered [of H cli]
  by (cases "pc_role cli") (simp_all add: session_log_def)

lemma peer_main_answered:
  assumes "peer_parse_args args = Inr cli"
  shows "answered (peer_main D H up args) (\<lambda>_ as es. \<exists>bound closed as' log own_id addr more.
     as = bound # as' @ [closed] \<and> pa_bound bound = Inr (own_id, addr # more) \<and> session_log D H up cli as' log
     \<and> es = [BindLoopback [PEER_ALPN], Print (''endpoint-id '' @ hex_encode H own_id), Print (''direct-addr '' @ addr)]
         @ log @ [CloseEndpoint])"
  unfolding peer_main_def assms sum.case
proof (rule answered_ask, clarify, rule answered_print, rule answered_verdict, rule answered_print,
    rule answered_try [OF session_answered], rule answered_await, rule answered_ret)
  fix bound :: peer_answer and own_id sockets addr and as :: "peer_answer list" and log closed
  assume "pa_bound bound = Inr (own_id, sockets)" "session_log D H up cli as log"
    and "(case sockets of [] \<Rightarrow> Inl ''no bound socket'' | addr # _ \<Rightarrow> Inr addr) = Inr addr"
  then show "\<exists>bound' closed' as' log' own_id' addr' more.
      bound # as @ [closed] = bound' # as' @ [closed'] \<and> pa_bound bound' = Inr (own_id', addr' # more)
      \<and> session_log D H up cli as' log'
      \<and> BindLoopback [PEER_ALPN] # Print (''endpoint-id '' @ hex_encode H own_id) # Print (''direct-addr '' @ addr)
          # log @ [CloseEndpoint]
        = [BindLoopback [PEER_ALPN], Print (''endpoint-id '' @ hex_encode H own_id'), Print (''direct-addr '' @ addr')]
            @ log' @ [CloseEndpoint]"
    by (auto split: list.splits)
qed

lemma env_unit [simp]: "env_respects (=) (w :: (unit, 'r, 'e) world)"
  by (simp add: env_respects_def)

lemma delivers_run:
  assumes "delivers A b t Q" and "w_log w = b" and "t w = (r, w')"
  shows "r \<noteq> Panicked p" and "r \<noteq> Diverged" and "r = Done (Inr x) \<Longrightarrow> Q x (w_log w')"
    and "r = Waiting \<or> r = Done (Inl e) \<Longrightarrow> A (peer_calls (w_log w'))"
  using tripleD [OF assms(1) [unfolded delivers_def] env_unit _ assms(3)] assms(2) by auto

subsection \<open>The two demos understand each other\<close>

lemma lossy_id: "utf8_valid (string_bytes s) \<Longrightarrow> from_utf8_lossy (string_bytes s) = s"
  by (simp add: from_utf8_lossy_def utf8_lossy_id string_bytes_def comp_def)

lemma peer_accepts_demo_echo:
  assumes "length message \<le> SUMMARY_LIMIT" and "utf8_valid (string_bytes message)"
    and "utf8_valid (string_bytes (to_uppercase message))"
  shows "peer_check_echo to_uppercase message (fst (server_echo to_uppercase (string_bytes message))) = Inr ()"
proof -
  have "length (string_bytes message) = length message" by (simp add: string_bytes_def)
  with assms show ?thesis by (auto simp: server_echo_def peer_check_echo_def lossy_id Let_def)
qed

text \<open>A longer message comes back as it was sent, which the peer refuses unless it has no case.\<close>

lemma peer_rejects_bulk_echo:
  assumes "SUMMARY_LIMIT < length message" and "utf8_valid (string_bytes message)" and "to_uppercase message \<noteq> message"
  shows "\<exists>e. peer_check_echo to_uppercase message (fst (server_echo to_uppercase (string_bytes message))) = Inl e"
proof -
  have "length (string_bytes message) = length message" by (simp add: string_bytes_def)
  with assms show ?thesis by (auto simp: server_echo_def peer_check_echo_def lossy_id Let_def)
qed

section \<open>Properties\<close>

text \<open>C32. The interop peer does what its transcript says: on any behaviour of iroh it neither panics nor spins,
  and a run that succeeds has bound one loopback endpoint under the demo's protocol, announced the identifier and the
  first socket the library gave it, and then either dialed the 32-byte identifier and address it was given, sent
  exactly its message, read an echo that decodes to its uppercase form (and, after three copies of its datagram, read
  exactly that datagram) and closed with code 0; or accepted one connection, named its remote identifier, copied its
  stream back and counted what the copy counted, and echoed the very datagram it read in three copies. Every call
  took one answer of the library, in order; both sides close the endpoint last.\<close>

theorem peer_main_transcript:
  assumes "w_log w = []" and "peer_main D H to_uppercase args w = (r, w')"
  shows "(\<forall>p. r \<noteq> Panicked p) \<and> r \<noteq> Diverged
     \<and> (\<forall>u. r = Done (Inr u) \<longrightarrow>
          (\<exists>cli bound closed as own_id addr more log.
             peer_parse_args args = Inr cli
             \<and> map fst (w_script w) = bound # as @ closed # map fst (w_script w')
             \<and> pa_bound bound = Inr (own_id, addr # more) \<and> session_log D H to_uppercase cli as log
             \<and> w_log w' = [BindLoopback [PEER_ALPN], Print (''endpoint-id '' @ hex_encode H own_id),
                  Print (''direct-addr '' @ addr)] @ log @ [CloseEndpoint]))"
proof (cases "peer_parse_args args")
  case (Inl e)
  with assms(2) show ?thesis by (auto simp: peer_main_def ret_def)
next
  case (Inr cli)
  have "delivers (\<lambda>_. True) [] (peer_main D H to_uppercase args) (\<lambda>_ _. True)"
    unfolding peer_main_def Inr sum.case
    by (rule delivers_step [OF delivers_call], simp, clarify, rule delivers_step [OF delivers_print],
        rule delivers_step [where P = "\<lambda>_. True", OF delivers_ret], simp, simp, rule delivers_step [OF delivers_print],
        rule delivers_try [OF session_delivers], rule delivers_await, simp, rule delivers_ret)
      simp_all
  note safe = delivers_run(1,2) [OF this assms]
  have "\<exists>bound closed as own_id addr more log.
      map fst (w_script w) = bound # as @ closed # map fst (w_script w')
      \<and> pa_bound bound = Inr (own_id, addr # more) \<and> session_log D H to_uppercase cli as log
      \<and> w_log w' = [BindLoopback [PEER_ALPN], Print (''endpoint-id '' @ hex_encode H own_id),
           Print (''direct-addr '' @ addr)] @ log @ [CloseEndpoint]" if "r = Done (Inr u)" for u
    using peer_main_answered [OF Inr, of D H to_uppercase, unfolded answered_def] assms that by fastforce
  with safe show ?thesis by (simp add: Inr)
qed

section \<open>Witnesses\<close>

definition toy_peer_answer :: "bytes \<Rightarrow> peer_answer" where
  "toy_peer_answer bs =
     \<lparr>pa_bound = Inr ([7], [''127.0.0.1:9'']), pa_accepts = True, pa_remote = Inr [9], pa_copied = Inr 1,
      pa_bytes = Inr bs, pa_unit = Inr ()\<rparr>"

definition toy_peer_deps :: peer_deps where
  "toy_peer_deps = \<lparr>pd_id_from_bytes = Inr, pd_parse_addr = (\<lambda>_. Inr (V4 (127, 0, 0, 1) 9))\<rparr>"

definition toy_peer_world :: "(unit, peer_answer, peer_effect) world" where
  "toy_peer_world =
     \<lparr>w_now = 0, w_state = (),
      w_script = map (\<lambda>bs. (toy_peer_answer bs, 1, id))
        [[], [], [], [], [], [104], [], [], [], string_bytes ''datagram h'', []],
      w_log = []\<rparr>"

definition toy_peer_args :: "string list" where
  "toy_peer_args = [''--role'', ''client'', ''--datagram'', ''--message'', ''h'', ''--peer'', replicate 32 CHR ''k'', ''--direct'', ''a'']"

lemma toy_peer_run: "\<exists>w'. peer_main toy_peer_deps toy_hex id toy_peer_args toy_peer_world = (Done (Inr ()), w')"
proof -
  have h: "from_utf8_lossy [104] = ''h''" by code_simp
  have args: "peer_parse_args toy_peer_args = Inr \<lparr>pc_role = PeerClient, pc_peer = Some (replicate 32 CHR ''k''),
      pc_direct = Some ''a'', pc_datagram = True, pc_message = ''h''\<rparr>"
    by (simp add: peer_parse_args_def toy_peer_args_def peer_flag_def peer_defaults_def)
  show ?thesis
    by (simp add: peer_main_def args peer_run_client_def peer_target_def toy_peer_deps_def toy_hex_def string_bytes_def h
        peer_client_datagram_def PEER_DATAGRAM_COPIES_def numeral_3_eq_3 peer_check_echo_def Let_def try_then_def and_then_def peer_call_def println_def emit_def ret_def
        await_def toy_peer_world_def toy_peer_answer_def)
qed

theorem peer_main_transcript_witness:
  "\<exists>w'. peer_main toy_peer_deps toy_hex id toy_peer_args toy_peer_world = (Done (Inr ()), w')
     \<and> w_log w' = [BindLoopback [PEER_ALPN], Print (''endpoint-id '' @ hex_encode toy_hex [7]), Print ''direct-addr 127.0.0.1:9'']
         @ client_log id \<lparr>pc_role = PeerClient, pc_peer = Some (replicate 32 CHR ''k''), pc_direct = Some ''a'',
             pc_datagram = True, pc_message = ''h''\<rparr> (string_bytes (replicate 32 CHR ''k'')) (V4 (127, 0, 0, 1) 9) @ [CloseEndpoint]"
proof -
  have args: "peer_parse_args toy_peer_args = Inr \<lparr>pc_role = PeerClient, pc_peer = Some (replicate 32 CHR ''k''),
      pc_direct = Some ''a'', pc_datagram = True, pc_message = ''h''\<rparr>"
    by (simp add: peer_parse_args_def toy_peer_args_def peer_flag_def peer_defaults_def)
  obtain w' where run: "peer_main toy_peer_deps toy_hex id toy_peer_args toy_peer_world = (Done (Inr ()), w')"
    using toy_peer_run by blast
  have "w_log toy_peer_world = []" by (simp add: toy_peer_world_def)
  from peer_main_transcript [OF this run] run args show ?thesis
    by (auto simp: session_log_def client_saw_def peer_target_def toy_peer_deps_def toy_hex_def string_bytes_def
        toy_peer_world_def toy_peer_answer_def)
qed

end
