(* ===== verification/Virt_Io.thy ===== *)
theory Virt_Io
  imports Virt
begin

text \<open>
  The rest of the virtualization layer \<open>experiments/udp-wake/virt/src/lib.rs\<close>: the exported streams, clock
  and standard streams, which pass through to the host with their errors wrapped; the constant answers of
  the UDP socket; and the TCP stubs. The host's own streams and clock are arguments: each operation is a
  function of the host's state. The lemmas show that the layer is transparent, where the UDP socket departs
  from the interface it exports, and that TCP is refused everywhere.
\<close>

section \<open>Definitions\<close>

subsection \<open>Errors\<close>

datatype 'e stream_error = LastOperationFailed 'e | StreamClosed

datatype 'e verror = VError 'e

definition verror_to_debug_string :: "('e \<Rightarrow> string) \<Rightarrow> 'e verror \<Rightarrow> string" where
  "verror_to_debug_string to_debug_string v = (case v of VError e \<Rightarrow> to_debug_string e)"

definition conv_err :: "'e stream_error \<Rightarrow> 'e verror stream_error" where
  "conv_err e =
     (case e of
        LastOperationFailed err \<Rightarrow> LastOperationFailed (VError err)
      | StreamClosed \<Rightarrow> StreamClosed)"

definition host_pollable :: "nat \<Rightarrow> inner" where
  "host_pollable p = HostPollable p"

subsection \<open>Streams\<close>

text \<open>A host operation on a stream, by the state of the host, and the same with its error converted.\<close>

type_synonym ('h, 'e, 'a) stream_op = "'h \<Rightarrow> ('e stream_error + 'a) \<times> 'h"

definition mapped_err :: "('h, 'e, 'a) stream_op \<Rightarrow> ('h, 'e verror, 'a) stream_op" where
  "mapped_err op h = (case op h of (r, h') \<Rightarrow> (map_err conv_err r, h'))"

text \<open>The host's operations on its streams, which are named by handles.\<close>

record ('h, 'e) host_streams =
  hs_read :: "nat \<Rightarrow> u64 \<Rightarrow> ('h, 'e, bytes) stream_op"
  hs_blocking_read :: "nat \<Rightarrow> u64 \<Rightarrow> ('h, 'e, bytes) stream_op"
  hs_skip :: "nat \<Rightarrow> u64 \<Rightarrow> ('h, 'e, u64) stream_op"
  hs_blocking_skip :: "nat \<Rightarrow> u64 \<Rightarrow> ('h, 'e, u64) stream_op"
  hs_subscribe_in :: "nat \<Rightarrow> 'h \<Rightarrow> nat \<times> 'h"
  hs_check_write :: "nat \<Rightarrow> ('h, 'e, u64) stream_op"
  hs_write :: "nat \<Rightarrow> bytes \<Rightarrow> ('h, 'e, unit) stream_op"
  hs_write_zeroes :: "nat \<Rightarrow> u64 \<Rightarrow> ('h, 'e, unit) stream_op"
  hs_blocking_write_and_flush :: "nat \<Rightarrow> bytes \<Rightarrow> ('h, 'e, unit) stream_op"
  hs_blocking_write_zeroes_and_flush :: "nat \<Rightarrow> u64 \<Rightarrow> ('h, 'e, unit) stream_op"
  hs_flush :: "nat \<Rightarrow> ('h, 'e, unit) stream_op"
  hs_blocking_flush :: "nat \<Rightarrow> ('h, 'e, unit) stream_op"
  hs_splice :: "nat \<Rightarrow> nat \<Rightarrow> u64 \<Rightarrow> ('h, 'e, u64) stream_op"
  hs_blocking_splice :: "nat \<Rightarrow> nat \<Rightarrow> u64 \<Rightarrow> ('h, 'e, u64) stream_op"
  hs_subscribe_out :: "nat \<Rightarrow> 'h \<Rightarrow> nat \<times> 'h"

datatype vinput = VInput nat

datatype voutput = VOutput nat

primrec vinput_read :: "('h, 'e, 'z) host_streams_scheme \<Rightarrow> vinput \<Rightarrow> u64 \<Rightarrow> ('h, 'e verror, bytes) stream_op" where
  "vinput_read S (VInput i) len = mapped_err (hs_read S i len)"

primrec vinput_blocking_read :: "('h, 'e, 'z) host_streams_scheme \<Rightarrow> vinput \<Rightarrow> u64 \<Rightarrow> ('h, 'e verror, bytes) stream_op" where
  "vinput_blocking_read S (VInput i) len = mapped_err (hs_blocking_read S i len)"

primrec vinput_skip :: "('h, 'e, 'z) host_streams_scheme \<Rightarrow> vinput \<Rightarrow> u64 \<Rightarrow> ('h, 'e verror, u64) stream_op" where
  "vinput_skip S (VInput i) len = mapped_err (hs_skip S i len)"

primrec vinput_blocking_skip :: "('h, 'e, 'z) host_streams_scheme \<Rightarrow> vinput \<Rightarrow> u64 \<Rightarrow> ('h, 'e verror, u64) stream_op" where
  "vinput_blocking_skip S (VInput i) len = mapped_err (hs_blocking_skip S i len)"

primrec vinput_subscribe :: "('h, 'e, 'z) host_streams_scheme \<Rightarrow> vinput \<Rightarrow> 'h \<Rightarrow> inner \<times> 'h" where
  "vinput_subscribe S (VInput i) = (\<lambda>h. map_prod host_pollable id (hs_subscribe_in S i h))"

primrec voutput_check_write :: "('h, 'e, 'z) host_streams_scheme \<Rightarrow> voutput \<Rightarrow> ('h, 'e verror, u64) stream_op" where
  "voutput_check_write S (VOutput i) = mapped_err (hs_check_write S i)"

primrec voutput_write :: "('h, 'e, 'z) host_streams_scheme \<Rightarrow> voutput \<Rightarrow> bytes \<Rightarrow> ('h, 'e verror, unit) stream_op" where
  "voutput_write S (VOutput i) contents = mapped_err (hs_write S i contents)"

primrec voutput_write_zeroes :: "('h, 'e, 'z) host_streams_scheme \<Rightarrow> voutput \<Rightarrow> u64 \<Rightarrow> ('h, 'e verror, unit) stream_op" where
  "voutput_write_zeroes S (VOutput i) len = mapped_err (hs_write_zeroes S i len)"

primrec voutput_blocking_write_and_flush ::
  "('h, 'e, 'z) host_streams_scheme \<Rightarrow> voutput \<Rightarrow> bytes \<Rightarrow> ('h, 'e verror, unit) stream_op" where
  "voutput_blocking_write_and_flush S (VOutput i) contents = mapped_err (hs_blocking_write_and_flush S i contents)"

primrec voutput_blocking_write_zeroes_and_flush ::
  "('h, 'e, 'z) host_streams_scheme \<Rightarrow> voutput \<Rightarrow> u64 \<Rightarrow> ('h, 'e verror, unit) stream_op" where
  "voutput_blocking_write_zeroes_and_flush S (VOutput i) len = mapped_err (hs_blocking_write_zeroes_and_flush S i len)"

primrec voutput_flush :: "('h, 'e, 'z) host_streams_scheme \<Rightarrow> voutput \<Rightarrow> ('h, 'e verror, unit) stream_op" where
  "voutput_flush S (VOutput i) = mapped_err (hs_flush S i)"

primrec voutput_blocking_flush :: "('h, 'e, 'z) host_streams_scheme \<Rightarrow> voutput \<Rightarrow> ('h, 'e verror, unit) stream_op" where
  "voutput_blocking_flush S (VOutput i) = mapped_err (hs_blocking_flush S i)"

fun voutput_splice ::
  "('h, 'e, 'z) host_streams_scheme \<Rightarrow> voutput \<Rightarrow> vinput \<Rightarrow> u64 \<Rightarrow> ('h, 'e verror, u64) stream_op" where
  "voutput_splice S (VOutput i) (VInput src) len = mapped_err (hs_splice S i src len)"

fun voutput_blocking_splice ::
  "('h, 'e, 'z) host_streams_scheme \<Rightarrow> voutput \<Rightarrow> vinput \<Rightarrow> u64 \<Rightarrow> ('h, 'e verror, u64) stream_op" where
  "voutput_blocking_splice S (VOutput i) (VInput src) len = mapped_err (hs_blocking_splice S i src len)"

primrec voutput_subscribe :: "('h, 'e, 'z) host_streams_scheme \<Rightarrow> voutput \<Rightarrow> 'h \<Rightarrow> inner \<times> 'h" where
  "voutput_subscribe S (VOutput i) = (\<lambda>h. map_prod host_pollable id (hs_subscribe_out S i h))"

subsection \<open>Clock and standard streams\<close>

record 'h host_clock =
  hc_now :: "'h \<Rightarrow> u64 \<times> 'h"
  hc_resolution :: "'h \<Rightarrow> u64 \<times> 'h"
  hc_subscribe_instant :: "u64 \<Rightarrow> 'h \<Rightarrow> nat \<times> 'h"
  hc_subscribe_duration :: "u64 \<Rightarrow> 'h \<Rightarrow> nat \<times> 'h"

definition vclock_now :: "('h, 'z) host_clock_scheme \<Rightarrow> 'h \<Rightarrow> u64 \<times> 'h" where
  "vclock_now C = hc_now C"

definition vclock_resolution :: "('h, 'z) host_clock_scheme \<Rightarrow> 'h \<Rightarrow> u64 \<times> 'h" where
  "vclock_resolution C = hc_resolution C"

definition subscribe_instant :: "('h, 'z) host_clock_scheme \<Rightarrow> u64 \<Rightarrow> 'h \<Rightarrow> inner \<times> 'h" where
  "subscribe_instant C when_ns h = map_prod host_pollable id (hc_subscribe_instant C when_ns h)"

definition subscribe_duration :: "('h, 'z) host_clock_scheme \<Rightarrow> u64 \<Rightarrow> 'h \<Rightarrow> inner \<times> 'h" where
  "subscribe_duration C when_ns h = map_prod host_pollable id (hc_subscribe_duration C when_ns h)"

record 'h host_stdio =
  hd_stdin :: "'h \<Rightarrow> nat \<times> 'h"
  hd_stdout :: "'h \<Rightarrow> nat \<times> 'h"
  hd_stderr :: "'h \<Rightarrow> nat \<times> 'h"

definition get_stdin :: "('h, 'z) host_stdio_scheme \<Rightarrow> 'h \<Rightarrow> vinput \<times> 'h" where
  "get_stdin D h = map_prod VInput id (hd_stdin D h)"

definition get_stdout :: "('h, 'z) host_stdio_scheme \<Rightarrow> 'h \<Rightarrow> voutput \<times> 'h" where
  "get_stdout D h = map_prod VOutput id (hd_stdout D h)"

definition get_stderr :: "('h, 'z) host_stdio_scheme \<Rightarrow> 'h \<Rightarrow> voutput \<times> 'h" where
  "get_stderr D h = map_prod VOutput id (hd_stderr D h)"

subsection \<open>The rest of the UDP socket\<close>

datatype vincoming = VIncoming nat

datatype voutgoing = VOutgoing

definition vudp_stream :: "ip_socket_address option \<Rightarrow> vudp \<Rightarrow> socket_error + vincoming \<times> voutgoing" where
  "vudp_stream remote u = Inr (VIncoming (vu_shared u), VOutgoing)"

definition vudp_remote_address :: "vudp \<Rightarrow> socket_error + ip_socket_address" where
  "vudp_remote_address u = Inl InvalidState"

definition unicast_hop_limit :: "vudp \<Rightarrow> socket_error + u8" where
  "unicast_hop_limit u = Inr 64"

definition set_unicast_hop_limit :: "u8 \<Rightarrow> vudp \<Rightarrow> (socket_error + unit) \<times> vudp" where
  "set_unicast_hop_limit value u = (Inr (), u)"

definition receive_buffer_size :: "vudp \<Rightarrow> socket_error + u64" where
  "receive_buffer_size u = Inr 65536"

definition set_receive_buffer_size :: "u64 \<Rightarrow> vudp \<Rightarrow> (socket_error + unit) \<times> vudp" where
  "set_receive_buffer_size value u = (Inr (), u)"

definition send_buffer_size :: "vudp \<Rightarrow> socket_error + u64" where
  "send_buffer_size u = Inr 65536"

definition set_send_buffer_size :: "u64 \<Rightarrow> vudp \<Rightarrow> (socket_error + unit) \<times> vudp" where
  "set_send_buffer_size value u = (Inr (), u)"

definition vudp_address_family :: "vudp \<Rightarrow> ip_address_family" where
  "vudp_address_family u = FamilyIpv4"

primrec vincoming_receive :: "u64 \<Rightarrow> vincoming \<Rightarrow> virt \<Rightarrow> (socket_error + incoming_datagram list) \<times> virt" where
  "vincoming_receive max_results (VIncoming i) = (\<lambda>v. map_prod Inr id (receive max_results i v))"

primrec vincoming_subscribe :: "vincoming \<Rightarrow> inner" where
  "vincoming_subscribe (VIncoming i) = UdpIncoming i"

definition check_send :: "voutgoing \<Rightarrow> socket_error + u64" where
  "check_send o' = Inr 64"

definition voutgoing_subscribe :: "voutgoing \<Rightarrow> inner" where
  "voutgoing_subscribe o' = AlwaysReady"

subsection \<open>TCP\<close>

text \<open>The methods of a TCP socket, each a constant.\<close>

datatype tcp_method =
    TcpStartBind | TcpFinishBind | TcpStartConnect | TcpFinishConnect | TcpStartListen | TcpFinishListen | TcpAccept
  | TcpLocalAddress | TcpRemoteAddress | TcpSetListenBacklogSize | TcpKeepAliveEnabled | TcpSetKeepAliveEnabled
  | TcpKeepAliveIdleTime | TcpSetKeepAliveIdleTime | TcpKeepAliveInterval | TcpSetKeepAliveInterval | TcpKeepAliveCount
  | TcpSetKeepAliveCount | TcpHopLimit | TcpSetHopLimit | TcpReceiveBufferSize | TcpSetReceiveBufferSize
  | TcpSendBufferSize | TcpSetSendBufferSize | TcpShutdown

definition tcp_call :: "tcp_method \<Rightarrow> socket_error + 'a" where
  "tcp_call m =
     (case m of
        TcpLocalAddress \<Rightarrow> Inl InvalidState
      | TcpRemoteAddress \<Rightarrow> Inl InvalidState
      | _ \<Rightarrow> Inl NotSupported)"

definition tcp_is_listening :: bool where
  "tcp_is_listening = False"

definition tcp_address_family :: ip_address_family where
  "tcp_address_family = FamilyIpv4"

definition tcp_subscribe :: inner where
  "tcp_subscribe = Never"

definition create_tcp_socket :: "ip_address_family \<Rightarrow> socket_error + 'a" where
  "create_tcp_socket family = Inl NotSupported"
section \<open>Lemmas\<close>

subsection \<open>Transparency\<close>

text \<open>A guest that chooses its next operation by the replies so far, for at most \<open>n\<close> operations.\<close>

primrec interact ::
  "nat \<Rightarrow> ('op \<Rightarrow> 'h \<Rightarrow> 'r \<times> 'h) \<Rightarrow> ('r list \<Rightarrow> 'op option) \<Rightarrow> 'r list \<Rightarrow> 'h \<Rightarrow> 'r list \<times> 'h" where
  "interact 0 perform guest rs h = (rs, h)"
| "interact (Suc n) perform guest rs h =
     (case guest rs of
        None \<Rightarrow> (rs, h)
      | Some op \<Rightarrow> (case perform op h of (r, h') \<Rightarrow> interact n perform guest (rs @ [r]) h'))"

text \<open>A layer whose operations act on the host as the host's own do and only wrap the reply.\<close>

locale transparent_layer =
  fixes low :: "'op \<Rightarrow> 'h \<Rightarrow> 'r \<times> 'h"
    and high :: "'op \<Rightarrow> 'h \<Rightarrow> 's \<times> 'h"
    and wrap :: "'r \<Rightarrow> 's"
  assumes passes: "high op h = map_prod wrap id (low op h)"
    and wrap_inj: "inj wrap"
begin

lemma interact_transparent:
  "interact n high guest (map wrap rs) h = map_prod (map wrap) id (interact n low (guest \<circ> map wrap) rs h)"
proof (induction n arbitrary: rs h)
  case (Suc n)
  show ?case
  proof (cases "guest (map wrap rs)")
    case (Some op)
    obtain r h' where "low op h = (r, h')" by force
    with Some Suc [of "rs @ [r]" h'] show ?thesis by (simp add: passes)
  qed simp
qed simp

text \<open>Nothing of the host's replies is lost.\<close>

lemma replies_recovered: "map (inv wrap) (fst (interact n high guest [] h)) = fst (interact n low (guest \<circ> map wrap) [] h)"
proof -
  have "fst (interact n high guest [] h) = map wrap (fst (interact n low (guest \<circ> map wrap) [] h))"
    using interact_transparent [of n guest "[]" h] by simp
  then show ?thesis using wrap_inj by (simp add: map_idI)
qed

end

datatype stream_request =
    Read nat u64 | BlockingRead nat u64 | Skip nat u64 | BlockingSkip nat u64 | CheckWrite nat | Write nat bytes
  | WriteZeroes nat u64 | BlockingWriteAndFlush nat bytes | BlockingWriteZeroesAndFlush nat u64 | Flush nat
  | BlockingFlush nat | Splice nat nat u64 | BlockingSplice nat nat u64

datatype stream_value = Bytes bytes | Count u64 | Unit

definition valued :: "('a \<Rightarrow> stream_value) \<Rightarrow> ('h, 'e, 'a) stream_op \<Rightarrow> ('h, 'e, stream_value) stream_op" where
  "valued f op h = map_prod (map_sum id f) id (op h)"

primrec host_request :: "('h, 'e, 'z) host_streams_scheme \<Rightarrow> stream_request \<Rightarrow> ('h, 'e, stream_value) stream_op" where
  "host_request S (Read i len) = valued Bytes (hs_read S i len)"
| "host_request S (BlockingRead i len) = valued Bytes (hs_blocking_read S i len)"
| "host_request S (Skip i len) = valued Count (hs_skip S i len)"
| "host_request S (BlockingSkip i len) = valued Count (hs_blocking_skip S i len)"
| "host_request S (CheckWrite i) = valued Count (hs_check_write S i)"
| "host_request S (Write i bs) = valued (\<lambda>_. Unit) (hs_write S i bs)"
| "host_request S (WriteZeroes i len) = valued (\<lambda>_. Unit) (hs_write_zeroes S i len)"
| "host_request S (BlockingWriteAndFlush i bs) = valued (\<lambda>_. Unit) (hs_blocking_write_and_flush S i bs)"
| "host_request S (BlockingWriteZeroesAndFlush i len) = valued (\<lambda>_. Unit) (hs_blocking_write_zeroes_and_flush S i len)"
| "host_request S (Flush i) = valued (\<lambda>_. Unit) (hs_flush S i)"
| "host_request S (BlockingFlush i) = valued (\<lambda>_. Unit) (hs_blocking_flush S i)"
| "host_request S (Splice i src len) = valued Count (hs_splice S i src len)"
| "host_request S (BlockingSplice i src len) = valued Count (hs_blocking_splice S i src len)"

primrec virt_request :: "('h, 'e, 'z) host_streams_scheme \<Rightarrow> stream_request \<Rightarrow> ('h, 'e verror, stream_value) stream_op" where
  "virt_request S (Read i len) = valued Bytes (vinput_read S (VInput i) len)"
| "virt_request S (BlockingRead i len) = valued Bytes (vinput_blocking_read S (VInput i) len)"
| "virt_request S (Skip i len) = valued Count (vinput_skip S (VInput i) len)"
| "virt_request S (BlockingSkip i len) = valued Count (vinput_blocking_skip S (VInput i) len)"
| "virt_request S (CheckWrite i) = valued Count (voutput_check_write S (VOutput i))"
| "virt_request S (Write i bs) = valued (\<lambda>_. Unit) (voutput_write S (VOutput i) bs)"
| "virt_request S (WriteZeroes i len) = valued (\<lambda>_. Unit) (voutput_write_zeroes S (VOutput i) len)"
| "virt_request S (BlockingWriteAndFlush i bs) = valued (\<lambda>_. Unit) (voutput_blocking_write_and_flush S (VOutput i) bs)"
| "virt_request S (BlockingWriteZeroesAndFlush i len) = valued (\<lambda>_. Unit) (voutput_blocking_write_zeroes_and_flush S (VOutput i) len)"
| "virt_request S (Flush i) = valued (\<lambda>_. Unit) (voutput_flush S (VOutput i))"
| "virt_request S (BlockingFlush i) = valued (\<lambda>_. Unit) (voutput_blocking_flush S (VOutput i))"
| "virt_request S (Splice i src len) = valued Count (voutput_splice S (VOutput i) (VInput src) len)"
| "virt_request S (BlockingSplice i src len) = valued Count (voutput_blocking_splice S (VOutput i) (VInput src) len)"

lemma valued_mapped: "valued f (mapped_err op) h = map_prod (map_err conv_err) id (valued f op h)"
  by (auto simp: valued_def mapped_err_def map_err_def split: prod.split sum.split)

lemma conv_err_inj: "inj conv_err"
  by (auto simp: inj_def conv_err_def split: stream_error.splits)

lemma map_err_inj: "inj f \<Longrightarrow> inj (map_err f :: 'e + 'a \<Rightarrow> 'f + 'a)"
  by (auto simp: inj_def map_err_def split: sum.splits)

interpretation virt_streams: transparent_layer "host_request S" "virt_request S" "map_err conv_err" for S
proof unfold_locales
  show "virt_request S op h = map_prod (map_err conv_err) id (host_request S op h)" for op h
    by (cases op) (simp_all add: valued_mapped)
  show "inj (map_err conv_err)" by (intro map_err_inj conv_err_inj)
qed

text \<open>A guest on the exported streams does to the host what it would do on the host's own streams, and sees the
  same replies up to the wrapping of errors, which keeps their text.\<close>

theorem virt_streams_transparent:
  "(\<exists>rs h'. interact n (host_request S) (guest \<circ> map (map_err conv_err)) [] h = (rs, h')
       \<and> interact n (virt_request S) guest [] h = (map (map_err conv_err) rs, h'))
   \<and> verror_to_debug_string to_debug (VError e) = to_debug e"
proof -
  obtain rs h' where "interact n (host_request S) (guest \<circ> map (map_err conv_err)) [] h = (rs, h')" by force
  with virt_streams.interact_transparent [of n S guest "[]" h] show ?thesis by (simp add: verror_to_debug_string_def)
qed

subsection \<open>The UDP socket against its interface\<close>

text \<open>Binding again replaces the address, and an unbound socket streams: the interface asks for
  \<open>invalid-state\<close> in both cases.\<close>

lemma bound_socket_rebinds:
  "vu_state u = Bound a \<Longrightarrow> snd (finish_bind (snd (start_bind b u))) = u\<lparr>vu_state := Bound b\<rparr>"
  by (simp add: start_bind_def finish_bind_def)

lemma unbound_socket_streams: "vu_state u = Unbound \<Longrightarrow> vudp_stream remote u = Inr (VIncoming (vu_shared u), VOutgoing)"
  by (simp add: vudp_stream_def)

text \<open>The remote given to \<open>stream\<close> filters nothing.\<close>

lemma stream_ignores_remote:
  "vudp_stream (Some remote) u = vudp_stream None u"
  by (simp add: vudp_stream_def)

text \<open>More datagrams than \<open>check-send\<close> permits are all sent.\<close>

lemma send_exceeds_permit:
  "check_send o' = Inr 64 \<and> fst (outgoing_send ds w) = Done (Inr (of_nat (length ds)))
     \<and> w_log (snd (outgoing_send ds w)) = w_log w @ map send_effect ds"
  by (simp add: check_send_def outgoing_send_def and_then_def emit_def ret_def)

subsection \<open>TCP\<close>

lemma tcp_refused: "\<exists>e. tcp_call m = Inl e \<and> create_tcp_socket family = Inl NotSupported"
  by (auto simp: tcp_call_def create_tcp_socket_def split: tcp_method.split)

text \<open>Waiting for TCP alone is a panic, not a hang.\<close>

lemma tcp_poll_panics: "ps \<noteq> [] \<Longrightarrow> set ps \<subseteq> {tcp_subscribe} \<Longrightarrow> \<exists>p w'. poll ps w = (Panicked p, w')"
proof -
  assume ps: "ps \<noteq> []" "set ps \<subseteq> {tcp_subscribe}"
  have scan: "scan_ready i ps v = ([], v)" for i v
    using ps(2) by (induction ps arbitrary: i v) (auto simp: ready_local_def tcp_subscribe_def)
  have none: "host_back i ps = Inr []" for i
    using ps(2) by (induction ps arbitrary: i) (auto simp: tcp_subscribe_def)
  show ?thesis using ps(1) by (simp add: poll_def poll_loop.simps [of ps w] scan none)
qed

end
