(* ===== verification/Wake.thy ===== *)
theory Wake
  imports Loops Sockets
begin

text \<open>
  Model of \<open>experiments/udp-wake/guest/src/main.rs\<close>, the probe guest of the wake-up experiment: a task that
  receives datagrams and hands them through a bounded channel to the main task, which echoes them between
  timer ticks. The two tasks run on one thread and interleave at their awaits, in any order the runtime
  chooses: a step relation whose labels are what the runtime and the socket do. The lemmas show that nothing
  is lost, repeated or reordered on the way, that the guest is never stuck, that its own steps alone deliver all
  it received, and that it ends after \<open>quit\<close>.
\<close>

section \<open>Definitions\<close>

definition WAKE_CHANNEL :: nat where
  "WAKE_CHANNEL = 64"

definition WAKE_BUF :: nat where
  "WAKE_BUF = 2048"

type_synonym packet = "bytes \<times> socket_addr"

text \<open>Where the receiving task is: not spawned yet, at the socket, at the channel with a packet, or ended.\<close>

datatype recv_task = Unspawned | AtSocket | AtChannel packet | RecvEnded

text \<open>Where the main task is: binding, in the select, sending an echo, in the last sleep, or ended. A failed
  \<open>expect\<close> in either task aborts the guest, as panics do on its target.\<close>

datatype main_task = Binding | Selecting | Echoing packet | Sleeping | Exited | Aborted string

record wake =
  wk_main :: main_task
  wk_recv :: recv_task
  wk_channel :: "packet list"
  wk_ticks :: u32
  wk_echoed :: u32
  wk_lines :: "string list"
  wk_sent :: "packet list"
  wk_got :: "packet list"

text \<open>The last two fields record what was sent on the socket and what arrived at it, before the receive buffer cuts it.\<close>

definition wake_start :: wake where
  "wake_start =
     \<lparr>wk_main = Binding, wk_recv = Unspawned, wk_channel = [], wk_ticks = 0, wk_echoed = 0,
      wk_lines = [''guest: start''], wk_sent = [], wk_got = []\<rparr>"

text \<open>What happens next: the outcome of an await of one of the tasks.\<close>

datatype wake_event =
    Bound "string sresult sresult"
  | Received "packet sresult"
  | Queued
  | Dequeued
  | SentBack "unit sresult"
  | Tick
  | Slept nat

text \<open>The receiving task. The socket fills a buffer of 2048 bytes, cutting a longer datagram.\<close>

definition recv_step :: "packet sresult \<Rightarrow> wake \<Rightarrow> wake" where
  "recv_step r s =
     (case r of
        Inl _ \<Rightarrow> s\<lparr>wk_main := Aborted ''recv_from''\<rparr>
      | Inr (d, from) \<Rightarrow>
          (let data = take WAKE_BUF d;
               s' = s\<lparr>wk_got := wk_got s @ [(d, from)]\<rparr>
           in if data = string_bytes ''quit'' then s'\<lparr>wk_recv := RecvEnded\<rparr>
              else s'\<lparr>wk_recv := AtChannel (data, from)\<rparr>))"

text \<open>The main task leaves its loop when the channel is empty and closed, and joins the receiving task.\<close>

definition dequeue_step :: "wake \<Rightarrow> wake option" where
  "dequeue_step s =
     (case wk_channel s of
        x # rest \<Rightarrow> Some (s\<lparr>wk_channel := rest, wk_main := Echoing x\<rparr>)
      | [] \<Rightarrow>
          if wk_recv s = RecvEnded then Some (s\<lparr>wk_main := Sleeping\<rparr>) else None)"

definition finish_lines :: "nat \<Rightarrow> wake \<Rightarrow> string list" where
  "finish_lines took s =
     [''guest: final sleep 50ms took '' @ dec_string took @ ''ms'',
      ''guest: done echoed='' @ dec_string (unat (wk_echoed s)) @ '' ticks='' @ dec_string (unat (wk_ticks s)),
      ''guest: exit'']"

definition running :: "wake \<Rightarrow> bool" where
  "running s = (case wk_main s of Exited \<Rightarrow> False | Aborted _ \<Rightarrow> False | _ \<Rightarrow> True)"

text \<open>A step, where its task waits for that event. The main task drops its end of the channel only with the
  whole guest, so that handing over a packet only waits for room.\<close>

definition wake_step :: "wake_event \<Rightarrow> wake \<Rightarrow> wake option" where
  "wake_step ev s =
     (case ev of
        Bound r \<Rightarrow>
          if wk_main s \<noteq> Binding then None
          else Some (case r of
                 Inl _ \<Rightarrow> s\<lparr>wk_main := Aborted ''bind''\<rparr>
               | Inr (Inl _) \<Rightarrow> s\<lparr>wk_main := Aborted ''local_addr''\<rparr>
               | Inr (Inr addr) \<Rightarrow>
                   s\<lparr>wk_main := Selecting, wk_recv := AtSocket, wk_lines := wk_lines s @ [''guest: bound '' @ addr]\<rparr>)
      | Received r \<Rightarrow> if running s \<and> wk_recv s = AtSocket then Some (recv_step r s) else None
      | Queued \<Rightarrow>
          (case wk_recv s of
             AtChannel x \<Rightarrow>
               if running s \<and> length (wk_channel s) < WAKE_CHANNEL
               then Some (s\<lparr>wk_channel := wk_channel s @ [x], wk_recv := AtSocket\<rparr>) else None
           | _ \<Rightarrow> None)
      | Dequeued \<Rightarrow> if wk_main s = Selecting then dequeue_step s else None
      | SentBack r \<Rightarrow>
          (case wk_main s of
             Echoing x \<Rightarrow>
               Some (case r of
                       Inl _ \<Rightarrow> s\<lparr>wk_main := Aborted ''send_to''\<rparr>
                     | Inr _ \<Rightarrow>
                         s\<lparr>wk_main := Selecting, wk_sent := wk_sent s @ [x], wk_echoed := wk_echoed s + 1\<rparr>)
           | _ \<Rightarrow> None)
      | Tick \<Rightarrow>
          if wk_main s = Selecting
          then Some (s\<lparr>wk_ticks := wk_ticks s + 1,
                       wk_lines := wk_lines s @ [''guest: tick '' @ dec_string (unat (wk_ticks s + 1))]\<rparr>)
          else None
      | Slept took \<Rightarrow>
          if wk_main s = Sleeping
          then Some (s\<lparr>wk_main := Exited, wk_lines := wk_lines s @ finish_lines took s\<rparr>) else None)"

inductive wake_moves :: "wake \<Rightarrow> wake \<Rightarrow> bool" where
  moves: "wake_step ev s = Some t \<Longrightarrow> wake_moves s t"

text \<open>A schedule: the events in their order.\<close>

fun wake_run :: "wake_event list \<Rightarrow> wake \<Rightarrow> wake option" where
  "wake_run [] s = Some s"
| "wake_run (ev # evs) s = (case wake_step ev s of None \<Rightarrow> None | Some t \<Rightarrow> wake_run evs t)"

section \<open>Lemmas\<close>

subsection \<open>Conservation\<close>

text \<open>The packets between the socket and the echo, oldest first.\<close>

definition in_hand :: "main_task \<Rightarrow> packet list" where
  "in_hand m = (case m of Echoing x \<Rightarrow> [x] | _ \<Rightarrow> [])"

definition at_channel :: "recv_task \<Rightarrow> packet list" where
  "at_channel r = (case r of AtChannel x \<Rightarrow> [x] | _ \<Rightarrow> [])"

definition is_quit :: "packet \<Rightarrow> bool" where
  "is_quit x \<longleftrightarrow> fst x = string_bytes ''quit''"

text \<open>What the receive buffer keeps of a datagram, and what of the arrivals is to be echoed.\<close>

definition cut :: "packet \<Rightarrow> packet" where
  "cut x = (take WAKE_BUF (fst x), snd x)"

definition to_echo :: "packet list \<Rightarrow> packet list" where
  "to_echo got = filter (\<lambda>x. \<not> is_quit x) (map cut got)"

lemma to_echo_snoc: "to_echo (got @ [x]) = to_echo got @ (if is_quit (cut x) then [] else [cut x])"
  by (simp add: to_echo_def)

definition wake_inv :: "wake \<Rightarrow> bool" where
  "wake_inv s \<longleftrightarrow>
     (\<exists>lost. to_echo (wk_got s)
           = wk_sent s @ in_hand (wk_main s) @ lost @ wk_channel s @ at_channel (wk_recv s)
         \<and> (lost \<noteq> [] \<longrightarrow> (\<exists>why. wk_main s = Aborted why)))
     \<and> length (wk_channel s) \<le> WAKE_CHANNEL
     \<and> wk_echoed s = of_nat (length (wk_sent s))
     \<and> (wk_recv s = RecvEnded \<longleftrightarrow> (\<exists>x\<in>set (wk_got s). is_quit (cut x)))
     \<and> (wk_main s = Binding \<longleftrightarrow> wk_recv s = Unspawned \<and> running s)
     \<and> (wk_main s = Binding \<longrightarrow> wk_channel s = [])
     \<and> (wk_main s \<in> {Sleeping, Exited} \<longrightarrow> wk_recv s = RecvEnded \<and> wk_channel s = [])"

lemma wake_step_inv:
  assumes "wake_inv s" and "wake_step ev s = Some t"
  shows "wake_inv t"
proof (cases ev)
  case (Bound r)
  with assms show ?thesis
    by (auto simp: wake_step_def wake_inv_def running_def in_hand_def at_channel_def split: if_splits sum.splits)
next
  case (Received r)
  with assms show ?thesis
    by (auto simp: wake_step_def wake_inv_def running_def recv_step_def to_echo_snoc in_hand_def at_channel_def is_quit_def cut_def Let_def
        split: if_splits sum.splits main_task.splits)
next
  case Queued
  with assms show ?thesis
    by (auto simp: wake_step_def wake_inv_def running_def at_channel_def split: if_splits recv_task.splits main_task.splits)
next
  case Dequeued
  with assms show ?thesis
    by (auto simp: wake_step_def dequeue_step_def wake_inv_def running_def in_hand_def at_channel_def
        split: if_splits list.splits)
next
  case (SentBack r)
  with assms show ?thesis
    by (auto simp: wake_step_def wake_inv_def running_def in_hand_def split: main_task.splits sum.splits)
next
  case Tick
  with assms show ?thesis by (auto simp: wake_step_def wake_inv_def running_def in_hand_def split: if_splits)
next
  case (Slept took)
  with assms show ?thesis by (auto simp: wake_step_def wake_inv_def running_def in_hand_def split: if_splits)
qed
interpretation wake_sys: invariant_system "\<lambda>s. s = wake_start" wake_moves wake_inv
proof unfold_locales
  show "wake_inv s" if "s = wake_start" for s
    using that by (simp add: wake_inv_def to_echo_def wake_start_def running_def in_hand_def at_channel_def WAKE_CHANNEL_def)
  show "wake_inv t" if "wake_inv s" "wake_moves s t" for s t
    using that by (auto elim!: wake_moves.cases intro: wake_step_inv)
qed

lemma wake_run_moves: "wake_run evs s = Some t \<Longrightarrow> wake_moves\<^sup>*\<^sup>* s t"
  by (induction evs arbitrary: s)
    (auto split: option.splits intro: moves converse_rtranclp_into_rtranclp)

lemma wake_run_append: "wake_run (evs @ evs') s = (case wake_run evs s of None \<Rightarrow> None | Some t \<Rightarrow> wake_run evs' t)"
  by (induction evs arbitrary: s) (auto split: option.split)

lemma wake_run_inv: "wake_run evs wake_start = Some s \<Longrightarrow> wake_inv s"
  using wake_run_moves wake_sys.inv_rtranclp wake_sys.inv_init by blast

subsection \<open>Progress\<close>

text \<open>How far the main task is from its end once no packet comes in.\<close>

definition wake_rank :: "wake \<Rightarrow> nat" where
  "wake_rank s =
     (case wk_main s of
        Selecting \<Rightarrow> 2 * length (wk_channel s) + 2
      | Echoing _ \<Rightarrow> 2 * length (wk_channel s) + 3
      | Sleeping \<Rightarrow> 1
      | _ \<Rightarrow> 0)"

lemma wake_step_rank:
  assumes "wake_inv s" and "wk_recv s = RecvEnded" and "wake_step ev s = Some t"
  shows "wk_recv t = RecvEnded" and "wake_rank t + (if ev = Tick then 0 else 1) \<le> wake_rank s"
  using assms
  by (cases ev; force simp: wake_step_def dequeue_step_def recv_step_def running_def wake_rank_def wake_inv_def
      split: if_splits main_task.splits recv_task.splits list.splits sum.splits)+

lemma wake_run_rank:
  assumes "wake_inv s" and "wk_recv s = RecvEnded" and "wake_run evs s = Some t"
  shows "wake_inv t \<and> wk_recv t = RecvEnded \<and> length (filter (\<lambda>ev. ev \<noteq> Tick) evs) + wake_rank t \<le> wake_rank s"
  using assms
proof (induction evs arbitrary: s)
  case (Cons ev evs)
  then obtain u where u: "wake_step ev s = Some u" "wake_run evs u = Some t" by (auto split: option.splits)
  note step = wake_step_rank [OF Cons.prems(1,2) u(1)] wake_step_inv [OF Cons.prems(1) u(1)]
  from Cons.IH [OF step(3,1) u(2)] step(2) show ?case by (auto split: if_splits)
qed simp

text \<open>What may happen next in a running guest.\<close>

lemma wake_never_stuck:
  assumes "wake_inv s" and "running s"
  shows "\<exists>ev t. ev \<noteq> Tick \<and> wake_step ev s = Some t"
proof (cases "wk_main s")
  case Binding
  then have "wake_step (Bound (Inl '''')) s \<noteq> None" by (simp add: wake_step_def)
  then show ?thesis by blast
next
  case Selecting
  show ?thesis
  proof (cases "wk_channel s")
    case (Cons x rest)
    with Selecting have "wake_step Dequeued s \<noteq> None" by (simp add: wake_step_def dequeue_step_def)
    then show ?thesis by blast
  next
    case Nil
    show ?thesis
    proof (cases "wk_recv s")
      case Unspawned
      with assms Selecting show ?thesis by (simp add: wake_inv_def)
    next
      case AtSocket
      with assms(2) have "wake_step (Received (Inl '''')) s \<noteq> None" by (simp add: wake_step_def)
      then show ?thesis by blast
    next
      case (AtChannel x)
      with assms(2) Nil have "wake_step Queued s \<noteq> None" by (simp add: wake_step_def WAKE_CHANNEL_def)
      then show ?thesis by blast
    next
      case RecvEnded
      with Selecting Nil have "wake_step Dequeued s \<noteq> None" by (simp add: wake_step_def dequeue_step_def)
      then show ?thesis by blast
    qed
  qed
next
  case (Echoing x)
  then have "wake_step (SentBack (Inr ())) s \<noteq> None" by (simp add: wake_step_def)
  then show ?thesis by blast
next
  case Sleeping
  then have "wake_step (Slept 50) s \<noteq> None" by (simp add: wake_step_def)
  then show ?thesis by blast
qed (use assms(2) in \<open>simp_all add: running_def\<close>)

subsection \<open>Delivery\<close>

text \<open>The steps of the guest that need no arrival, no failure and no timer, and how many of them are left to do.\<close>

definition own_events :: "wake_event set" where
  "own_events = {Queued, Dequeued, SentBack (Inr ())}"

definition own_rank :: "wake \<Rightarrow> nat" where
  "own_rank s =
     3 * length (at_channel (wk_recv s)) + 2 * length (wk_channel s) + length (in_hand (wk_main s))
     + (if wk_main s = Sleeping then 0 else 1)"

definition own_idle :: "wake \<Rightarrow> bool" where
  "own_idle s \<longleftrightarrow> (\<forall>ev\<in>own_events. wake_step ev s = None)"

lemma own_step:
  assumes "ev \<in> own_events" and "wake_step ev s = Some t" and "running s"
  shows "running t \<and> wk_got t = wk_got s \<and> own_rank t < own_rank s"
proof -
  from assms(1) consider "ev = Queued" | "ev = Dequeued" | "ev = SentBack (Inr ())" by (auto simp: own_events_def)
  then show ?thesis
  proof cases
    case 1
    with assms(2,3) show ?thesis
      by (auto simp: wake_step_def running_def own_rank_def at_channel_def split: recv_task.splits if_splits)
  next
    case 2
    with assms(2,3) show ?thesis
      by (auto simp: wake_step_def dequeue_step_def running_def own_rank_def in_hand_def split: if_splits list.splits)
  next
    case 3
    with assms(2,3) show ?thesis
      by (auto simp: wake_step_def running_def own_rank_def in_hand_def split: main_task.splits)
  qed
qed

lemma own_run:
  assumes "evs \<in> lists own_events" and "wake_run evs s = Some t" and "running s"
  shows "running t \<and> wk_got t = wk_got s \<and> length evs + own_rank t \<le> own_rank s"
  using assms
proof (induction evs arbitrary: s)
  case (Cons ev evs)
  then obtain u where u: "wake_step ev s = Some u" "wake_run evs u = Some t" by (auto split: option.splits)
  from own_step [OF Cons.hyps(1) u(1) Cons.prems(2)] Cons.IH [OF u(2)] show ?case by fastforce
qed simp

lemma own_idle_delivered:
  assumes "wake_inv s" and "running s" and "own_idle s"
  shows "wk_sent s = to_echo (wk_got s)"
  using assms
  by (cases "wk_main s"; cases "wk_recv s"; cases "wk_channel s")
    (auto simp: own_idle_def own_events_def wake_step_def dequeue_step_def wake_inv_def running_def in_hand_def
      at_channel_def WAKE_CHANNEL_def)

lemma own_rank_bound: "wake_inv s \<Longrightarrow> own_rank s \<le> 133"
  by (auto simp: own_rank_def wake_inv_def WAKE_CHANNEL_def at_channel_def in_hand_def
      split: recv_task.split main_task.split)

lemma own_run_exists: "running s \<Longrightarrow> \<exists>evs t. evs \<in> lists own_events \<and> wake_run evs s = Some t \<and> own_idle t"
proof (induction "own_rank s" arbitrary: s rule: less_induct)
  case less
  show ?case
  proof (cases "own_idle s")
    case True
    then have "wake_run [] s = Some s \<and> [] \<in> lists own_events \<and> own_idle s" by simp
    then show ?thesis by blast
  next
    case False
    then obtain ev u where ev: "ev \<in> own_events" "wake_step ev s = Some u" by (auto simp: own_idle_def)
    note step = own_step [OF ev less.prems]
    from less.hyps [of u] step obtain evs t where "evs \<in> lists own_events" "wake_run evs u = Some t" "own_idle t"
      by blast
    with ev have "ev # evs \<in> lists own_events \<and> wake_run (ev # evs) s = Some t \<and> own_idle t" by simp
    then show ?thesis by blast
  qed
qed

section \<open>Properties\<close>

text \<open>C30. The echo of the wake-up guest: under every schedule of its tasks, and with any datagrams, it sends back
  a prefix of what arrived, each packet once, in order, to where it came from and cut to its buffer, with at
  most 64 of them queued; a guest that ended by itself echoed all of them up to the \<open>quit\<close> and counted them.\<close>

theorem wake_echoes_in_order:
  assumes "wake_run evs wake_start = Some s"
  shows "(\<exists>rest. filter (\<lambda>x. \<not> is_quit x) (map cut (wk_got s)) = wk_sent s @ rest)
     \<and> length (wk_channel s) \<le> WAKE_CHANNEL \<and> wk_echoed s = of_nat (length (wk_sent s))
     \<and> (wk_main s = Exited \<longrightarrow>
          (\<exists>x\<in>set (map cut (wk_got s)). is_quit x)
          \<and> wk_sent s = filter (\<lambda>x. \<not> is_quit x) (map cut (wk_got s)))"
  using wake_run_inv [OF assms] by (auto simp: wake_inv_def to_echo_def in_hand_def at_channel_def)

text \<open>C31. The progress of the wake-up guest, from every state a schedule reaches while it runs. It is never stuck: some
  event besides a tick is possible. Its own steps (handing a packet to the channel, taking one, a send that
  succeeds) deliver: there is a way to go on with them until none is possible, every way does so within 133
  steps, and then all that arrived so far is echoed. Once it received \<open>quit\<close>, every schedule, whatever the socket
  and the timers do in it, brings it to its end within 131 steps besides the ticks.\<close>

theorem wake_delivers_and_ends:
  assumes "wake_run evs wake_start = Some s" and "running s"
  shows "(\<exists>ev t. ev \<noteq> Tick \<and> wake_step ev s = Some t)
     \<and> (\<exists>evs' t. evs' \<in> lists {Queued, Dequeued, SentBack (Inr ())} \<and> wake_run evs' s = Some t
          \<and> wk_sent t = filter (\<lambda>x. \<not> is_quit x) (map cut (wk_got s)))
     \<and> (\<forall>evs' t. evs' \<in> lists {Queued, Dequeued, SentBack (Inr ())} \<and> wake_run evs' s = Some t \<longrightarrow>
          length evs' \<le> 133
          \<and> (wake_step Queued t = None \<and> wake_step Dequeued t = None \<and> wake_step (SentBack (Inr ())) t = None \<longrightarrow>
               wk_sent t = filter (\<lambda>x. \<not> is_quit x) (map cut (wk_got s))))
     \<and> (wk_recv s = RecvEnded \<longrightarrow>
          (\<forall>evs' t. wake_run evs' s = Some t \<longrightarrow> length (filter (\<lambda>ev. ev \<noteq> Tick) evs') \<le> 131))"
proof -
  note inv = wake_run_inv [OF assms(1)]
  have echoed: "wk_sent t = to_echo (wk_got s) \<and> length evs' \<le> 133"
    if "evs' \<in> lists own_events" "wake_run evs' s = Some t" "own_idle t" for evs' t
  proof -
    have "wake_inv t" using wake_run_inv [of "evs @ evs'" t] that(2) assms(1) by (simp add: wake_run_append)
    with own_run [OF that(1,2) assms(2)] own_idle_delivered [OF _ _ that(3)] own_rank_bound [OF inv]
    show ?thesis by (auto simp: to_echo_def)
  qed
  have short: "length evs' \<le> 133" if "evs' \<in> lists own_events" "wake_run evs' s = Some t" for evs' t
    using own_run [OF that assms(2)] own_rank_bound [OF inv] by linarith
  have ends: "length (filter (\<lambda>ev. ev \<noteq> Tick) evs') \<le> 131"
    if "wk_recv s = RecvEnded" "wake_run evs' s = Some t" for evs' t
  proof -
    have "wake_rank s \<le> 131"
      using inv by (auto simp: wake_rank_def wake_inv_def WAKE_CHANNEL_def split: main_task.split)
    with wake_run_rank [OF inv that] show ?thesis by linarith
  qed
  show ?thesis
    using wake_never_stuck [OF inv assms(2)] own_run_exists [OF assms(2)] echoed short ends
    unfolding own_events_def own_idle_def to_echo_def by (intro conjI) blast+
qed

section \<open>Witnesses\<close>

definition toy_packet :: packet where
  "toy_packet = ([1, 2], V4 (127, 0, 0, 1) 9)"

definition toy_arrival :: "wake_event list" where
  "toy_arrival =
     [Bound (Inr (Inr ''127.0.0.1:7777'')), Received (Inr toy_packet), Queued, Tick,
      Received (Inr (string_bytes ''quit'', snd toy_packet))]"

definition toy_departure :: "wake_event list" where
  "toy_departure = [Dequeued, SentBack (Inr ()), Tick, Dequeued, Slept 50]"

lemma toy_arrived:
  "\<exists>s. wake_run toy_arrival wake_start = Some s \<and> wk_recv s = RecvEnded \<and> wk_channel s = [toy_packet] \<and> wk_main s = Selecting
     \<and> wk_sent s = []"
  by (simp add: toy_arrival_def toy_packet_def wake_start_def wake_step_def recv_step_def running_def WAKE_BUF_def
      WAKE_CHANNEL_def string_bytes_def char_byte_def Let_def)

lemma toy_departed:
  assumes "wk_recv s = RecvEnded" and "wk_channel s = [toy_packet]" and "wk_main s = Selecting" and "wk_sent s = []"
  shows "\<exists>t. wake_run toy_departure s = Some t \<and> wk_main t = Exited \<and> wk_sent t = [toy_packet]"
  using assms by (simp add: toy_departure_def wake_step_def dequeue_step_def)

theorem wake_echoes_in_order_witness:
  "\<exists>s. wake_run (toy_arrival @ toy_departure) wake_start = Some s \<and> wk_main s = Exited
     \<and> [toy_packet] = filter (\<lambda>x. \<not> is_quit x) (map cut (wk_got s)) \<and> wk_echoed s = 1"
proof -
  obtain s0 s where "wake_run toy_arrival wake_start = Some s0" "wake_run toy_departure s0 = Some s"
      and ends: "wk_main s = Exited" "wk_sent s = [toy_packet]"
    using toy_arrived toy_departed by blast
  then have s: "wake_run (toy_arrival @ toy_departure) wake_start = Some s" by (simp add: wake_run_append)
  from wake_echoes_in_order [OF s] s ends show ?thesis by auto
qed

theorem wake_delivers_and_ends_witness:
  "\<exists>s evs' t. wake_run toy_arrival wake_start = Some s \<and> wake_run evs' s = Some t
     \<and> wk_sent t = filter (\<lambda>x. \<not> is_quit x) (map cut (wk_got s))
     \<and> length (filter (\<lambda>ev. ev \<noteq> Tick) toy_departure) \<le> 131"
proof -
  obtain s t where "wake_run toy_arrival wake_start = Some s" "wk_recv s = RecvEnded" "wk_main s = Selecting"
      "wake_run toy_departure s = Some t"
    using toy_arrived toy_departed by blast
  with wake_delivers_and_ends [OF this(1)] show ?thesis by (simp add: running_def) blast
qed

end
