(* ===== verification/Exec.thy ===== *)
theory Exec
  imports Loops
begin

text \<open>
  Model of the execution-model experiment: the probe guest \<open>experiments/exec-model/guest/src/lib.rs\<close> and, of its
  host \<open>host-wasmtime/src/bin/exec-model.rs\<close>, the stream consumer and the script of its main. The two statics of the
  guest are the shared state of its tasks; the calls it makes are effects and their results answers of the
  script. The lemmas show that the writer reports exactly what it wrote, that polls consume the result the
  detached task parked, and that the consumer reports its count once.
\<close>

section \<open>Definitions\<close>

subsection \<open>The guest\<close>

record exec_cells =
  PUMP_RESULT :: "string sresult option"
  STREAM_OUTCOME :: "string sresult option"

datatype exec_effect =
    GenerateKey
  | ExportKeyRaw
  | SpawnPump
  | SpawnWriter u32 u32
  | WriteBytes bytes
  | ReadBytes nat

datatype read_result = Complete | Dropped | Cancelled

text \<open>Errors of the key calls are their debug text; a write answers how many of its bytes it left.\<close>

record exec_answer =
  xa_generate :: "unit sresult"
  xa_export :: "bytes sresult"
  xa_remaining :: nat
  xa_read :: "read_result \<times> bytes"

type_synonym 'a exec_task = "(exec_cells, exec_answer, exec_effect, 'a) task"

definition sync_webcrypto_probe :: "('h) hex_codec_scheme \<Rightarrow> string sresult exec_task" where
  "sync_webcrypto_probe H =
     and_then (emit [GenerateKey]) (\<lambda>_.
     and_then (await xa_generate) (\<lambda>g.
       case g of
         Inl e \<Rightarrow> ret (Inl (''x25519 generate: '' @ e))
       | Inr _ \<Rightarrow>
           and_then (emit [ExportKeyRaw]) (\<lambda>_.
           and_then (await xa_export) (\<lambda>x.
             case x of
               Inl e \<Rightarrow> ret (Inl (''x25519 export: '' @ e))
             | Inr raw \<Rightarrow>
                 if length raw < 4 then panics SliceOutOfRange
                 else ret (Inr (''x25519 ok, pub[0..4]='' @ hex_encode H (take 4 raw)))))))"

text \<open>The spawned task always sends, so the receiver is never left without a sender.\<close>

definition blockon_in_spawn :: "('h) hex_codec_scheme \<Rightarrow> string sresult exec_task" where
  "blockon_in_spawn H =
     and_then (sync_webcrypto_probe H) (\<lambda>r.
       ret (map_sum id ((@) ''block_on inside spawn (export live): '') r))"

definition start_pump :: "unit sresult exec_task" where
  "start_pump =
     and_then (access (\<lambda>_ s. ((), s\<lparr>PUMP_RESULT := None\<rparr>))) (\<lambda>_.
     and_then (emit [SpawnPump]) (\<lambda>_. ret (Inr ())))"

definition exec_pump_task :: "('h) hex_codec_scheme \<Rightarrow> unit exec_task" where
  "exec_pump_task H =
     and_then (await (\<lambda>_. ())) (\<lambda>_.
     and_then (sync_webcrypto_probe H) (\<lambda>r.
       access (\<lambda>_ s. ((), s\<lparr>PUMP_RESULT := Some (map_sum id ((@) ''block_on in detached pump (no export live): '') r)\<rparr>))))"

definition take_pump_result :: "unit \<Rightarrow> nat \<Rightarrow> exec_cells \<Rightarrow> panic + string sresult option \<times> unit \<times> exec_cells" where
  "take_pump_result k now s = Inr (PUMP_RESULT s, k, s\<lparr>PUMP_RESULT := None\<rparr>)"

definition poll_pump :: "string sresult exec_task" where
  "poll_pump = wait_until take_pump_result ()"

definition take_stream_outcome :: "unit \<Rightarrow> nat \<Rightarrow> exec_cells \<Rightarrow> panic + string sresult option \<times> unit \<times> exec_cells" where
  "take_stream_outcome k now s = Inr (STREAM_OUTCOME s, k, s\<lparr>STREAM_OUTCOME := None\<rparr>)"

definition stream_outcome :: "string sresult exec_task" where
  "stream_outcome = wait_until take_stream_outcome ()"

text \<open>The export returns the reader; its writer is a task of its own.\<close>

definition exec_open_stream :: "u32 \<Rightarrow> u32 \<Rightarrow> unit exec_task" where
  "exec_open_stream tot chunk =
     and_then (access (\<lambda>_ s. ((), s\<lparr>STREAM_OUTCOME := None\<rparr>))) (\<lambda>_. emit [SpawnWriter tot chunk])"

definition writer_turn :: "u32 \<Rightarrow> u32 \<Rightarrow> u32 \<Rightarrow> (u32 + string) exec_task" where
  "writer_turn tot chunk sent =
     (if tot \<le> sent then ret (Inr (''wrote all '' @ dec_string (unat tot) @ '' bytes''))
      else
        (let len = unat (min chunk (tot - sent))
         in and_then (emit [WriteBytes (replicate len 0x42)]) (\<lambda>_.
            and_then (await xa_remaining) (\<lambda>remaining.
              if remaining \<noteq> 0
              then ret (Inr (''reader stopped after '' @ dec_string (unat sent + (len - remaining)) @ '' bytes (''
                          @ dec_string remaining @ '' unwritten)''))
              else and_then (await (\<lambda>_. ())) (\<lambda>_. ret (Inl (sent + of_nat len)))))))"

definition writer_task :: "u32 \<Rightarrow> u32 \<Rightarrow> unit exec_task" where
  "writer_task tot chunk =
     and_then (looping (writer_turn tot chunk) 0) (\<lambda>outcome.
       access (\<lambda>_ s. ((), s\<lparr>STREAM_OUTCOME := Some (Inr outcome)\<rparr>)))"

definition sink_turn :: "u32 \<Rightarrow> (u32 + u32 sresult) exec_task" where
  "sink_turn count =
     and_then (emit [ReadBytes 4096]) (\<lambda>_.
     and_then (await xa_read) (\<lambda>(result, buf).
       let count' = count + of_nat (length buf)
       in ret (case result of Complete \<Rightarrow> Inl count' | _ \<Rightarrow> Inr (Inr count'))))"

definition sink_stream :: "u32 sresult exec_task" where
  "sink_stream = looping sink_turn 0"

subsection \<open>The host's consumer\<close>

record count_then_drop =
  ctd_count :: u64
  ctd_limit :: u64
  ctd_open :: bool
  ctd_told :: "u64 list"

text \<open>\<open>ctd_open\<close>: the sender is still there; \<open>ctd_told\<close>: what was sent on it.\<close>

definition ctd_new :: "u64 \<Rightarrow> count_then_drop" where
  "ctd_new limit = \<lparr>ctd_count = 0, ctd_limit = limit, ctd_open = True, ctd_told = []\<rparr>"

definition ctd_finish :: "count_then_drop \<Rightarrow> count_then_drop" where
  "ctd_finish c =
     (if ctd_open c then c\<lparr>ctd_open := False, ctd_told := ctd_told c @ [ctd_count c]\<rparr> else c)"

datatype consumed = StreamDropped | StreamCompleted | StreamCancelled | PollPending | ConsumeFailed string

text \<open>A poll with what the source holds: the bytes a read hands out, all that are available, or its failure.\<close>

definition poll_consume :: "bytes sresult \<Rightarrow> bool \<Rightarrow> count_then_drop \<Rightarrow> consumed \<times> count_then_drop" where
  "poll_consume source finish c =
     (case source of
        Inl e \<Rightarrow> (ConsumeFailed e, c)
      | Inr available \<Rightarrow>
          if available \<noteq> []
          then
            (let c1 = c\<lparr>ctd_count := ctd_count c + of_nat (length available)\<rparr>
             in if ctd_limit c1 \<le> ctd_count c1 then (StreamDropped, ctd_finish c1) else (StreamCompleted, c1))
          else if finish then (StreamCancelled, ctd_finish c) else (PollPending, c))"

definition ctd_drop :: "count_then_drop \<Rightarrow> count_then_drop" where
  "ctd_drop c = ctd_finish c"

definition print_probe :: "string \<Rightarrow> string sresult \<Rightarrow> string" where
  "print_probe name result =
     (case result of
        Inr detail \<Rightarrow> ''PROBE '' @ name @ '': ok: '' @ detail
      | Inl err \<Rightarrow> ''PROBE '' @ name @ '': FAILED: '' @ err)"

subsection \<open>The host's script\<close>

datatype host_effect =
    CallBlockonInSpawn
  | CallStartPump
  | CallPollPump
  | CallOpenStream u32 u32
  | PipeTo count_then_drop
  | CallStreamOutcome
  | NewReader bytes
  | CallSinkStream
  | HostPrints string

text \<open>A call answers with a trap or with the guest's own result; the consumer's count may not have arrived.\<close>

record host_answer =
  ha_text :: "string sresult sresult"
  ha_unit :: "unit sresult"
  ha_started :: "unit sresult sresult"
  ha_told :: "u64 option"
  ha_count :: "u32 sresult sresult"

type_synonym 'a host_task = "(unit, host_answer, host_effect, 'a) task"

definition host_call :: "host_effect \<Rightarrow> (host_answer \<Rightarrow> 'a sresult) \<Rightarrow> 'a sresult host_task" where
  "host_call eff sel = and_then (emit [eff]) (\<lambda>_. await sel)"

definition host_probe :: "string \<Rightarrow> string sresult \<Rightarrow> unit sresult host_task" where
  "host_probe name r = and_then (emit [HostPrints (print_probe name r)]) (\<lambda>_. ret (Inr ()))"

definition told_text :: "u64 option \<Rightarrow> string" where
  "told_text n = (case n of None \<Rightarrow> [] | Some k \<Rightarrow> dec_string (unat k))"

text \<open>One stream probe: the outcome and the consumer's count are read when the guest's writer has ended.\<close>

definition stream_probe :: "string \<Rightarrow> u32 \<Rightarrow> u32 \<Rightarrow> u64 \<Rightarrow> unit sresult host_task" where
  "stream_probe name tot chunk limit =
     try_then (host_call (CallOpenStream tot chunk) ha_unit) (\<lambda>_.
     try_then (host_call (PipeTo (ctd_new limit)) ha_unit) (\<lambda>_.
     try_then (host_call CallStreamOutcome (\<lambda>a. map_sum id (\<lambda>r. (r, ha_told a)) (ha_text a))) (\<lambda>(outcome, told).
       host_probe name (map_sum id (\<lambda>d. ''host read '' @ told_text told @ '', guest: '' @ d) outcome))))"

definition exec_host_probes :: "unit sresult host_task" where
  "exec_host_probes =
     try_then (host_call CallBlockonInSpawn ha_text) (\<lambda>result.
     try_then (host_probe ''blockon-in-spawn'' result) (\<lambda>_.
     try_then (host_call CallStartPump ha_started) (\<lambda>started.
     try_then (ret started) (\<lambda>_.
     try_then (host_call CallPollPump ha_text) (\<lambda>result.
     try_then (host_probe ''blockon-in-detached-pump'' result) (\<lambda>_.
     try_then (stream_probe ''export-stream-complete'' 5000 1000 (- 1)) (\<lambda>_.
     try_then (stream_probe ''export-stream-reader-drop'' 100000 1000 2500) (\<lambda>_.
     try_then (host_call (NewReader (replicate 12345 0x33)) ha_unit) (\<lambda>_.
     try_then (host_call CallSinkStream ha_count) (\<lambda>counted.
       host_probe ''import-stream-sink''
         (map_sum id (\<lambda>n. ''guest counted '' @ dec_string (unat n) @ '' bytes'') counted)))))))))))"

definition exec_host_main :: "unit sresult host_task" where
  "exec_host_main =
     try_then exec_host_probes (\<lambda>_. and_then (emit [HostPrints ''exec-model probes complete'']) (\<lambda>_. ret (Inr ())))"

section \<open>Lemmas\<close>

subsection \<open>Parked results\<close>

text \<open>A poll takes the result away, so that each is delivered once; it waits as long as there is none.\<close>

lemma poll_pump_takes: "PUMP_RESULT (w_state w) = Some r \<Longrightarrow> poll_pump w = (Done r, w\<lparr>w_state := (w_state w)\<lparr>PUMP_RESULT := None\<rparr>\<rparr>)"
  unfolding poll_pump_def by (subst wait_until.simps) (simp add: take_pump_result_def)

lemma poll_pump_waits:
  assumes "env_respects (\<lambda>s t. PUMP_RESULT s = None \<longrightarrow> PUMP_RESULT t = None) w" and "PUMP_RESULT (w_state w) = None"
  shows "fst (poll_pump w) = Waiting"
  using assms unfolding poll_pump_def
proof (induction "length (w_script w)" arbitrary: w)
  case 0
  then show ?case by (subst wait_until.simps) (simp add: take_pump_result_def)
next
  case (Suc n)
  obtain r dt others rest where sc: "w_script w = (r, dt, others) # rest"
    using Suc.hyps(2) by (metis length_Suc_conv prod_cases3)
  note nxt = env_respects_next [OF Suc.prems(1) sc]
  let ?s = "(w_state w)\<lparr>PUMP_RESULT := None\<rparr>"
  have "PUMP_RESULT (others ?s) = None" using nxt(1) [of ?s] by simp
  then have "fst (wait_until take_pump_result () (w\<lparr>w_now := w_now w + dt, w_state := others ?s, w_script := rest\<rparr>)) = Waiting"
    using Suc.hyps(1) [of "w\<lparr>w_now := w_now w + dt, w_state := others ?s, w_script := rest\<rparr>"] Suc.hyps(2) sc nxt(2)
    by (simp add: env_respects_def)
  with sc Suc.prems(2) show ?case by (subst wait_until.simps) (simp add: take_pump_result_def)
qed

subsection \<open>The writer\<close>

definition written_bytes :: "exec_effect list \<Rightarrow> bytes" where
  "written_bytes l = concat (map (\<lambda>e. case e of WriteBytes bs \<Rightarrow> bs | _ \<Rightarrow> []) l)"

lemma written_bytes_simps [simp]:
  "written_bytes [] = []" "written_bytes (l @ l') = written_bytes l @ written_bytes l'"
  "written_bytes [WriteBytes bs] = bs" "written_bytes [ReadBytes n] = []"
  by (simp_all add: written_bytes_def)

text \<open>What the writer may say: that it wrote all, or how many bytes of those it wrote were left.\<close>

definition writer_says :: "u32 \<Rightarrow> nat \<Rightarrow> string \<Rightarrow> bool" where
  "writer_says tot n msg \<longleftrightarrow>
     msg = ''wrote all '' @ dec_string (unat tot) @ '' bytes'' \<and> n = unat tot
     \<or> (\<exists>before len left. n = before + len \<and> n \<le> unat tot \<and> 0 < left
          \<and> msg = ''reader stopped after '' @ dec_string (before + (len - left)) @ '' bytes ('' @ dec_string left @ '' unwritten)'')"

lemma writer_says_stop:
  assumes "n = before + len" and "n \<le> unat tot" and "0 < left"
  shows "writer_says tot n
     (''reader stopped after '' @ dec_string (before + (len - left)) @ '' bytes ('' @ dec_string left @ '' unwritten)'')"
  unfolding writer_says_def using assms by blast

lemma writer_turn_awaits: "writer_turn tot chunk sent w = (Done (Inl k'), w') \<Longrightarrow> length (w_script w') < length (w_script w)"
  by (auto simp: writer_turn_def Let_def and_then_def emit_def await_def ret_def split: if_splits list.splits prod.splits)

lemma chunk_fits:
  fixes tot sent chunk :: u32
  assumes "\<not> tot \<le> sent"
  shows "unat (sent + of_nat (unat (min chunk (tot - sent)))) = unat sent + unat (min chunk (tot - sent))"
    and "unat sent + unat (min chunk (tot - sent)) \<le> unat tot"
proof -
  have lt: "unat sent < unat tot" using assms by (simp add: word_le_nat_alt)
  have "unat (tot - sent) = unat tot - unat sent" using lt by (intro unat_sub) (simp add: word_le_nat_alt)
  moreover have "unat (min chunk (tot - sent)) \<le> unat (tot - sent)"
    using word_le_nat_alt [of "min chunk (tot - sent)" "tot - sent"] by simp
  ultimately show le: "unat sent + unat (min chunk (tot - sent)) \<le> unat tot" using lt by linarith
  have "unat tot < 2 ^ 32" using unsigned_less [of tot, where 'a = nat] by simp
  with le show "unat (sent + of_nat (unat (min chunk (tot - sent)))) = unat sent + unat (min chunk (tot - sent))"
    by (simp add: unat_word_ariths)
qed

lemma writer_triple:
  "triple (\<lambda>_ _. True) (\<lambda>_ l. length (written_bytes l) \<le> unat tot) (\<lambda>_ l. l = []) (looping (writer_turn tot chunk) 0)
     (\<lambda>msg _ l. writer_says tot (length (written_bytes l)) msg)"
proof -
  let ?I = "\<lambda>sent _ l. length (written_bytes l) = unat sent \<and> sent \<le> tot"
  have turn: "triple (\<lambda>_ _. True) (\<lambda>_ l. length (written_bytes l) \<le> unat tot) (?I sent) (writer_turn tot chunk sent)
     (\<lambda>r s l. case r of Inl k \<Rightarrow> ?I k s l | Inr msg \<Rightarrow> writer_says tot (length (written_bytes l)) msg)" for sent
  proof (cases "tot \<le> sent")
    case True
    then show ?thesis by (auto simp: writer_turn_def writer_says_def intro!: triple_ret)
  next
    case False
    let ?len = "unat (min chunk (tot - sent))"
    note fits = chunk_fits [OF False, of chunk]
    let ?J = "\<lambda>_ l. length (written_bytes l) = unat sent + ?len"
    have answered: "triple (\<lambda>_ _. True) (\<lambda>_ l. length (written_bytes l) \<le> unat tot) ?J
        (if left \<noteq> 0 then ret (Inr (''reader stopped after '' @ dec_string (unat sent + (?len - left)) @ '' bytes (''
              @ dec_string left @ '' unwritten)''))
         else and_then (await (\<lambda>_. ())) (\<lambda>_. ret (Inl (sent + of_nat ?len))))
        (\<lambda>r s l. case r of Inl k \<Rightarrow> ?I k s l | Inr msg \<Rightarrow> writer_says tot (length (written_bytes l)) msg)" for left
    proof (cases "left = 0")
      case True
      then show ?thesis
        using fits by (auto intro!: triple_and_then [OF triple_await [where Q = "\<lambda>_. ?J"]] triple_ret simp: word_le_nat_alt)
    next
      case False
      then show ?thesis
        using fits(2) by (simp only: if_True) (auto intro!: triple_ret writer_says_stop simp del: append.simps)
    qed
    show ?thesis
      unfolding writer_turn_def Let_def if_not_P [OF False]
      by (rule triple_and_then [OF triple_emit [where Q = "\<lambda>_. ?J"]], simp,
          rule triple_and_then [OF triple_await [where Q = "\<lambda>_. ?J"]], simp, use fits(2) in simp, rule answered)
  qed
  have "triple (\<lambda>_ _. True) (\<lambda>_ l. length (written_bytes l) \<le> unat tot) (?I 0) (looping (writer_turn tot chunk) 0)
     (\<lambda>msg _ l. writer_says tot (length (written_bytes l)) msg)"
    by (rule triple_looping_awaits [where I = ?I, OF turn writer_turn_awaits])
  then show ?thesis by (rule triple_weaken) auto
qed

subsection \<open>The consumer\<close>

text \<open>A pipe polls the consumer until it is through with the stream, and drops it then.\<close>

fun pipe :: "(bytes sresult \<times> bool) list \<Rightarrow> count_then_drop \<Rightarrow> count_then_drop" where
  "pipe [] c = ctd_drop c"
| "pipe ((available, finish) # polls) c =
     (case poll_consume available finish c of
        (StreamCompleted, c') \<Rightarrow> pipe polls c'
      | (PollPending, c') \<Rightarrow> pipe polls c'
      | (_, c') \<Rightarrow> ctd_drop c')"

text \<open>However the stream goes, the consumer tells one count, that of the bytes it took.\<close>

definition source_size :: "bytes sresult \<Rightarrow> nat" where
  "source_size src = (case src of Inl _ \<Rightarrow> 0 | Inr bs \<Rightarrow> length bs)"

fun pipe_taken :: "(bytes sresult \<times> bool) list \<Rightarrow> count_then_drop \<Rightarrow> nat" where
  "pipe_taken [] c = 0"
| "pipe_taken ((available, finish) # polls) c =
     (case poll_consume available finish c of
        (StreamCompleted, c') \<Rightarrow> source_size available + pipe_taken polls c'
      | (PollPending, c') \<Rightarrow> pipe_taken polls c'
      | _ \<Rightarrow> source_size available)"

lemma pipe_tells_once:
  assumes "ctd_open c"
  shows "ctd_told (pipe polls c) = ctd_told c @ [ctd_count c + of_nat (pipe_taken polls c)]"
  using assms
  by (induction polls c rule: pipe.induct)
    (auto simp: poll_consume_def ctd_finish_def ctd_drop_def source_size_def Let_def split: if_splits sum.splits)
subsection \<open>What the writer's task parks\<close>

lemma writer_task_parks:
  assumes "w_log w = []" and "writer_task tot chunk w = (Done (), w')"
  shows "\<exists>msg. STREAM_OUTCOME (w_state w') = Some (Inr msg) \<and> writer_says tot (length (written_bytes (w_log w'))) msg"
proof -
  obtain msg w1 where run: "looping (writer_turn tot chunk) 0 w = (Done msg, w1)"
    and w': "w' = w1\<lparr>w_state := (w_state w1)\<lparr>STREAM_OUTCOME := Some (Inr msg)\<rparr>\<rparr>"
    using assms(2) by (auto simp: writer_task_def and_then_def access_def split: prod.splits outcome.splits)
  have "env_respects (\<lambda>_ _. True) w" by (simp add: env_respects_def)
  from tripleD(1) [OF writer_triple this _ run] assms(1) have "writer_says tot (length (written_bytes (w_log w1))) msg" by simp
  with w' show ?thesis by simp
qed

text \<open>With a chunk of no bytes the writer never reports: every write succeeds and nothing is left behind it.\<close>

lemma writer_turn_empty:
  assumes "0 < tot" and "\<forall>(a, dt, others)\<in>set (w_script w). xa_remaining a = 0"
  obtains (waits) w' where "writer_turn tot 0 0 w = (Waiting, w')"
  | (again) w' where "writer_turn tot 0 0 w = (Done (Inl 0), w')" "length (w_script w') < length (w_script w)"
      "set (w_script w') \<subseteq> set (w_script w)"
proof (cases "w_script w")
  case Nil
  with assms(1) show ?thesis
    by (intro waits [of "w\<lparr>w_log := w_log w @ [WriteBytes []]\<rparr>"])
      (simp add: writer_turn_def and_then_def emit_def await_def word_le_nat_alt word_less_nat_alt)
next
  case (Cons x rest)
  obtain a dt others where x: "x = (a, dt, others)" by (metis prod_cases3)
  then have zero: "xa_remaining a = 0" using assms(2) Cons by simp
  note facts = Cons x zero assms(1)
  show ?thesis
  proof (cases rest)
    case Nil
    with facts show ?thesis
      by (intro waits [of "w\<lparr>w_log := w_log w @ [WriteBytes []], w_now := w_now w + dt, w_state := others (w_state w),
            w_script := []\<rparr>"])
        (simp add: writer_turn_def and_then_def emit_def await_def word_le_nat_alt word_less_nat_alt)
  next
    case (Cons y rest')
    obtain b dt' others' where y: "y = (b, dt', others')" by (metis prod_cases3)
    from facts Cons y show ?thesis
      by (intro again [of "w\<lparr>w_log := w_log w @ [WriteBytes []], w_now := w_now w + dt + dt',
            w_state := others' (others (w_state w)), w_script := rest'\<rparr>"])
        (auto simp: writer_turn_def and_then_def emit_def await_def ret_def word_le_nat_alt word_less_nat_alt)
  qed
qed

lemma zero_chunk_never_reports:
  assumes "0 < tot" and "\<forall>(a, dt, others)\<in>set (w_script w). xa_remaining a = 0"
  shows "fst (looping (writer_turn tot 0) 0 w) = Waiting"
proof -
  have "\<exists>w'. loop_opt (loop_turn (writer_turn tot 0)) (0, w) = Some (Waiting, w')"
    using assms(2)
  proof (induction "length (w_script w)" arbitrary: w rule: less_induct)
    case less
    from assms(1) less.prems show ?case
    proof (cases rule: writer_turn_empty)
      case (waits w')
      then show ?thesis by (subst loop_opt.simps) (simp add: loop_turn_def)
    next
      case (again w')
      have "\<forall>(a, dt, others)\<in>set (w_script w'). xa_remaining a = 0" using less.prems again(3) by blast
      from less.hyps [OF again(2) this] again(1) show ?thesis by (subst loop_opt.simps) (simp add: loop_turn_def)
    qed
  qed
  then show ?thesis by (auto simp: looping_def)
qed

subsection \<open>The sink\<close>

text \<open>The sink counts the bytes of the reads it made, modulo \<open>2 ^ 32\<close>.\<close>

definition read_total :: "(exec_answer \<times> nat \<times> (exec_cells \<Rightarrow> exec_cells)) list \<Rightarrow> nat" where
  "read_total items = sum_list (map (\<lambda>(a, _, _). length (snd (xa_read a))) items)"

lemma sink_turn_reads:
  assumes "sink_turn count w = (Done r, w')"
  shows "\<exists>a dt others. w_script w = (a, dt, others) # w_script w'
     \<and> r = (case fst (xa_read a) of
              Complete \<Rightarrow> Inl (count + of_nat (length (snd (xa_read a))))
            | _ \<Rightarrow> Inr (Inr (count + of_nat (length (snd (xa_read a))))))"
  using assms
  by (auto simp: sink_turn_def and_then_def emit_def await_def ret_def Let_def split: list.splits prod.splits read_result.splits)

lemma sink_counts:
  assumes "sink_stream w = (Done r, w')"
  shows "\<exists>used. w_script w = used @ w_script w' \<and> r = Inr (of_nat (read_total used))"
proof -
  have "loop_opt (loop_turn sink_turn) (0, w) = Some (Done r, w')"
    using assms by (auto simp: sink_stream_def looping_def split: option.splits)
  then have "(\<lambda>(res, w'). \<forall>r. res = Done r \<longrightarrow> (\<exists>used. w_script w = used @ w_script w' \<and> r = Inr (of_nat (read_total used)))) (Done r, w')"
  proof (rule loop_opt_partial [where I = "\<lambda>(count, w1). \<exists>used. w_script w = used @ w_script w1 \<and> count = of_nat (read_total used)"],
      goal_cases)
    case 1
    show ?case by (simp add: read_total_def)
  next
    case (2 k k')
    obtain count w1 count' w2 where k: "k = (count, w1)" "k' = (count', w2)" by fastforce
    with 2(2) have "sink_turn count w1 = (Done (Inl count'), w2)"
      by (auto simp: loop_turn_def split: prod.splits outcome.splits sum.splits)
    from sink_turn_reads [OF this] 2(1) k show ?case
      by (force simp: read_total_def split: read_result.splits intro: exI [of _ "_ @ [_]"])
  next
    case (3 k x)
    obtain count w1 where k: "k = (count, w1)" by fastforce
    obtain res w2 where x: "x = (res, w2)" by fastforce
    show ?case
    proof (cases "\<exists>r. res = Done r")
      case True
      then obtain r where r: "res = Done r" by blast
      with 3(2) k x have "sink_turn count w1 = (Done (Inr r), w2)"
        by (auto simp: loop_turn_def split: prod.splits outcome.splits sum.splits)
      from sink_turn_reads [OF this] 3(1) k x r show ?thesis
        by (force simp: read_total_def split: read_result.splits intro: exI [of _ "_ @ [_]"])
    qed (use x in auto)
  qed
  then show ?thesis by simp
qed

subsection \<open>The host's report\<close>

text \<open>A run of the host that succeeds printed one line per probe, in the order of the script, whatever each
  probe found; a failing probe does not end it.\<close>

definition host_lines :: "host_effect list \<Rightarrow> string list" where
  "host_lines l = concat (map (\<lambda>e. case e of HostPrints s \<Rightarrow> [s] | _ \<Rightarrow> []) l)"

lemma host_lines_simps [simp]:
  "host_lines [] = []" "host_lines (l @ l') = host_lines l @ host_lines l'" "host_lines [HostPrints s] = [s]"
  by (simp_all add: host_lines_def)

definition reports :: "string list \<Rightarrow> 'a sresult host_task \<Rightarrow> bool" where
  "reports names t \<longleftrightarrow>
     (\<forall>w x w'. t w = (Done (Inr x), w') \<longrightarrow>
        (\<exists>rs. length rs = length names \<and> host_lines (w_log w') = host_lines (w_log w) @ map2 print_probe names rs))"

lemma reportsI:
  "(\<And>w x w'. t w = (Done (Inr x), w') \<Longrightarrow>
      \<exists>rs. length rs = length names \<and> host_lines (w_log w') = host_lines (w_log w) @ map2 print_probe names rs)
     \<Longrightarrow> reports names t"
  by (simp add: reports_def)

lemma try_then_done:
  assumes "try_then m f w = (Done (Inr x), w')"
  obtains y w1 where "m w = (Done (Inr y), w1)" "f y w1 = (Done (Inr x), w')"
  using assms by (auto simp: try_then_def and_then_def ret_def split: prod.splits outcome.splits sum.splits)

lemma reports_try:
  assumes "reports ns m" and "\<And>x. reports ns' (f x)"
  shows "reports (ns @ ns') (try_then m f)"
proof (rule reportsI)
  fix w x w'
  assume "try_then m f w = (Done (Inr x), w')"
  then obtain y w1 where runs: "m w = (Done (Inr y), w1)" "f y w1 = (Done (Inr x), w')" by (rule try_then_done)
  obtain rs where rs: "length rs = length ns" "host_lines (w_log w1) = host_lines (w_log w) @ map2 print_probe ns rs"
    using assms(1) runs(1) unfolding reports_def by blast
  obtain rs' where "length rs' = length ns'" "host_lines (w_log w') = host_lines (w_log w1) @ map2 print_probe ns' rs'"
    using assms(2) runs(2) unfolding reports_def by blast
  with rs show "\<exists>rs. length rs = length (ns @ ns') \<and> host_lines (w_log w') = host_lines (w_log w) @ map2 print_probe (ns @ ns') rs"
    by (intro exI [of _ "rs @ rs'"]) simp
qed

lemma reports_quiet: "reports [] m \<Longrightarrow> (\<And>x. reports ns (f x)) \<Longrightarrow> reports ns (try_then m f)"
  using reports_try [of "[]" m ns f] by simp

lemma reports_named: "reports [n] m \<Longrightarrow> (\<And>x. reports ns (f x)) \<Longrightarrow> reports (n # ns) (try_then m f)"
  using reports_try [of "[n]" m ns f] by simp

lemma reports_call: "(\<And>s. eff \<noteq> HostPrints s) \<Longrightarrow> reports [] (host_call eff sel)"
  by (cases eff) (auto simp: reports_def host_call_def and_then_def emit_def await_def host_lines_def
      split: list.splits prod.splits)

lemma reports_ret: "reports [] (ret r)"
  by (simp add: reports_def ret_def)

lemma reports_probe: "reports [name] (host_probe name r)"
  by (rule reportsI) (auto simp: host_probe_def and_then_def emit_def ret_def intro!: exI [of _ "[r]"])

lemma reports_stream_probe: "reports [name] (stream_probe name tot chunk limit)"
  unfolding stream_probe_def
  by (intro reports_quiet reports_call) (auto intro: reports_probe split: prod.split)

lemma probes_report:
  "reports [''blockon-in-spawn'', ''blockon-in-detached-pump'', ''export-stream-complete'', ''export-stream-reader-drop'',
     ''import-stream-sink''] exec_host_probes"
  unfolding exec_host_probes_def
  by (intro reports_quiet [OF reports_call] reports_named [OF reports_probe] reports_quiet [OF reports_ret]
      reports_named [OF reports_stream_probe] reports_probe) simp_all

theorem exec_host_reports_all:
  assumes "exec_host_main w = (Done (Inr ()), w')" and "w_log w = []"
  shows "\<exists>rs. length rs = 5
     \<and> host_lines (w_log w') =
         map2 print_probe [''blockon-in-spawn'', ''blockon-in-detached-pump'', ''export-stream-complete'',
           ''export-stream-reader-drop'', ''import-stream-sink''] rs @ [''exec-model probes complete'']"
proof -
  let ?names = "[''blockon-in-spawn'', ''blockon-in-detached-pump'', ''export-stream-complete'',
      ''export-stream-reader-drop'', ''import-stream-sink'']"
  obtain w1 where run: "exec_host_probes w = (Done (Inr ()), w1)"
    and w': "(and_then (emit [HostPrints ''exec-model probes complete'']) (\<lambda>_. ret (Inr ())) :: unit sresult host_task) w1 = (Done (Inr ()), w')"
    using assms(1) unfolding exec_host_main_def by (auto elim!: try_then_done)
  have "\<exists>rs. length rs = length ?names \<and> host_lines (w_log w1) = host_lines (w_log w) @ map2 print_probe ?names rs"
    using probes_report run unfolding reports_def by blast
  moreover have "host_lines (w_log w') = host_lines (w_log w1) @ [''exec-model probes complete'']"
    using w' by (auto simp: and_then_def emit_def ret_def)
  ultimately show ?thesis using assms(2) by force
qed

end
