(* ===== verification/Snapshots.thy ===== *)
theory Snapshots
  imports Relay_Frames
begin

text \<open>
  The unit tests of \<open>core/src/relay_frames.rs\<close>, which pin the frames to snapshots of the upstream relay, evaluated
  on the model: each lemma is the assertions of one test. Postcard is instantiated as the tests use it: an
  array is its bytes, a byte sequence follows its length.
\<close>

definition KEY :: endpoint_id where
  "KEY =
     [0x19, 0x7f, 0x6b, 0x23, 0xe1, 0x6c, 0x85, 0x32, 0xc6, 0xab, 0xc8, 0x38, 0xfa, 0xcd, 0x5e,
      0xa7, 0x89, 0xbe, 0x0c, 0x76, 0xb2, 0x92, 0x03, 0x34, 0x03, 0x9b, 0xfa, 0x8b, 0x3d, 0x36,
      0x8d, 0x61]"

lemma client_datagram_matches_upstream_snapshot:
  "encode_client_datagram KEY (string_bytes ''Hello World!'') = [0x04] @ KEY @ [0x00] @ string_bytes ''Hello World!''"
  by code_simp

lemma relay_datagram_decodes_upstream_snapshots:
  "case split_tag ([0x06] @ KEY @ [0x03] @ string_bytes ''Hello World!'') of
     None \<Rightarrow> False
   | Some (tag, pl) \<Rightarrow>
       tag = RELAY_TO_CLIENT_DATAGRAM
       \<and> decode_relay_datagrams pl False = Some [\<lparr>source = KEY, payload = string_bytes ''Hello World!''\<rparr>]"
  "case split_tag ([0x07] @ KEY @ [0x03] @ [0x00, 0x06] @ string_bytes ''Hello World!'') of
     None \<Rightarrow> False
   | Some (tag, pl) \<Rightarrow>
       tag = RELAY_TO_CLIENT_DATAGRAM_BATCH
       \<and> decode_relay_datagrams pl True
           = Some [\<lparr>source = KEY, payload = string_bytes ''Hello ''\<rparr>, \<lparr>source = KEY, payload = string_bytes ''World!''\<rparr>]"
  by code_simp+

lemma ping_pong_frames:
  "encode_pong (replicate 8 42) = [0x0a, 42, 42, 42, 42, 42, 42, 42, 42]"
  "split_tag [0x09, 42, 42, 42, 42, 42, 42, 42, 42] = Some (PING, replicate 8 42)"
  by code_simp+

definition postcard_auth :: "client_auth \<Rightarrow> bytes \<Rightarrow> bytes" where
  "postcard_auth a front = front @ public_key a @ [of_nat (length (signature a))] @ signature a"

lemma client_auth_layout:
  "encode_client_auth postcard_auth KEY (replicate 64 7) = [0x01] @ KEY @ [64] @ replicate 64 7"
  by code_simp

text \<open>Bytes that are no postcard string are read as lossy text.\<close>

lemma denial_reason_falls_back:
  "string_bytes (decode_denial_reason (\<lambda>_. None) [0xff, 0x00]) = [0xef, 0xbf, 0xbd, 0x00]"
  by code_simp

end
