(* ===== verification/Spec2Isabelle.thy ===== *)
theory Spec2Isabelle
  imports Prelude Relay_Frames Identity Relay Sockets Endpoint_State Endpoint_Drain Async Webrtc Pump
    Endpoint_Api Streams Virt Loops Spike Spike_Demo Demo Cli Peer Virt_Io Wake Exec Snapshots
begin

text \<open>
  Verification development of component-iroh, an iroh-style QUIC endpoint as a WebAssembly component.

  \<^bold>\<open>The program.\<close> An application holds an \<^emph>\<open>endpoint\<close> resource bound to a home relay. The
  endpoint drives the sans-I/O QUIC state machine noq over three wires: relays (websocket frames), a
  UDP socket and WebRTC data channels. A peer reached through a relay has a synthetic IPv6
  \<^emph>\<open>standin\<close> address, and a route table says which wire carries it. One task, the \<^emph>\<open>pump\<close>,
  moves datagrams and timers; signaling sessions negotiate channels through the relay; the exported
  methods poll the shared state until the pump has produced what they wait for. All tasks are
  cooperative: they interleave only at awaits.

  \<^bold>\<open>Theories and the sources they model.\<close>
  \<^item> \<open>Prelude\<close>: machine types, the interface \<open>error\<close>, Rust panics, string and list pieces, the
    generic interfaces as locales (\<open>invariant_system\<close>, \<open>latched\<close>, \<open>codec\<close>, \<open>datagram_source\<close>,
    \<open>directory\<close>) and the collection \<open>inv_intros\<close>.
  \<^item> \<open>Relay_Frames\<close> (\<open>core/src/relay_frames.rs\<close>): the relay frame codecs, varint tags, batches,
    lossy UTF-8; \<open>Snapshots\<close> evaluates that file's unit tests on the model. \<open>Relay\<close>
    (\<open>core/src/relay.rs\<close>): URL mapping, the challenge handshake, receiving with pings, sending.
  \<^item> \<open>Identity\<close> (\<open>core/src/crypto/sign.rs\<close>, \<open>core/src/tls.rs\<close>, \<open>endpoint/src/identity.rs\<close>): key
    generation and adoption, signing, raw-public-key TLS configurations.
  \<^item> \<open>Sockets\<close> (\<open>endpoint/src/udp.rs\<close>): the UDP wire and address conversion.
  \<^item> \<open>Endpoint_State\<close> (\<open>endpoint/src/endpoint_impl.rs\<close>, \<open>State\<close>): the shared state as a record, its
    operations, and its invariant \<open>state_inv\<close> with one preservation lemma per operation. The QUIC
    library is the record \<open>noq\<close> of the operations the code calls; \<open>HashMap\<close>s are maps, or association
    lists where the code iterates over them.
  \<^item> \<open>Endpoint_Drain\<close>: \<open>State::drain\<close> and \<open>on_event\<close>, as partial functions (a drain that never ends
    is \<open>None\<close>) and as a step relation labelled with what each step polled (\<open>conn_does\<close>, \<open>drain_trace\<close>; \<open>conn_step\<close>
    without the labels, on which the latched facts are proved).
  \<^item> \<open>Async\<close>: what an \<open>async fn\<close> means here. A task maps a world (clock, shared state, script of
    host answers with what the other tasks do meanwhile, log of calls) to an outcome: done, waiting,
    panicked or diverged. \<open>rely_guarantee\<close> carries relations the other tasks respect; \<open>triple\<close> is the
    proof rule format for outcomes; \<open>wait_until\<close> and \<open>repeat_while\<close> are the two loop forms.
  \<^item> \<open>Webrtc\<close> (\<open>endpoint/src/webrtc.rs\<close>): channel wires, signals, the offerer's and answerer's sessions.
  \<^item> \<open>Pump\<close>: the I/O task: flushes, arming of receives, exit conditions, the four select arms,
    teardown.
  \<^item> \<open>Endpoint_Api\<close>: options, \<open>bind\<close>, \<open>ensure_relay\<close>, \<open>connect\<close>, \<open>accept\<close>, \<open>close\<close> and the methods of
    a connection; \<open>endpoint_runs\<close> are the runs of an endpoint since its bind, \<open>dial_step\<close> the interleavings of
    its relay dials. \<open>Streams\<close>: \<open>write_all\<close>, \<open>read_some\<close> and the stream resources.
  \<^item> \<open>Loops\<close>: Rust's \<open>loop\<close> over local variables, plain and inside a task, with rules that ask for an
    invariant and a reason to end; \<open>upholds\<close>, invariants of a single task.
  \<^item> \<open>Spike\<close> (\<open>guest/src/endpoint.rs\<close>) and \<open>Spike_Demo\<close> (\<open>guest/src/lib.rs\<close>): the spike guest the endpoint
    grew out of: one connection over one wire with its demo application, and the exported run with
    signaling through the relay and the final identity check.
  \<^item> \<open>Demo\<close> (\<open>endpoint-demo/src/lib.rs\<close>): the application on the exported interface, composed of the methods
    of \<open>Endpoint_Api\<close> and \<open>Streams\<close>: identity and options, the client's and the server's halves, the run. The
    locale \<open>held_connection\<close> is what an application may rely on while it holds a connection.
  \<^item> \<open>Cli\<close> (\<open>host-wasmtime/src/main.rs\<close>, \<open>host-wasmtime/src/bin/endpoint-demo.rs\<close>): the command lines of the
    native drivers, the configurations they build and what they print, around the models of the guests.
  \<^item> \<open>Peer\<close> (\<open>tools/iroh-peer/src/main.rs\<close>): the interop peer on upstream iroh. Its rule formats follow
    a task: \<open>delivers\<close> its transcript on every path, \<open>answered\<close> the answers behind the transcript of a success.
  \<^item> \<open>Virt\<close> and \<open>Virt_Io\<close> (\<open>experiments/udp-wake/virt/src/lib.rs\<close>): the portable poll and UDP layer of the
    wake-up experiment, and its passthrough streams and stubs, behind the locale \<open>transparent_layer\<close>.
    \<open>Wake\<close> (\<open>experiments/udp-wake/guest/src/main.rs\<close>): the probe guest on that layer, as a step relation
    over the events its two tasks await, an instance of \<open>invariant_system\<close>.
  \<^item> \<open>Exec\<close> (\<open>experiments/exec-model/guest/src/lib.rs\<close>, \<open>host-wasmtime/src/bin/exec-model.rs\<close>): the probes of the
    execution model, the host's stream consumer and its script.

  \<^bold>\<open>What the theorems show.\<close> Frame codecs are inverse to a relay's reading of them, and receives
  deliver every datagram once and in order. The handshake succeeds exactly on answered challenges, and
  its answers prove the identity. Datagrams are attributed to their authenticated source; standins
  distinguish peers; a drain ends, never panics, surfaces exactly the incoming connections whose reported
  TLS key is the peer they were bound to, and sends each packet on the wire the route of its own destination names. The pump never panics or
  spins, keeps every wire armed, confines a foreign relay's death, and resolves all its imports before
  it ends. Signaling sessions keep the invariant and own their slot, and a flood of signals is bounded.
  On top of these, \<open>connect\<close> and \<open>accept\<close> return only authenticated connections; waits end when their
  connection fails; concurrent dials share relay opens; a write refines an append to the stream, and forwarding a
  stream loses and repeats nothing. The spike never panics or spins, speaks to one peer, echoes what it
  read, and reports only the peer that TLS authenticated. The demo application, on top of the whole
  endpoint, does the same, and its echo is exact end to end; the drivers print that report and no other. The
  interop peer makes exactly the calls of its transcript, succeeds only on the echoes it asks for and accepts the
  demo's. The portable poll returns only what the host or its own queues made ready. The wake-up guest
  echoes in order, is never stuck, delivers by its own steps all that arrived and ends after \<open>quit\<close>. Several lemmas state behaviour that differs from the comments: the
  offerer's channel falls back to the home relay, a second offer aborts a session, a reused handle
  replaces a queued connection, a dead relay's key is handed out again, the lingering pump strands
  \<open>wait_closed\<close>, a read on a cleanly closed connection reports an end the peer did not send, the
  spike's client completes without its datagram echo when the peer closes first, and its signaling binds
  to the source of the first datagram, signal or not; the demo's client rejects an echo whose uppercase
  form changed its length and cuts a bulk size down to 32 bits; the interop peer refuses the demo's verbatim
  echo of a long message; the virtual UDP socket rebinds, streams unbound and sends beyond its permit; a
  stream probe with empty chunks never reports.

  \<^bold>\<open>Hypotheses.\<close> noq, the TLS stack, WebCrypto handles, the JSON and postcard codecs and the host
  resources are arguments. Where a theorem needs their behaviour it is a named predicate, with a
  concrete instance in the witnesses: \<open>noq_sizes\<close> (a transmit's size fits the buffer it wrote),
  \<open>noq_finite_backlog\<close> (queues are finite and feeding an event adds a bounded number),
  \<open>spike_backlog\<close> (the same for the stream and datagram operations of the spike),
  \<open>stream_sends\<close> and \<open>stream_reads\<close> (a write appends what it took, a read hands out the next bytes), \<open>reading_keeps\<close> (a read leaves
  the sent bytes alone), \<open>writes_bounded\<close>, \<open>reads_drain\<close> and \<open>streams_apart\<close> (a write takes no more than it
  was given, a read uses up what there is, the two directions are separate). The Unicode case mapping of \<open>to_uppercase\<close>, the hex codec and the texts of
  library errors are arguments without hypotheses.
  Hypotheses on other tasks are relations between states, such as \<open>api_kept\<close>, in which the contract
  that noq does not hand out a handle whose entry is in use is explicit. For \<open>accept\<close> the contract is smaller:
  \<open>opens_unqueued\<close>, no connection is opened under a handle that still waits for acceptance.

  \<^bold>\<open>Bounds.\<close> Machine integers keep their width (\<open>u32\<close> counters wrap as in the release profile), so
  that the standins are distinct up to \<open>2 ^ 32\<close> peers only; \<open>usize\<close> is 32 bits wide where the code
  truncates to it. No fuel is used: recursion over a script ends with the script, which stands for an
  arbitrary finite run, and drains are shown to end.

  \<^bold>\<open>Not modelled.\<close> The set-up of the wasmtime engine, store and linker in the native hosts, which is all
  third-party calls and an argument of their models; module declarations and generated
  bindings. Internals of noq, rustls, iroh, tokio and the codecs are outside the repository; of tokio, \<open>Wake\<close>
  uses that a channel is first in, first out with its capacity, and that tasks interleave at awaits only.
\<close>

end
